(* ===== verification/Prelude.thy ===== *)
theory Prelude
  imports Main "HOL-Library.Word" "HOL-Library.AList" "HOL-Library.List_Lexorder"
    "HOL-Library.Char_ord"
begin

text \<open>
  What every component shares: the types the code's Rust types become, checked and
  saturating counters, hash maps and ordered maps as association lists, and the decimal
  printing of \<^verbatim>\<open>format!("{n}")\<close>.

  Rust's \<^verbatim>\<open>u64\<close> is \<open>64 word\<close>; a \<^verbatim>\<open>usize\<close> that only counts elements or bytes held
  in memory is \<open>nat\<close>; a \<^verbatim>\<open>String\<close>, a \<^verbatim>\<open>&str\<close> and a \<^verbatim>\<open>Vec<u8>\<close> are lists of bytes,
  that is lists of \<open>char\<close> (Isabelle's \<open>char\<close> is an 8-bit byte), so that \<open>length\<close> is the
  byte length as \<^verbatim>\<open>len()\<close> is. The order on such lists is the bytewise lexicographic one,
  which is \<^verbatim>\<open>Ord for str\<close>.
\<close>

type_synonym u64 = "64 word"
type_synonym bytes = "char list"

section \<open>Counters\<close>

text \<open>\<^verbatim>\<open>n.checked_add(1)\<close> and \<^verbatim>\<open>n.saturating_add(1)\<close> on a \<^verbatim>\<open>u64\<close>.\<close>

definition checked_inc :: "u64 \<Rightarrow> u64 option" where
  "checked_inc n = (if n = - 1 then None else Some (n + 1))"

definition saturating_inc :: "u64 \<Rightarrow> u64" where
  "saturating_inc n = (if n = - 1 then n else n + 1)"

lemma unat_max_u64: "unat (- 1 :: u64) = 2 ^ 64 - 1"
  by transfer (simp add: take_bit_minus_one_eq_mask mask_eq_exp_minus_1)

lemma max_u64: "n = (- 1 :: u64) \<longleftrightarrow> unat n = 2 ^ 64 - 1"
  by (metis unat_max_u64 word_unat_eq_iff)

lemma unat_inc:
  assumes "n \<noteq> - 1"
  shows "unat (n + 1 :: u64) = Suc (unat n)"
proof -
  from assms have "1 + n \<noteq> 0" by (simp add: add_eq_0_iff)
  then show ?thesis using unatSuc [of n] by (simp add: add.commute)
qed

lemma checked_inc_Some: "checked_inc n = Some m \<longleftrightarrow> n \<noteq> - 1 \<and> m = n + 1"
  by (auto simp: checked_inc_def)

lemma unat_checked_inc: "checked_inc n = Some m \<Longrightarrow> unat m = Suc (unat n)"
  by (auto simp: checked_inc_Some unat_inc)

lemma saturating_inc_ge: "unat n \<le> unat (saturating_inc n)"
  by (simp add: saturating_inc_def unat_inc)

section \<open>Hash maps as association lists\<close>

text \<open>
  A \<^verbatim>\<open>HashMap\<close> is an association list with distinct keys: \<open>map_of\<close> is \<^verbatim>\<open>get\<close>,
  \<open>AList.update\<close> is \<^verbatim>\<open>insert\<close>, \<open>AList.delete\<close> is \<^verbatim>\<open>remove\<close> and \<open>length\<close> is \<^verbatim>\<open>len\<close>.
  The order of the list is the (unspecified) iteration order of the map.
\<close>

abbreviation keys :: "('k \<times> 'v) list \<Rightarrow> 'k list" where
  "keys m \<equiv> map fst m"

definition amap :: "('k \<times> 'v) list \<Rightarrow> bool" where
  "amap m \<longleftrightarrow> distinct (keys m)"

lemma amap_Nil [simp]: "amap []"
  by (simp add: amap_def)

lemma amap_update [simp]: "amap m \<Longrightarrow> amap (AList.update k v m)"
  by (simp add: amap_def distinct_update)

lemma amap_delete [simp]: "amap m \<Longrightarrow> amap (AList.delete k m)"
  by (simp add: amap_def distinct_delete)

lemma amap_filter [simp]: "amap m \<Longrightarrow> amap (filter P m)"
  by (induction m) (auto simp: amap_def)

lemma map_of_update [simp]: "map_of (AList.update k v m) = (map_of m)(k \<mapsto> v)"
  by (rule update_conv')

lemma map_of_delete [simp]: "map_of (AList.delete k m) = (map_of m)(k := None)"
  by (rule delete_conv')

lemma length_update:
  "length (AList.update k v m) = (if k \<in> set (keys m) then length m else Suc (length m))"
  by (induction m) auto

lemma length_delete: "length (AList.delete k m) \<le> length m"
  by (induction m) auto

lemma length_delete_present:
  "amap m \<Longrightarrow> k \<in> set (keys m) \<Longrightarrow> Suc (length (AList.delete k m)) = length m"
proof (induction m)
  case (Cons p m)
  show ?case
  proof (cases "fst p = k")
    case True
    with Cons.prems have "k \<notin> set (keys m)" by (auto simp: amap_def)
    with True show ?thesis by (simp add: AList.delete_idem)
  next
    case False
    with Cons show ?thesis by (auto simp: amap_def)
  qed
qed simp

lemma mem_keys_map_of: "k \<in> set (keys m) \<longleftrightarrow> map_of m k \<noteq> None"
  by (simp add: map_of_eq_None_iff)

lemma amap_map_of: "amap m \<Longrightarrow> (k, v) \<in> set m \<longleftrightarrow> map_of m k = Some v"
  by (auto simp: amap_def)

section \<open>Sums over a list of keys\<close>

lemma sum_list_map_upd_notin:
  "k \<notin> set xs \<Longrightarrow> sum_list (map (f(k := v)) xs) = sum_list (map f xs)"
  by (simp add: map_fun_upd)

lemma sum_list_map_upd:
  fixes f :: "'a \<Rightarrow> nat"
  assumes "distinct xs" and "k \<in> set xs"
  shows "sum_list (map (f(k := v)) xs) + f k = sum_list (map f xs) + v"
  using assms
proof (induction xs)
  case (Cons x xs)
  show ?case
  proof (cases "x = k")
    case True
    with Cons.prems have "sum_list (map (f(k := v)) xs) = sum_list (map f xs)"
      by (simp only: sum_list_map_upd_notin distinct.simps not_False_eq_True)
    with True show ?thesis by (simp add: fun_upd_same del: fun_upd_apply)
  next
    case False
    with Cons show ?thesis by simp
  qed
qed simp

lemma filter_neq_id: "k \<notin> set xs \<Longrightarrow> filter (\<lambda>x. x \<noteq> k) xs = xs"
  by (auto simp: filter_id_conv)

lemma sum_list_map_remove:
  fixes f :: "'a \<Rightarrow> nat"
  assumes "distinct xs" and "k \<in> set xs"
  shows "sum_list (map f (filter (\<lambda>x. x \<noteq> k) xs)) + f k = sum_list (map f xs)"
  using assms
  by (induction xs) (auto simp: filter_neq_id)

lemma member_le_sum_list_map:
  fixes f :: "'a \<Rightarrow> nat"
  shows "k \<in> set xs \<Longrightarrow> f k \<le> sum_list (map f xs)"
  by (induction xs) auto

section \<open>Ordered maps as sorted association lists\<close>

text \<open>
  A \<^verbatim>\<open>BTreeMap\<close> is an association list sorted by key: \<open>bt_insert\<close> is \<^verbatim>\<open>insert\<close>,
  \<open>AList.delete\<close> is \<^verbatim>\<open>remove\<close>, and the order of the list is the iteration order.
\<close>

fun bt_insert :: "'k::linorder \<Rightarrow> 'v \<Rightarrow> ('k \<times> 'v) list \<Rightarrow> ('k \<times> 'v) list" where
  "bt_insert k v [] = [(k, v)]"
| "bt_insert k v ((k', v') # m) =
     (if k = k' then (k, v) # m
      else if k < k' then (k, v) # (k', v') # m
      else (k', v') # bt_insert k v m)"

definition bmap :: "('k::linorder \<times> 'v) list \<Rightarrow> bool" where
  "bmap m \<longleftrightarrow> sorted_wrt (<) (keys m)"

lemma bmap_Nil [simp]: "bmap []"
  by (simp add: bmap_def)

lemma bmap_amap: "bmap m \<Longrightarrow> amap m"
  by (simp add: bmap_def amap_def strict_sorted_iff)

lemma set_keys_bt_insert: "set (keys (bt_insert k v m)) = insert k (set (keys m))"
  by (induction k v m rule: bt_insert.induct) auto

lemma map_of_bt_insert [simp]: "map_of (bt_insert k v m) = (map_of m)(k \<mapsto> v)"
  by (induction k v m rule: bt_insert.induct) auto

lemma bmap_bt_insert [simp]: "bmap m \<Longrightarrow> bmap (bt_insert k v m)"
proof (induction k v m rule: bt_insert.induct)
  case (2 k v k' v' m)
  then show ?case
    using set_keys_bt_insert [of k v m] by (auto simp: bmap_def)
qed (simp add: bmap_def)

lemma bmap_filter [simp]: "bmap m \<Longrightarrow> bmap (filter P m)"
  by (induction m) (auto simp: bmap_def)

lemma bmap_delete [simp]: "bmap m \<Longrightarrow> bmap (AList.delete k m)"
  by (simp add: AList.delete_eq)

section \<open>Decimal printing\<close>

text \<open>
  \<^verbatim>\<open>format!("{n}")\<close> of an unsigned integer: the digits, most significant first.
\<close>

definition digit :: "nat \<Rightarrow> char" where
  "digit d = ''0123456789'' ! d"

fun show_nat :: "nat \<Rightarrow> string" where
  "show_nat n = (if n < 10 then [digit n] else show_nat (n div 10) @ [digit (n mod 10)])"

declare show_nat.simps [simp del]

definition read_nat :: "string \<Rightarrow> nat" where
  "read_nat s = foldl (\<lambda>a c. 10 * a + (of_char c - 48)) 0 s"

lemma digit_range: "d < 10 \<Longrightarrow> of_char (digit d) = (48 + d :: nat)"
proof -
  have "\<forall>d < 10. of_char (digit d) = (48 + d :: nat)" by code_simp
  then show "d < 10 \<Longrightarrow> ?thesis" by blast
qed

lemma of_char_digit: "d < 10 \<Longrightarrow> of_char (digit d) - (48 :: nat) = d"
  by (simp add: digit_range)

lemma read_show_nat [simp]: "read_nat (show_nat n) = n"
proof (induction n rule: show_nat.induct)
  case (1 n)
  then show ?case
    by (subst show_nat.simps) (auto simp: read_nat_def of_char_digit)
qed

lemma show_nat_inject [simp]: "show_nat m = show_nat n \<longleftrightarrow> m = n"
  by (metis read_show_nat)

lemma show_nat_digits: "c \<in> set (show_nat n) \<Longrightarrow> 48 \<le> (of_char c :: nat) \<and> of_char c < (58 :: nat)"
proof (induction n rule: show_nat.induct)
  case (1 n)
  then show ?case
    by (subst (asm) (2) show_nat.simps) (auto simp: digit_range split: if_splits)
qed

section \<open>Hexadecimal printing\<close>

text \<open>
  \<^verbatim>\<open>sha256\<close> of \<^verbatim>\<open>src/lib.rs\<close>: the digest in lower-case hexadecimal. The hash function itself
  (the crate \<^verbatim>\<open>sha2\<close>) is a parameter.
\<close>

definition hex_digit :: "nat \<Rightarrow> char" where
  "hex_digit d = ''0123456789abcdef'' ! d"

definition hex_byte :: "char \<Rightarrow> string" where
  "hex_byte c = [hex_digit (of_char c div 16), hex_digit (of_char c mod 16)]"

definition sha256 :: "(bytes \<Rightarrow> bytes) \<Rightarrow> bytes \<Rightarrow> string" where
  "sha256 digest b = concat (map hex_byte (digest b))"

lemma hex_digit_inject: "m < 16 \<Longrightarrow> n < 16 \<Longrightarrow> hex_digit m = hex_digit n \<longleftrightarrow> m = n"
proof -
  have "\<forall>m < 16. \<forall>n < 16. hex_digit m = hex_digit n \<longleftrightarrow> m = n" by code_simp
  then show "m < 16 \<Longrightarrow> n < 16 \<Longrightarrow> ?thesis" by blast
qed

lemma hex_byte_inject [simp]: "hex_byte c = hex_byte d \<longleftrightarrow> c = d"
proof
  assume "hex_byte c = hex_byte d"
  moreover have "of_char x div 16 < (16 :: nat)" for x :: char
    by (simp add: div_less_iff_less_mult)
  ultimately have "of_char c div 16 = (of_char d div 16 :: nat)" "of_char c mod 16 = (of_char d mod 16 :: nat)"
    by (simp_all add: hex_byte_def hex_digit_inject)
  then have "of_char c = (of_char d :: nat)" by (metis div_mult_mod_eq)
  then show "c = d" by simp
qed simp

lemma length_hex_byte [simp]: "length (hex_byte c) = 2"
  by (simp add: hex_byte_def)

lemma hex_inject: "concat (map hex_byte xs) = concat (map hex_byte ys) \<longleftrightarrow> xs = ys"
proof (induction xs arbitrary: ys)
  case Nil
  then show ?case by (cases ys) (simp_all add: hex_byte_def)
next
  case (Cons x xs)
  then show ?case
    by (cases ys) (simp_all add: append_eq_append_conv, simp add: hex_byte_def)
qed

text \<open>Two hashes are printed alike exactly when the digests agree.\<close>

lemma sha256_eq: "sha256 digest a = sha256 digest b \<longleftrightarrow> digest a = digest b"
  by (simp add: sha256_def hex_inject)

lemma length_sha256: "length (sha256 digest b) = 2 * length (digest b)"
  by (simp add: sha256_def length_concat comp_def sum_list_triv)

end
