(* ===== verification/Utf8.thy ===== *)
theory Utf8
  imports Prelude
begin

text \<open>
  Strings as valid UTF-8 byte lists: the check \<^verbatim>\<open>std::str::from_utf8\<close> makes,
  \<^verbatim>\<open>str::is_char_boundary\<close>, and the loop by which the code shortens a message to a byte
  limit without cutting a character (\<^verbatim>\<open>src/error.rs\<close> and \<^verbatim>\<open>src/build/mod.rs\<close>). The lemmas
  show that the loop stops, that it drops less than one character, and that what is left
  is valid UTF-8.
\<close>

section \<open>Well-formed byte sequences\<close>

abbreviation byte :: "char \<Rightarrow> nat" where
  "byte c \<equiv> of_char c"

definition within :: "nat \<Rightarrow> nat \<Rightarrow> char \<Rightarrow> bool" where
  "within lo hi c \<longleftrightarrow> lo \<le> byte c \<and> byte c \<le> hi"

abbreviation cont :: "char \<Rightarrow> bool" where
  "cont \<equiv> within 0x80 0xBF"

text \<open>The encodings of one scalar value (the Unicode standard's table 3-7).\<close>

fun scalar :: "bytes \<Rightarrow> bool" where
  "scalar [a] = within 0 0x7F a"
| "scalar [a, b] = (within 0xC2 0xDF a \<and> cont b)"
| "scalar [a, b, c] =
     ((byte a = 0xE0 \<and> within 0xA0 0xBF b \<or>
       (within 0xE1 0xEC a \<or> within 0xEE 0xEF a) \<and> cont b \<or>
       byte a = 0xED \<and> within 0x80 0x9F b) \<and> cont c)"
| "scalar [a, b, c, d] =
     ((byte a = 0xF0 \<and> within 0x90 0xBF b \<or>
       within 0xF1 0xF3 a \<and> cont b \<or>
       byte a = 0xF4 \<and> within 0x80 0x8F b) \<and> cont c \<and> cont d)"
| "scalar _ = False"

text \<open>
  \<^verbatim>\<open>from_utf8(b).is_ok()\<close>: the bytes are a sequence of such encodings. No encoding is a
  proper prefix of another, so trying the four widths in turn reads the one there is.
\<close>

fun utf8 :: "bytes \<Rightarrow> bool" where
  "utf8 [] = True"
| "utf8 (a # s) =
     (if scalar [a] then utf8 s
      else if scalar (a # take 1 s) then utf8 (drop 1 s)
      else if scalar (a # take 2 s) then utf8 (drop 2 s)
      else scalar (a # take 3 s) \<and> utf8 (drop 3 s))"

declare utf8.simps(2) [simp del]

lemma scalar_cases:
  assumes "scalar u"
  obtains a where "u = [a]" "\<not> cont a"
  | a b where "u = [a, b]" "\<not> cont a" "cont b" "\<not> scalar [a]"
  | a b c where "u = [a, b, c]" "\<not> cont a" "cont b" "cont c" "\<not> scalar [a]" "\<not> scalar [a, b]"
  | a b c d where "u = [a, b, c, d]" "\<not> cont a" "cont b" "cont c" "cont d"
      "\<not> scalar [a]" "\<not> scalar [a, b]" "\<not> scalar [a, b, c]"
  using assms by (cases u rule: scalar.cases) (auto simp: within_def)

declare scalar.simps [simp del]

lemma scalar_ne: "scalar u \<Longrightarrow> u \<noteq> []"
  by (erule scalar_cases) auto

lemma scalar_length: "scalar u \<Longrightarrow> length u \<le> 4"
  by (erule scalar_cases) auto

lemma scalar_hd: "scalar u \<Longrightarrow> \<not> cont (u ! 0)"
  by (erule scalar_cases) auto

lemma scalar_tl: "scalar u \<Longrightarrow> 0 < i \<Longrightarrow> i < length u \<Longrightarrow> cont (u ! i)"
  by (erule scalar_cases) (auto simp: less_Suc_eq numeral_2_eq_2 numeral_3_eq_3)

lemma utf8_scalar_append:
  assumes "scalar u"
  shows "utf8 (u @ s) = utf8 s"
  using assms
  by (cases rule: scalar_cases)
    (use assms in \<open>simp_all add: utf8.simps(2) numeral_2_eq_2 numeral_3_eq_3\<close>)

text \<open>A valid string is a list of characters, each one encoding.\<close>

lemma utf8_concat: "\<forall>u \<in> set us. scalar u \<Longrightarrow> utf8 (concat us)"
  by (induction us) (auto simp: utf8_scalar_append)

lemma utf8_chars:
  assumes "utf8 s"
  shows "\<exists>us. s = concat us \<and> (\<forall>u \<in> set us. scalar u)"
  using assms
proof (induction s rule: utf8.induct)
  case 1
  then show ?case by (intro exI [of _ "[]"]) simp
next
  case (2 a s)
  have split: "\<exists>us. a # s = concat us \<and> (\<forall>u \<in> set us. scalar u)"
    if "scalar (a # take n s)" and "\<exists>us. drop n s = concat us \<and> (\<forall>u \<in> set us. scalar u)" for n
  proof -
    from that(2) obtain us where "drop n s = concat us" "\<forall>u \<in> set us. scalar u" by blast
    with that(1) show ?thesis
      by (intro exI [of _ "(a # take n s) # us"])
        (metis append_Cons append_take_drop_id concat.simps(2) set_ConsD)
  qed
  show ?case
    using "2.prems" "2.IH" split [of 0] split [of 1] split [of 2] split [of 3]
    by (simp add: utf8.simps(2) split: if_splits)
qed

lemma utf8_iff_chars: "utf8 s \<longleftrightarrow> (\<exists>us. s = concat us \<and> (\<forall>u \<in> set us. scalar u))"
  using utf8_chars utf8_concat by blast

lemma utf8_append: "utf8 s \<Longrightarrow> utf8 t \<Longrightarrow> utf8 (s @ t)"
  by (metis Un_iff concat_append set_append utf8_iff_chars)

lemma utf8_ascii: "\<forall>c \<in> set s. byte c < 128 \<Longrightarrow> utf8 s"
  by (induction s) (auto simp: utf8.simps(2) scalar.simps(1) within_def)

section \<open>Character boundaries and truncation\<close>

text \<open>\<^verbatim>\<open>str::is_char_boundary\<close>.\<close>

definition is_char_boundary :: "string \<Rightarrow> nat \<Rightarrow> bool" where
  "is_char_boundary s i \<longleftrightarrow>
     (if i = 0 then True else if length s \<le> i then i = length s else \<not> cont (s ! i))"

text \<open>The loop \<^verbatim>\<open>while !text.is_char_boundary(end) { end -= 1; }\<close>.\<close>

function boundary_back :: "string \<Rightarrow> nat \<Rightarrow> nat" where
  "boundary_back s e = (if is_char_boundary s e then e else boundary_back s (e - 1))"
  by pat_completeness auto
termination
  by (relation "measure snd") (auto simp: is_char_boundary_def split: if_splits)

declare boundary_back.simps [simp del]

text \<open>\<^verbatim>\<open>truncate(text, max)\<close> of \<^verbatim>\<open>src/build/mod.rs\<close>.\<close>

definition truncate_text :: "string \<Rightarrow> nat \<Rightarrow> string" where
  "truncate_text s mx = take (boundary_back s (min mx (length s))) s"

lemma boundary_back_boundary: "is_char_boundary s (boundary_back s e)"
proof (induction s e rule: boundary_back.induct)
  case (1 s e)
  then show ?case by (subst boundary_back.simps) simp
qed

lemma boundary_back_le: "boundary_back s e \<le> e"
proof (induction s e rule: boundary_back.induct)
  case (1 s e)
  then show ?case by (subst boundary_back.simps) (auto intro: le_trans)
qed

text \<open>No boundary between the result and the start is skipped.\<close>

lemma boundary_back_greatest:
  "b \<le> e \<Longrightarrow> is_char_boundary s b \<Longrightarrow> b \<le> boundary_back s e"
proof (induction s e rule: boundary_back.induct)
  case (1 s e)
  show ?case
  proof (cases "is_char_boundary s e")
    case True
    with "1.prems" show ?thesis by (subst boundary_back.simps) simp
  next
    case False
    with "1.prems" have "b \<noteq> e" by auto
    with "1.prems" have "b \<le> e - 1" by simp
    with False "1.IH" "1.prems" show ?thesis by (subst boundary_back.simps) simp
  qed
qed

lemma boundary_0 [simp]: "is_char_boundary s 0"
  by (simp add: is_char_boundary_def)

lemma boundary_append:
  "length u < e \<Longrightarrow> is_char_boundary (u @ s) e = is_char_boundary s (e - length u)"
  by (simp add: is_char_boundary_def nth_append) linarith

text \<open>A boundary inside a string of characters splits the list of characters.\<close>

lemma boundary_chars:
  assumes "\<forall>u \<in> set us. scalar u" and "e \<le> length (concat us)"
    and "is_char_boundary (concat us) e"
  shows "\<exists>vs ws. us = vs @ ws \<and> take e (concat us) = concat vs"
  using assms
proof (induction us arbitrary: e)
  case Nil
  then show ?case by simp
next
  case (Cons u us)
  consider (zero) "e = 0" | (inside) "0 < e" "e < length u" | (beyond) "length u \<le> e" "0 < e"
    by linarith
  then show ?case
  proof cases
    case zero
    then show ?thesis by (intro exI [of _ "[]"] exI [of _ "u # us"]) simp
  next
    case inside
    then have "cont (concat (u # us) ! e)"
      using Cons.prems(1) by (simp add: nth_append scalar_tl)
    with inside Cons.prems show ?thesis by (simp add: is_char_boundary_def)
  next
    case beyond
    have "is_char_boundary (concat us) (e - length u)"
      using Cons.prems(3) beyond(1) by (cases "e = length u") (simp_all add: boundary_append)
    moreover have "e - length u \<le> length (concat us)" using Cons.prems(2) by simp
    ultimately obtain vs ws where "us = vs @ ws" "take (e - length u) (concat us) = concat vs"
      using Cons.IH [of "e - length u"] Cons.prems(1) by (meson list.set_intros(2))
    then have "u # us = (u # vs) @ ws \<and> take e (concat (u # us)) = concat (u # vs)"
      using beyond by simp
    then show ?thesis by blast
  qed
qed

lemma take_boundary_utf8:
  assumes "utf8 s" and "is_char_boundary s e"
  shows "utf8 (take e s)"
proof (cases "e \<le> length s")
  case True
  from utf8_chars [OF assms(1)] obtain us where us: "s = concat us" "\<forall>u \<in> set us. scalar u"
    by blast
  with boundary_chars [of us e] assms(2) True obtain vs ws
    where "us = vs @ ws" "take e s = concat vs" by auto
  with us show ?thesis using utf8_concat [of vs] by simp
next
  case False
  with assms show ?thesis by simp
qed

text \<open>At most three continuation bytes follow each other, so at most three are dropped.\<close>

lemma boundary_near:
  assumes "\<forall>u \<in> set us. scalar u" and "e \<le> length (concat us)"
  shows "\<exists>b. b \<le> e \<and> e \<le> b + 3 \<and> is_char_boundary (concat us) b"
  using assms
proof (induction us arbitrary: e)
  case Nil
  then show ?case by (simp add: is_char_boundary_def)
next
  case (Cons u us)
  show ?case
  proof (cases "e < length u")
    case True
    then have "e \<le> 3" using Cons.prems scalar_length [of u] by auto
    then show ?thesis by (intro exI [of _ 0]) (simp add: is_char_boundary_def)
  next
    case False
    with Cons.prems have "e - length u \<le> length (concat us)" and "\<forall>v \<in> set us. scalar v"
      by auto
    then obtain b where b: "b \<le> e - length u" "e - length u \<le> b + 3"
      "is_char_boundary (concat us) b"
      using Cons.IH by blast
    have "is_char_boundary (concat (u # us)) (length u + b)"
    proof (cases "b = 0")
      case True
      show ?thesis
      proof (cases us)
        case (Cons v vs)
        with Cons.prems have "scalar v" by simp
        with Cons True show ?thesis
          using scalar_hd [of v] scalar_ne [of v]
          by (auto simp: is_char_boundary_def nth_append)
      qed (use True in \<open>simp add: is_char_boundary_def\<close>)
    next
      case False
      with b(3) show ?thesis by (simp add: boundary_append)
    qed
    moreover have "length u + b \<le> e \<and> e \<le> length u + b + 3"
      using b(1,2) False by linarith
    ultimately show ?thesis by blast
  qed
qed

lemma truncate_utf8: "utf8 s \<Longrightarrow> utf8 (truncate_text s mx)"
  by (simp add: truncate_text_def take_boundary_utf8 boundary_back_boundary)

lemma truncate_length: "length (truncate_text s mx) \<le> mx"
  using boundary_back_le [of s "min mx (length s)"] by (simp add: truncate_text_def)

lemma truncate_prefix: "\<exists>r. s = truncate_text s mx @ r"
  by (metis append_take_drop_id truncate_text_def)

lemma boundary_back_full [simp]: "boundary_back s (length s) = length s"
  by (subst boundary_back.simps) (simp add: is_char_boundary_def)

lemma truncate_id: "length s \<le> mx \<Longrightarrow> truncate_text s mx = s"
  by (simp add: truncate_text_def min_absorb2)

lemma truncate_tight:
  assumes "utf8 s" and "mx \<le> length s"
  shows "mx \<le> length (truncate_text s mx) + 3"
proof -
  from utf8_chars [OF assms(1)] obtain us where us: "s = concat us" "\<forall>u \<in> set us. scalar u"
    by blast
  with boundary_near [of us mx] assms(2) obtain b
    where b: "b \<le> mx" "mx \<le> b + 3" "is_char_boundary s b" by auto
  then have "b \<le> boundary_back s mx" by (intro boundary_back_greatest)
  moreover have "boundary_back s mx \<le> length s"
    using boundary_back_le [of s mx] assms(2) by simp
  ultimately show ?thesis using b(2) assms(2) by (simp add: truncate_text_def)
qed

end
