(* ===== verification/Json.thy ===== *)
theory Json
  imports Utf8
begin

text \<open>
  JSON values as the code sees them, and the structural limit \<^verbatim>\<open>valid_value\<close> of
  \<^verbatim>\<open>src/helpers.rs\<close>.

  The constructors of \<open>json\<close> are the ones the code matches on (\<^verbatim>\<open>Value::Null\<close> to
  \<^verbatim>\<open>Value::Object\<close>, all six in \<^verbatim>\<open>h_kind\<close>). A JSON object is a map ordered by key. The
  accessors below (\<^verbatim>\<open>get\<close>, \<^verbatim>\<open>as_str\<close>, \<^verbatim>\<open>as_i64\<close>, indexing, equality, the \<^verbatim>\<open>json!\<close>
  macro) are serde-json's documented ones. The printer and the parser of serde-json are
  not modelled: they are the parameters \<open>enc\<close> (\<^verbatim>\<open>to_vec\<close>) and \<open>parse\<close> (\<^verbatim>\<open>from_str\<close>,
  \<^verbatim>\<open>from_slice\<close>) of the definitions that call them, and what a theorem needs of them is
  a hypothesis of it.
\<close>

section \<open>Values\<close>

text \<open>A number is an integer or a finite double, the latter given by its IEEE 754 bits.\<close>

datatype number = Integer int | Float u64

datatype json =
    Null
  | Bool bool
  | Number number
  | String string
  | Array "json list"
  | Object "(string \<times> json) list"

text \<open>Results carry the error's text on the left.\<close>

type_synonym encoder = "json \<Rightarrow> string + bytes"
type_synonym parser = "bytes \<Rightarrow> string + json"

fun vget :: "json \<Rightarrow> string \<Rightarrow> json option" where
  "vget (Object m) k = map_of m k"
| "vget _ _ = None"

fun vat :: "json \<Rightarrow> nat \<Rightarrow> json option" where
  "vat (Array a) i = (if i < length a then Some (a ! i) else None)"
| "vat _ _ = None"

definition vindex :: "json \<Rightarrow> string \<Rightarrow> json" where
  "vindex v k = (case vget v k of Some x \<Rightarrow> x | None \<Rightarrow> Null)"

fun as_str :: "json \<Rightarrow> string option" where
  "as_str (String s) = Some s"
| "as_str _ = None"

fun as_bool :: "json \<Rightarrow> bool option" where
  "as_bool (Bool b) = Some b"
| "as_bool _ = None"

fun as_i64 :: "json \<Rightarrow> u64 option" where
  "as_i64 (Number (Integer i)) =
     (if - (2 ^ 63) \<le> i \<and> i < 2 ^ 63 then Some (word_of_int i) else None)"
| "as_i64 _ = None"

fun is_object :: "json \<Rightarrow> bool" where
  "is_object (Object _) = True"
| "is_object _ = False"

text \<open>\<^verbatim>\<open>json!({"k": v, ...})\<close>.\<close>

definition jobj :: "(string \<times> json) list \<Rightarrow> json" where
  "jobj kvs = Object (fold (\<lambda>(k, v). bt_insert k v) kvs [])"

lemma vget_jobj: "vget (jobj kvs) k = map_of (rev kvs) k"
proof -
  have "map_of (fold (\<lambda>(k, v). bt_insert k v) kvs m) = map_of m ++ map_of (rev kvs)" for m :: "(string \<times> json) list"
    by (induction kvs arbitrary: m) (auto simp: map_add_assoc)
  then show ?thesis by (simp add: jobj_def)
qed

text \<open>\<^verbatim>\<open>json!(n as i64)\<close>.\<close>

definition jint :: "int \<Rightarrow> json" where
  "jint i = Number (Integer i)"

definition jnat :: "nat \<Rightarrow> json" where
  "jnat n = jint (int n)"

text \<open>
  \<^verbatim>\<open>==\<close> on values: structural, an integer never equal to a double, doubles compared as
  doubles (the two zeros are equal; a JSON number is never a NaN).
\<close>

fun number_eq :: "number \<Rightarrow> number \<Rightarrow> bool" where
  "number_eq (Integer i) (Integer j) = (i = j)"
| "number_eq (Float x) (Float y) = (x = y \<or> push_bit 1 x = 0 \<and> push_bit 1 y = 0)"
| "number_eq _ _ = False"

fun value_eq :: "json \<Rightarrow> json \<Rightarrow> bool"
and values_eq :: "json list \<Rightarrow> json list \<Rightarrow> bool"
and members_eq :: "(string \<times> json) list \<Rightarrow> (string \<times> json) list \<Rightarrow> bool" where
  "value_eq Null Null = True"
| "value_eq (Bool a) (Bool b) = (a = b)"
| "value_eq (Number m) (Number n) = number_eq m n"
| "value_eq (String s) (String t) = (s = t)"
| "value_eq (Array a) (Array b) = values_eq a b"
| "value_eq (Object a) (Object b) = members_eq a b"
| "value_eq _ _ = False"
| "values_eq [] [] = True"
| "values_eq (v # a) (w # b) = (value_eq v w \<and> values_eq a b)"
| "values_eq _ _ = False"
| "members_eq [] [] = True"
| "members_eq ((k, v) # a) ((l, w) # b) = (k = l \<and> value_eq v w \<and> members_eq a b)"
| "members_eq _ _ = False"

lemma number_eq_refl [simp]: "number_eq n n"
  by (cases n) auto

lemma values_eq_reflI: "(\<And>v. v \<in> set a \<Longrightarrow> value_eq v v) \<Longrightarrow> values_eq a a"
  by (induction a) auto

lemma members_eq_reflI: "(\<And>v. v \<in> snd ` set m \<Longrightarrow> value_eq v v) \<Longrightarrow> members_eq m m"
  by (induction m) auto

lemma value_eq_refl [simp]: "value_eq v v"
  by (induction v) (auto intro!: values_eq_reflI members_eq_reflI)

section \<open>The structural limit\<close>

text \<open>Number of nodes of a value, and how deep it nests.\<close>

primrec nodes :: "json \<Rightarrow> nat" where
  "nodes Null = 1"
| "nodes (Bool b) = 1"
| "nodes (Number n) = 1"
| "nodes (String s) = 1"
| "nodes (Array a) = Suc (sum_list (map nodes a))"
| "nodes (Object m) = Suc (sum_list (map snd (map (map_prod id nodes) m)))"

primrec height :: "json \<Rightarrow> nat" where
  "height Null = 0"
| "height (Bool b) = 0"
| "height (Number n) = 0"
| "height (String s) = 0"
| "height (Array a) = foldr max (map Suc (map height a)) 0"
| "height (Object m) = foldr max (map Suc (map snd (map (map_prod id height) m))) 0"

lemma nodes_pos [simp]: "0 < nodes v"
  by (cases v) auto

lemma nodes_Object [simp]: "nodes (Object m) = Suc (sum_list (map nodes (map snd m)))"
  by (simp add: comp_def)

lemma height_Object [simp]: "height (Object m) = foldr max (map Suc (map height (map snd m))) 0"
  by (simp add: comp_def)

declare nodes.simps(6) [simp del] height.simps(6) [simp del]

lemma foldr_max_le: "foldr max (map Suc xs) 0 \<le> (n::nat) \<longleftrightarrow> (\<forall>x \<in> set xs. x < n)"
  by (induction xs) auto

text \<open>
  The walk \<^verbatim>\<open>visit\<close>: the counter is shared by the whole walk, and \<^verbatim>\<open>all\<close> stops at the
  first child that is refused.
\<close>

function visit :: "json \<Rightarrow> nat \<Rightarrow> nat \<Rightarrow> bool \<times> nat"
and visit_all :: "json list \<Rightarrow> nat \<Rightarrow> nat \<Rightarrow> bool \<times> nat" where
  "visit v depth count =
     (let count = count + 1 in
      if 32 < depth \<or> 4096 < count then (False, count)
      else case v of
          Array a \<Rightarrow> visit_all a (depth + 1) count
        | Object m \<Rightarrow> visit_all (map snd m) (depth + 1) count
        | _ \<Rightarrow> (True, count))"
| "visit_all [] depth count = (True, count)"
| "visit_all (v # vs) depth count =
     (case visit v depth count of
        (ok, count') \<Rightarrow> if ok then visit_all vs depth count' else (False, count'))"
  by pat_completeness auto
termination
  by (relation "measure (\<lambda>x. case x of Inl (v, _, _) \<Rightarrow> 2 * nodes v
        | Inr (vs, _, _) \<Rightarrow> Suc (2 * sum_list (map nodes vs)))") auto

declare visit.simps [simp del]

definition MAX_VALUE_BYTES :: nat where
  "MAX_VALUE_BYTES = 16 * 1024"

definition valid_value :: "encoder \<Rightarrow> json \<Rightarrow> bool" where
  "valid_value enc v \<longleftrightarrow>
     fst (visit v 0 0) \<and>
     (case enc v of Inr s \<Rightarrow> length s \<le> MAX_VALUE_BYTES | Inl e \<Rightarrow> False)"

text \<open>The walk accepts exactly the values of at most 4096 nodes and 32 levels.\<close>

lemma visit_spec:
  "fst (visit v d c) = (d + height v \<le> 32 \<and> c + nodes v \<le> 4096) \<and>
   (fst (visit v d c) \<longrightarrow> snd (visit v d c) = c + nodes v)"
  and visit_all_spec:
  "c \<le> 4096 \<Longrightarrow>
   fst (visit_all vs d c) =
     ((\<forall>v \<in> set vs. d + height v \<le> 32) \<and> c + sum_list (map nodes vs) \<le> 4096) \<and>
   (fst (visit_all vs d c) \<longrightarrow> snd (visit_all vs d c) = c + sum_list (map nodes vs))"
proof (induction v d c and vs d c rule: visit_visit_all.induct)
  case (1 v d c)
  show ?case
  proof (cases "32 < d \<or> 4096 < c + 1")
    case True
    then have "\<not> (d + height v \<le> 32 \<and> c + nodes v \<le> 4096)"
      using nodes_pos [of v] by linarith
    with True show ?thesis by (subst (1 2 3) visit.simps) (simp add: Let_def)
  next
    case False
    have bnd: "(\<forall>x \<in> set xs. d + 1 + height x \<le> 32) \<longleftrightarrow>
        d + foldr max (map Suc (map height xs)) 0 \<le> 32" for xs
      using False foldr_max_le [of "map height xs" "32 - d"] by auto
    show ?thesis
    proof (cases v)
      case (Array a)
      with "1.IH"(1) [OF refl False Array] False bnd [of a] show ?thesis
        by (subst (1 2 3) visit.simps) simp
    next
      case (Object m)
      with "1.IH"(2) [OF refl False Object] False bnd [of "map snd m"] show ?thesis
        by (subst (1 2 3) visit.simps) (simp add: comp_def)
    qed (use False in \<open>simp_all add: visit.simps\<close>)
  qed
next
  case (2 d c)
  then show ?case by (simp add: visit.simps)
next
  case (3 v vs d c)
  then show ?case
    by (cases "visit v d c") auto
qed

lemma valid_value_iff:
  "valid_value enc v \<longleftrightarrow>
     height v \<le> 32 \<and> nodes v \<le> 4096 \<and> (\<exists>s. enc v = Inr s \<and> length s \<le> MAX_VALUE_BYTES)"
  using visit_spec [of v 0 0] by (auto simp: valid_value_def split: sum.splits)

text \<open>However large the value is, the walk stops after 4097 nodes.\<close>

lemma visit_work:
  "c \<le> 4096 \<Longrightarrow> snd (visit v d c) \<le> 4097"
  and visit_all_work: "c \<le> 4096 \<Longrightarrow> snd (visit_all vs d c) \<le> 4097"
proof (induction v d c and vs d c rule: visit_visit_all.induct)
  case (1 v d c)
  then show ?case by (subst visit.simps) (auto simp: Let_def split: json.split)
next
  case (3 v vs d c)
  obtain ok n where v: "visit v d c = (ok, n)" by fastforce
  show ?case
  proof (cases ok)
    case True
    with visit_spec [of v d c] v have "n \<le> 4096" by simp
    with 3 v True show ?thesis by simp
  qed (use 3 v in simp)
qed (simp add: visit.simps)
text \<open>
  C27: the limit on JSON values is what it says. \<^verbatim>\<open>valid_value\<close>, a walk with a shared counter that
  stops at the first failure, accepts exactly the values of at most 32 levels and 4096 nodes
  whose text has at most 16 KiB; and on no value, however large, does the walk visit more
  than 4097 nodes.
\<close>

theorem valid_value_exact:
  "(valid_value enc v \<longleftrightarrow>
      height v \<le> 32 \<and> nodes v \<le> 4096 \<and> (\<exists>s. enc v = Inr s \<and> length s \<le> 16384)) \<and>
   snd (visit v 0 0) \<le> 4097"
  using visit_work [of 0 v 0] by (simp add: valid_value_iff MAX_VALUE_BYTES_def)

lemma nodes_vget: "vget v k = Some w \<Longrightarrow> nodes w < nodes v"
proof (cases v)
  case (Object m)
  moreover assume "vget v k = Some w"
  ultimately have "w \<in> set (map snd m)" by (force dest: map_of_SomeD)
  then have "nodes w \<le> sum_list (map nodes (map snd m))"
    by (metis elem_le_sum_list in_set_conv_nth length_map nth_map)
  with Object show ?thesis by simp
qed auto

lemma nodes_vat: "vat v i = Some w \<Longrightarrow> nodes w < nodes v"
proof (cases v)
  case (Array a)
  moreover assume "vat v i = Some w"
  ultimately have "w \<in> set a" by (auto split: if_splits)
  then have "nodes w \<le> sum_list (map nodes a)"
    by (metis elem_le_sum_list in_set_conv_nth length_map nth_map)
  with Array show ?thesis by simp
qed auto

section \<open>An encoder for examples\<close>

text \<open>Examples instantiate the parameter \<open>enc\<close> with this function.\<close>

definition tiny_enc :: encoder where
  "tiny_enc v = Inr ''{}''"

end
