(* ===== verification/Errors.thy ===== *)
theory Errors
  imports Json
begin

text \<open>
  The error type of the control protocol and the status codes of the guest helpers
  (\<^verbatim>\<open>src/error.rs\<close>). A message is cut to 4096 bytes at a character boundary; the
  lemmas show that the loop ends, keeps the message valid UTF-8 and loses less than one
  character beyond the limit.
\<close>

record rpc_error =
  ecode :: int
  emessage :: string
  edata :: json

text \<open>\<^verbatim>\<open>RpcResult = Result<Value, RpcError>\<close>: \<open>Inl\<close> is \<^verbatim>\<open>Err\<close>, \<open>Inr\<close> is \<^verbatim>\<open>Ok\<close>.\<close>

type_synonym rpc_result = "rpc_error + json"

text \<open>\<^verbatim>\<open>RpcError::new\<close> on a message already converted by \<^verbatim>\<open>to_string\<close>.\<close>

definition rpc_error_new :: "int \<Rightarrow> string \<Rightarrow> string \<Rightarrow> rpc_error" where
  "rpc_error_new c kind msg =
     (let msg' = (if 4096 < length msg then take (boundary_back msg 4096) msg else msg)
      in \<lparr>ecode = c, emessage = msg', edata = jobj [(''kind'', String kind)]\<rparr>)"

definition rpc_params :: "string \<Rightarrow> rpc_error" where
  "rpc_params msg = rpc_error_new (- 32602) ''INVALID_PARAMS'' msg"

definition rpc_missing :: rpc_error where
  "rpc_missing = rpc_error_new (- 32004) ''OBJECT_NOT_FOUND'' ''object does not exist''"

definition rpc_busy :: "string \<Rightarrow> rpc_error" where
  "rpc_busy msg = rpc_error_new (- 32001) ''BUSY'' msg"

text \<open>The status codes a guest sees, and \<^verbatim>\<open>status\<close>, which makes one a register value.\<close>

definition INVALID :: int where "INVALID = - 1"
definition LIMIT :: int where "LIMIT = - 2"
definition TIMEOUT :: int where "TIMEOUT = - 3"
definition DENIED :: int where "DENIED = - 4"
definition HOST_ERROR :: int where "HOST_ERROR = - 5"
definition CLOSED :: int where "CLOSED = - 6"

lemmas status_codes =
  INVALID_def LIMIT_def TIMEOUT_def DENIED_def HOST_ERROR_def CLOSED_def

definition status :: "int \<Rightarrow> u64" where
  "status v = word_of_int v"

lemma sint_status: "- (2 ^ 63) \<le> v \<Longrightarrow> v < 2 ^ 63 \<Longrightarrow> sint (status v) = v"
  by (simp add: status_def signed_of_int signed_take_bit_int_eq_self)

lemma rpc_error_new_message:
  "emessage (rpc_error_new c kind msg) = truncate_text msg 4096"
  by (simp add: rpc_error_new_def truncate_text_def min_def)

lemma edata_kind: "vget (edata (rpc_error_new c kind msg)) ''kind'' = Some (String kind)"
  by (simp add: rpc_error_new_def jobj_def Let_def)

text \<open>
  An error message is at most 4096 bytes, is a prefix of the text it was made from,
  is valid UTF-8 when the text is, and is the whole text or loses at most three bytes
  below the limit.
\<close>

lemma rpc_error_message_bounded:
  assumes "utf8 msg"
  shows "let m = emessage (rpc_error_new c kind msg) in
    length m \<le> 4096 \<and> utf8 m \<and> (\<exists>rest. msg = m @ rest) \<and>
    (if length msg \<le> 4096 then m = msg else 4093 \<le> length m)"
  using assms truncate_tight [of msg 4096]
  by (auto simp: rpc_error_new_message truncate_length truncate_utf8 truncate_prefix truncate_id)

lemma rpc_error_message_bounded_witness:
  "let m = emessage (rpc_error_new 0 ''K'' ''late'') in
    length m \<le> 4096 \<and> utf8 m \<and> (\<exists>rest. ''late'' = m @ rest) \<and>
    (if length ''late'' \<le> 4096 then m = ''late'' else 4093 \<le> length m)"
  by (rule rpc_error_message_bounded) (rule utf8_ascii, simp)

end
