(* ===== verification/Interfaces.thy ===== *)
theory Interfaces
  imports Prelude
begin

text \<open>
  The contracts components offer each other, as locales. \<open>guarded\<close> is a state with
  operations that keep an invariant as long as only allowed operations are done; \<open>machine\<close> is
  the case where all are allowed; \<open>refining\<close> is a machine whose steps are operations of another
  one; \<open>fifo\<close> is a bounded first-in first-out channel whose sender may be refused. What follows
  from a contract alone is proved here once.

  \<open>machine\<close> is interpreted by the mailbox (\<open>mbox\<close>), the outbox (\<open>obox\<close>), host calls (\<open>hw\<close>), the
  runtime (\<open>rt\<close>), the helpers of all guests (\<open>hp\<close>), the service (\<open>sv\<close>), the writer (\<open>wr\<close>), the
  session (\<open>sr\<close>), its request stages (\<open>stages\<close>, and \<open>off\<close> without builds), its log (\<open>lg\<close>), its
  writer (\<open>ow\<close>), what a request needs to go on (\<open>goes\<close>) and guests on the runtime (\<open>gr\<close>); \<open>fifo\<close> by
  the mailbox (\<open>mq\<close>), the queue of an object (\<open>oq\<close>) and the control queue (\<open>cq\<close>) of the outbox;
  \<open>guarded\<close> by the errors of a session (\<open>errors\<close>); \<open>refining\<close> by the logged session (\<open>lgr\<close>), guests
  on the runtime (\<open>grr\<close>), the program with its guests (\<open>wh\<close>), the session whose loads wait for
  threads (\<open>pd\<close>), the session on the runtime (\<open>srt\<close>) and, composed of these, the program with its
  guests on the runtime (\<open>whr\<close>).
\<close>

section \<open>Machines with an invariant\<close>

locale guarded =
  fixes start :: "'s \<Rightarrow> bool"
    and exec :: "'op \<Rightarrow> 's \<Rightarrow> 's"
    and allowed :: "'op \<Rightarrow> bool"
    and inv :: "'s \<Rightarrow> bool"
  assumes guarded_start: "start s \<Longrightarrow> inv s"
    and guarded_exec: "inv s \<Longrightarrow> allowed op \<Longrightarrow> inv (exec op s)"
begin

lemma guarded_run: "inv s \<Longrightarrow> \<forall>op \<in> set ops. allowed op \<Longrightarrow> inv (fold exec ops s)"
  by (induction ops arbitrary: s) (auto intro: guarded_exec)

lemma guarded_reach: "start s \<Longrightarrow> \<forall>op \<in> set ops. allowed op \<Longrightarrow> inv (fold exec ops s)"
  by (rule guarded_run) (rule guarded_start)

end

locale machine =
  fixes start :: "'s \<Rightarrow> bool"
    and exec :: "'op \<Rightarrow> 's \<Rightarrow> 's"
    and inv :: "'s \<Rightarrow> bool"
  assumes start_inv: "start s \<Longrightarrow> inv s"
    and exec_inv: "inv s \<Longrightarrow> inv (exec op s)"

sublocale machine \<subseteq> any: guarded start exec "\<lambda>_. True" inv
  by unfold_locales (simp_all add: start_inv exec_inv)

context machine
begin

lemma run_inv: "inv s \<Longrightarrow> inv (fold exec ops s)"
  by (rule any.guarded_run) simp_all

lemma reach_inv: "start s \<Longrightarrow> inv (fold exec ops s)"
  by (rule any.guarded_reach) simp_all

end

section \<open>Refinement\<close>

text \<open>
  A machine refines another one when each of its steps is seen, through \<open>view\<close>, as some
  operations of the other. Then so is each of its runs, and what the other keeps holds of
  the view.
\<close>

locale refining = conc: machine start exec inv + spec: machine astart aexec ainv
  for start :: "'s \<Rightarrow> bool" and exec :: "'op \<Rightarrow> 's \<Rightarrow> 's" and inv :: "'s \<Rightarrow> bool"
    and astart :: "'t \<Rightarrow> bool" and aexec :: "'aop \<Rightarrow> 't \<Rightarrow> 't" and ainv :: "'t \<Rightarrow> bool" +
  fixes view :: "'s \<Rightarrow> 't"
  assumes view_start: "start s \<Longrightarrow> astart (view s)"
    and view_exec: "inv s \<Longrightarrow> \<exists>aops. view (exec op s) = fold aexec aops (view s)"
begin

lemma view_run: "inv s \<Longrightarrow> \<exists>aops. view (fold exec ops s) = fold aexec aops (view s)"
proof (induction ops arbitrary: s)
  case Nil
  show ?case by (rule exI [of _ "[]"]) simp
next
  case (Cons op ops)
  obtain xs where xs: "view (exec op s) = fold aexec xs (view s)" using view_exec [OF Cons.prems] by blast
  obtain ys where ys: "view (fold exec ops (exec op s)) = fold aexec ys (view (exec op s))"
    using Cons.IH [OF conc.exec_inv [OF Cons.prems]] by blast
  show ?case by (rule exI [of _ "xs @ ys"]) (simp add: xs ys)
qed

lemma view_reach: "start s \<Longrightarrow> \<exists>aops. view (fold exec ops s) = fold aexec aops (view s)"
  by (rule view_run) (rule conc.start_inv)

lemma view_inv: "start s \<Longrightarrow> ainv (view (fold exec ops s))"
  using view_reach [of s ops] spec.reach_inv [OF view_start] by metis

end

text \<open>Refinements compose, where the invariant of the first gives that of what it refines.\<close>

lemma refining_comp:
  assumes A: "refining start exec keeps bstart bexec bkeeps view"
    and B: "refining bstart bexec bkeeps astart aexec akeeps bview"
    and inv: "\<And>s. keeps s \<Longrightarrow> bkeeps (view s)"
  shows "refining start exec keeps astart aexec akeeps (\<lambda>s. bview (view s))"
proof (rule refining.intro [OF refining.axioms(1) [OF A] refining.axioms(2) [OF B]], rule refining_axioms.intro)
  show "astart (bview (view s))" if "start s" for s
    using refining.view_start [OF B] refining.view_start [OF A that] by blast
  show "\<exists>aops. bview (view (exec op s)) = fold aexec aops (bview (view s))" if "keeps s" for s op
    using refining.view_exec [OF A that, of op] refining.view_run [OF B inv [OF that]] by metis
qed

section \<open>First-in first-out channels\<close>

text \<open>
  \<open>put e s\<close> tells whether the channel took the element, \<open>get s\<close> gives the oldest element
  or nothing. Everything else that happens around the channel is \<open>other\<close> and leaves its
  contents alone.
\<close>

datatype ('e, 'o) fifo_step = Put 'e | Get | Other 'o

locale fifo =
  fixes put :: "'e \<Rightarrow> 's \<Rightarrow> bool \<times> 's"
    and get :: "'s \<Rightarrow> 'e option \<times> 's"
    and other :: "'o \<Rightarrow> 's \<Rightarrow> 's"
    and contents :: "'s \<Rightarrow> 'e list"
    and inv :: "'s \<Rightarrow> bool"
  assumes put_inv: "inv s \<Longrightarrow> inv (snd (put e s))"
    and get_inv: "inv s \<Longrightarrow> inv (snd (get s))"
    and other_inv: "inv s \<Longrightarrow> inv (other x s)"
    and put_contents: "inv s \<Longrightarrow>
      contents (snd (put e s)) = (if fst (put e s) then contents s @ [e] else contents s)"
    and get_contents: "inv s \<Longrightarrow>
      contents s = (case fst (get s) of None \<Rightarrow> [] | Some e \<Rightarrow> [e]) @ contents (snd (get s))"
    and other_contents: "inv s \<Longrightarrow> contents (other x s) = contents s"
begin

text \<open>A run: the elements taken in and the elements given out, each in order.\<close>

fun run :: "('e, 'o) fifo_step list \<Rightarrow> 's \<Rightarrow> 'e list \<times> 'e list \<times> 's" where
  "run [] s = ([], [], s)"
| "run (Put e # xs) s =
     (case put e s of (ok, s') \<Rightarrow>
      case run xs s' of (ins, outs, t) \<Rightarrow> (if ok then e # ins else ins, outs, t))"
| "run (Get # xs) s =
     (case get s of (r, s') \<Rightarrow>
      case run xs s' of (ins, outs, t) \<Rightarrow>
        (ins, (case r of None \<Rightarrow> [] | Some e \<Rightarrow> [e]) @ outs, t))"
| "run (Other x # xs) s = run xs (other x s)"

text \<open>Nothing is lost, invented or reordered.\<close>

lemma run_order:
  "inv s \<Longrightarrow> run xs s = (ins, outs, t) \<Longrightarrow> inv t \<and> contents s @ ins = outs @ contents t"
proof (induction xs s arbitrary: ins outs t rule: run.induct)
  case (2 e xs s)
  obtain ok s' where put: "put e s = (ok, s')" by fastforce
  obtain ins' outs' t' where run: "run xs s' = (ins', outs', t')" by (cases "run xs s'")
  from put run "2.prems"
  have eqs: "ins = (if ok then e # ins' else ins')" "outs = outs'" "t = t'" by auto
  have "inv s'" using put_inv [OF "2.prems"(1), of e] put by simp
  with "2.IH" [OF put [symmetric]] run have "inv t' \<and> contents s' @ ins' = outs' @ contents t'"
    by auto
  moreover have "contents s' = (if ok then contents s @ [e] else contents s)"
    using put_contents [OF "2.prems"(1), of e] put by simp
  ultimately show ?case using eqs by (auto split: if_splits)
next
  case (3 xs s)
  obtain r s' where get: "get s = (r, s')" by fastforce
  obtain ins' outs' t' where run: "run xs s' = (ins', outs', t')" by (cases "run xs s'")
  from get run "3.prems" have eqs: "ins = ins'" "t = t'"
    "outs = (case r of None \<Rightarrow> [] | Some e \<Rightarrow> [e]) @ outs'" by auto
  have "inv s'" using get_inv [OF "3.prems"(1)] get by simp
  with "3.IH" [OF get [symmetric]] run have "inv t' \<and> contents s' @ ins' = outs' @ contents t'"
    by auto
  moreover have "contents s = (case r of None \<Rightarrow> [] | Some e \<Rightarrow> [e]) @ contents s'"
    using get_contents [OF "3.prems"(1)] get by simp
  ultimately show ?case using eqs by simp
next
  case (4 x xs s)
  then show ?case using other_inv other_contents by simp
qed simp

end

end
