(* ===== verification/Outbox.thy ===== *)
theory Outbox
  imports Errors Interfaces
begin

text \<open>
  The output queues (\<^verbatim>\<open>src/outbox.rs\<close>): a control queue of at most 64 frames, a queue of
  data frames per object with byte bounds per object and in total, and the writer's
  \<^verbatim>\<open>next\<close>, which prefers control frames for at most eight frames in a row and serves the
  objects round-robin.

  The state is the record \<open>outbox\<close>: the fields of \<^verbatim>\<open>Queues\<close>, the \<^verbatim>\<open>closed\<close> token, the
  counter \<^verbatim>\<open>dropped\<close>, and how often \<^verbatim>\<open>changed.notify_one\<close> and \<^verbatim>\<open>space.notify_waiters\<close>
  were called. The asynchronous operations \<^verbatim>\<open>control\<close>, \<^verbatim>\<open>data\<close> and \<^verbatim>\<open>next\<close> are loops that
  try, wait for a notification and try again; the model has one pass of each loop, with
  \<open>Pending\<close> for the pass that ends in the wait. The two \<^verbatim>\<open>expect\<close> calls of \<^verbatim>\<open>next\<close> are the
  outcome \<open>Panic\<close>, which the invariant excludes.
\<close>

section \<open>State\<close>

record data_frame =
  fbytes :: bytes
  request_id :: "string option"

record outbox =
  control :: "bytes list"
  odata :: "string \<Rightarrow> data_frame list option"
  ready :: "string list"
  obytes :: nat
  control_burst :: nat
  oclosed :: bool
  dropped :: u64
  ochanged :: nat
  ospace :: nat

datatype send_error = SendClosed | FrameTooLarge

datatype 'a poll = Pending | Done 'a

definition MAX_FRAME :: nat where "MAX_FRAME = 256 * 1024"
definition CONTROL_SLOTS :: nat where "CONTROL_SLOTS = 64"
definition DATA_BYTES :: nat where "DATA_BYTES = 4 * 1024 * 1024"
definition OBJECT_BYTES :: nat where "OBJECT_BYTES = 64 * 1024"

lemmas outbox_limits = MAX_FRAME_def CONTROL_SLOTS_def DATA_BYTES_def OBJECT_BYTES_def

definition outbox_new :: outbox where
  "outbox_new = \<lparr>control = [], odata = (\<lambda>_. None), ready = [], obytes = 0, control_burst = 0,
     oclosed = False, dropped = 0, ochanged = 0, ospace = 0\<rparr>"

definition newline :: char where
  "newline = CHR 0x0A"

section \<open>Operations\<close>

definition encode :: "encoder \<Rightarrow> json \<Rightarrow> bytes option" where
  "encode enc v =
     (case enc v of
        Inl _ \<Rightarrow> None
      | Inr s \<Rightarrow> if MAX_FRAME \<le> length s then None else Some (s @ [newline]))"

definition too_large_reply :: "json \<Rightarrow> json" where
  "too_large_reply i =
     jobj [(''jsonrpc'', String ''2.0''), (''id'', i),
       (''error'', jobj [(''code'', jint (- 32003)),
          (''message'', String ''response exceeds frame limit''),
          (''data'', jobj [(''kind'', String ''RESPONSE_TOO_LARGE'')])])]"

definition control_bytes :: "encoder \<Rightarrow> json \<Rightarrow> send_error + bytes" where
  "control_bytes enc v =
     (case encode enc v of
        Some b \<Rightarrow> Inr b
      | None \<Rightarrow>
          (case vget v ''id'' of
             None \<Rightarrow> Inl FrameTooLarge
           | Some i \<Rightarrow>
               (case encode enc (too_large_reply i) of
                  Some b \<Rightarrow> Inr b
                | None \<Rightarrow> Inl FrameTooLarge)))"

definition push_control :: "bytes \<Rightarrow> outbox \<Rightarrow> outbox" where
  "push_control b q = q\<lparr>control := control q @ [b], ochanged := ochanged q + 1\<rparr>"

definition outbox_control :: "encoder \<Rightarrow> json \<Rightarrow> outbox \<Rightarrow> (send_error + unit) poll \<times> outbox" where
  "outbox_control enc v q =
     (case control_bytes enc v of
        Inl e \<Rightarrow> (Done (Inl e), q)
      | Inr b \<Rightarrow>
          if oclosed q then (Done (Inl SendClosed), q)
          else if length (control q) < CONTROL_SLOTS then (Done (Inr ()), push_control b q)
          else (Pending, q))"

definition try_push_control :: "bytes \<Rightarrow> outbox \<Rightarrow> bool \<times> outbox" where
  "try_push_control b q =
     (if oclosed q \<or> CONTROL_SLOTS \<le> length (control q) then (False, q)
      else (True, push_control b q))"

definition try_control :: "encoder \<Rightarrow> json \<Rightarrow> outbox \<Rightarrow> bool \<times> outbox" where
  "try_control enc v q =
     (case encode enc v of
        None \<Rightarrow> (False, q)
      | Some b \<Rightarrow> try_push_control b q)"

definition frames_size :: "data_frame list \<Rightarrow> nat" where
  "frames_size fs = sum_list (map (length \<circ> fbytes) fs)"

definition qsize :: "(string \<Rightarrow> data_frame list option) \<Rightarrow> string \<Rightarrow> nat" where
  "qsize d k = (case d k of None \<Rightarrow> 0 | Some fs \<Rightarrow> frames_size fs)"

definition queued :: "outbox \<Rightarrow> string \<Rightarrow> data_frame list" where
  "queued q k = (case odata q k of None \<Rightarrow> [] | Some fs \<Rightarrow> fs)"

definition push_data :: "string \<Rightarrow> data_frame \<Rightarrow> outbox \<Rightarrow> bool \<times> outbox" where
  "push_data k f q =
     (let used = qsize (odata q) k; n = length (fbytes f) in
      if oclosed q \<or> OBJECT_BYTES < used + n \<or> DATA_BYTES < obytes q + n then (False, q)
      else
        (True,
         q\<lparr>ready := (if odata q k = None then ready q @ [k] else ready q),
           obytes := obytes q + n,
           odata := (odata q)(k \<mapsto> queued q k @ [f]),
           ochanged := ochanged q + 1\<rparr>))"

definition request_id_of :: "json \<Rightarrow> string option" where
  "request_id_of v = (case vget v ''id'' of None \<Rightarrow> None | Some i \<Rightarrow> as_str i)"

definition try_data :: "encoder \<Rightarrow> string \<Rightarrow> json \<Rightarrow> outbox \<Rightarrow> bool \<times> outbox" where
  "try_data enc k v q =
     (case encode enc v of
        None \<Rightarrow> (False, q)
      | Some b \<Rightarrow>
          (case push_data k \<lparr>fbytes = b, request_id = request_id_of v\<rparr> q of
             (accepted, q') \<Rightarrow>
               (accepted, if accepted then q' else q'\<lparr>dropped := saturating_inc (dropped q')\<rparr>)))"

definition outbox_data ::
    "encoder \<Rightarrow> string \<Rightarrow> json \<Rightarrow> outbox \<Rightarrow> (send_error + unit) poll \<times> outbox" where
  "outbox_data enc k v q =
     (case encode enc v of
        None \<Rightarrow> (Done (Inl FrameTooLarge), q)
      | Some b \<Rightarrow>
          if OBJECT_BYTES < length b then (Done (Inl FrameTooLarge), q)
          else if oclosed q then (Done (Inl SendClosed), q)
          else
            (case push_data k \<lparr>fbytes = b, request_id = request_id_of v\<rparr> q of
               (accepted, q') \<Rightarrow> (if accepted then Done (Inr ()) else Pending, q')))"

definition outbox_stats :: "outbox \<Rightarrow> json" where
  "outbox_stats q =
     jobj [(''queued_control_frames'', jnat (length (control q))),
           (''queued_object_bytes'', jnat (obytes q)),
           (''dropped_data_notifications'', jnat (unat (dropped q)))]"

definition remove_request :: "string \<Rightarrow> string \<Rightarrow> outbox \<Rightarrow> outbox" where
  "remove_request k i q =
     (case odata q k of
        None \<Rightarrow> q
      | Some fs \<Rightarrow>
          let removed = frames_size (filter (\<lambda>f. request_id f = Some i) fs);
              kept = filter (\<lambda>f. request_id f \<noteq> Some i) fs
          in q\<lparr>obytes := obytes q - removed,
               odata := (odata q)(k := (if kept = [] then None else Some kept)),
               ready := (if kept = [] then filter (\<lambda>x. x \<noteq> k) (ready q) else ready q),
               ospace := ospace q + 1\<rparr>)"

definition remove_object :: "string \<Rightarrow> outbox \<Rightarrow> outbox" where
  "remove_object k q =
     q\<lparr>obytes := obytes q - qsize (odata q) k,
       odata := (odata q)(k := None),
       ready := filter (\<lambda>x. x \<noteq> k) (ready q),
       ospace := ospace q + 1\<rparr>"

datatype next_result = Frame bytes | Await | Finished | Panic

definition outbox_next :: "outbox \<Rightarrow> next_result \<times> outbox" where
  "outbox_next q =
     (if control q \<noteq> [] \<and> (control_burst q < 8 \<or> ready q = []) then
        (Frame (hd (control q)),
         q\<lparr>control_burst := control_burst q + 1, control := tl (control q),
           ospace := ospace q + 1\<rparr>)
      else
        case ready q of
          k # ks \<Rightarrow>
            (case odata q k of
               None \<Rightarrow> (Panic, q)
             | Some [] \<Rightarrow> (Panic, q)
             | Some (f # fs) \<Rightarrow>
                 (Frame (fbytes f),
                  q\<lparr>odata := (odata q)(k := (if fs = [] then None else Some fs)),
                    ready := (if fs = [] then ks else ks @ [k]),
                    obytes := obytes q - length (fbytes f),
                    control_burst := 0,
                    ospace := ospace q + 1\<rparr>))
        | [] \<Rightarrow> (if oclosed q then Finished else Await, q))"

definition outbox_close :: "outbox \<Rightarrow> outbox" where
  "outbox_close q = q\<lparr>oclosed := True\<rparr>"

section \<open>The invariant\<close>

text \<open>
  The ready queue lists exactly the objects with a non-empty queue, each once; the byte
  counter is the exact total; all bounds hold; every queued frame fits its bound.
\<close>

definition outbox_inv :: "outbox \<Rightarrow> bool" where
  "outbox_inv q \<longleftrightarrow>
     length (control q) \<le> CONTROL_SLOTS \<and>
     (\<forall>b \<in> set (control q). length b \<le> MAX_FRAME) \<and>
     distinct (ready q) \<and>
     (\<forall>k. k \<in> set (ready q) \<longleftrightarrow> odata q k \<noteq> None) \<and>
     (\<forall>k. odata q k \<noteq> Some []) \<and>
     (\<forall>k. qsize (odata q) k \<le> OBJECT_BYTES) \<and>
     obytes q = sum_list (map (qsize (odata q)) (ready q)) \<and>
     obytes q \<le> DATA_BYTES"

lemma outbox_invD:
  assumes "outbox_inv q"
  shows "length (control q) \<le> CONTROL_SLOTS" and "b \<in> set (control q) \<Longrightarrow> length b \<le> MAX_FRAME"
    and "distinct (ready q)" and "k \<in> set (ready q) \<longleftrightarrow> odata q k \<noteq> None"
    and "odata q k \<noteq> Some []" and "qsize (odata q) k \<le> OBJECT_BYTES"
    and "obytes q = sum_list (map (qsize (odata q)) (ready q))" and "obytes q \<le> DATA_BYTES"
  using assms by (auto simp: outbox_inv_def)

lemma frames_size_simps [simp]:
  "frames_size [] = 0"
  "frames_size (f # fs) = length (fbytes f) + frames_size fs"
  "frames_size (fs @ gs) = frames_size fs + frames_size gs"
  by (simp_all add: frames_size_def)

lemma frames_size_filter:
  "frames_size (filter P fs) + frames_size (filter (\<lambda>f. \<not> P f) fs) = frames_size fs"
  by (induction fs) auto

lemma qsize_upd:
  "qsize (d(k := x)) = (qsize d)(k := (case x of None \<Rightarrow> 0 | Some fs \<Rightarrow> frames_size fs))"
  by (auto simp: qsize_def fun_eq_iff)

lemma qsize_queued: "qsize (odata q) k = frames_size (queued q k)"
  by (simp add: qsize_def queued_def split: option.splits)

lemma outbox_inv_new [simp]: "outbox_inv outbox_new"
  by (simp add: outbox_inv_def outbox_new_def qsize_def)

lemma encode_length: "encode enc v = Some b \<Longrightarrow> length b \<le> MAX_FRAME"
  by (auto simp: encode_def split: sum.splits if_splits)

lemma control_bytes_length: "control_bytes enc v = Inr b \<Longrightarrow> length b \<le> MAX_FRAME"
  by (auto simp: control_bytes_def encode_length split: option.splits)

lemma outbox_inv_push_control:
  assumes "outbox_inv q" "length b \<le> MAX_FRAME" "length (control q) < CONTROL_SLOTS"
  shows "outbox_inv (push_control b q)"
  using assms by (simp add: outbox_inv_def push_control_def)

lemma outbox_inv_try_push:
  "outbox_inv q \<Longrightarrow> length b \<le> MAX_FRAME \<Longrightarrow> outbox_inv (snd (try_push_control b q))"
  by (simp add: try_push_control_def outbox_inv_push_control)

lemma outbox_inv_control: "outbox_inv q \<Longrightarrow> outbox_inv (snd (outbox_control enc v q))"
  by (auto simp: outbox_control_def outbox_inv_push_control control_bytes_length
      split: sum.splits)

lemma outbox_inv_try_control: "outbox_inv q \<Longrightarrow> outbox_inv (snd (try_control enc v q))"
  by (auto simp: try_control_def outbox_inv_try_push encode_length split: option.splits)

lemma outbox_inv_push_data:
  assumes inv: "outbox_inv q"
  shows "outbox_inv (snd (push_data k f q))"
proof (cases "fst (push_data k f q)")
  case False
  with inv show ?thesis by (auto simp: push_data_def Let_def split: if_splits)
next
  case True
  let ?n = "length (fbytes f)" and ?d = "(odata q)(k \<mapsto> queued q k @ [f])"
  let ?r = "if odata q k = None then ready q @ [k] else ready q"
  from True have bounds: "qsize (odata q) k + ?n \<le> OBJECT_BYTES" "obytes q + ?n \<le> DATA_BYTES"
    by (auto simp: push_data_def Let_def split: if_splits)
  have qs: "qsize ?d = (qsize (odata q))(k := qsize (odata q) k + ?n)"
    by (simp add: qsize_upd qsize_queued)
  have sum: "sum_list (map (qsize ?d) ?r) = obytes q + ?n"
  proof (cases "odata q k = None")
    case True
    with inv have "k \<notin> set (ready q)" and "qsize (odata q) k = 0"
      by (auto simp: outbox_inv_def qsize_def)
    with inv True show ?thesis by (simp add: qs sum_list_map_upd_notin outbox_inv_def)
  next
    case False
    with inv have "distinct (ready q)" "k \<in> set (ready q)" by (auto simp: outbox_inv_def)
    from sum_list_map_upd [OF this, of "qsize (odata q)" "qsize (odata q) k + ?n"]
    have "sum_list (map (qsize ?d) (ready q)) = sum_list (map (qsize (odata q)) (ready q)) + ?n"
      by (simp add: qs)
    with False inv show ?thesis by (simp only: outbox_inv_def if_False)
  qed
  from inv have "distinct ?r" "\<forall>j. j \<in> set ?r \<longleftrightarrow> ?d j \<noteq> None"
    by (auto simp: outbox_inv_def)
  moreover have "\<forall>j. ?d j \<noteq> Some []" "\<forall>j. qsize ?d j \<le> OBJECT_BYTES"
    using inv bounds by (auto simp: outbox_inv_def qs)
  ultimately show ?thesis
    using inv True bounds sum
    unfolding outbox_inv_def push_data_def Let_def by (simp split: if_split_asm)
qed

lemma outbox_inv_dropped [simp]: "outbox_inv (q\<lparr>dropped := n\<rparr>) = outbox_inv q"
  by (simp add: outbox_inv_def)

lemma outbox_inv_try_data: "outbox_inv q \<Longrightarrow> outbox_inv (snd (try_data enc k v q))"
  using outbox_inv_push_data [of q k]
  by (auto simp: try_data_def split: option.splits prod.splits)
    (metis snd_conv)+

lemma outbox_inv_data: "outbox_inv q \<Longrightarrow> outbox_inv (snd (outbox_data enc k v q))"
  using outbox_inv_push_data [of q k]
  by (auto simp: outbox_data_def split: option.splits prod.splits) (metis snd_conv)+

text \<open>Replacing or dropping the queue of one object.\<close>

lemma outbox_inv_replace:
  assumes inv: "outbox_inv q" and k: "odata q k = Some fs"
    and gs: "gs \<noteq> []" "frames_size gs + n = frames_size fs"
    and upd: "odata q' = (odata q)(k \<mapsto> gs)" "set (ready q') = set (ready q)" "distinct (ready q')"
      "obytes q' = obytes q - n" "control q' = control q \<or> control q' = tl (control q)"
  shows "outbox_inv q'"
proof -
  have rk: "k \<in> set (ready q)" "distinct (ready q)" using inv k by (auto simp: outbox_inv_def)
  have "sum_list (map (qsize (odata q')) (ready q')) + frames_size fs
      = sum_list (map (qsize (odata q)) (ready q')) + frames_size gs"
    using sum_list_map_upd [of "ready q'" k "qsize (odata q)" "frames_size gs"] rk upd k
    by (simp add: qsize_upd) (simp add: qsize_def)
  moreover have "sum_list (map (qsize (odata q)) (ready q')) = obytes q"
    using inv upd(2,3) rk(2)
    by (metis outbox_inv_def distinct_sum_list_conv_Sum sum.set_conv_list
        sum_list_distinct_conv_sum_set)
  ultimately have "obytes q' = sum_list (map (qsize (odata q')) (ready q'))"
    using upd(4) gs(2) by linarith
  moreover have "qsize (odata q') j \<le> OBJECT_BYTES" for j
  proof (cases "j = k")
    case True
    have "qsize (odata q) k \<le> OBJECT_BYTES" using inv by (simp add: outbox_inv_def)
    with True k gs(2) upd(1) show ?thesis by (simp add: qsize_def)
  next
    case False
    with inv upd(1) show ?thesis by (simp add: outbox_inv_def qsize_def)
  qed
  moreover have "length (control q') \<le> CONTROL_SLOTS" "\<forall>b \<in> set (control q'). length b \<le> MAX_FRAME"
    using inv upd(5) by (auto simp: outbox_inv_def dest: list.set_sel(2) [rotated])
      (metis list.sel(2) list.set_sel(2))
  moreover have "obytes q' \<le> DATA_BYTES" using outbox_invD(8) [OF inv] upd(4) by linarith
  ultimately show ?thesis using inv upd rk k gs(1) by (simp add: outbox_inv_def)
qed

lemma outbox_inv_drop:
  assumes inv: "outbox_inv q"
    and upd: "odata q' = (odata q)(k := None)" "ready q' = filter (\<lambda>x. x \<noteq> k) (ready q)"
      "obytes q' = obytes q - qsize (odata q) k" "control q' = control q"
  shows "outbox_inv q'"
proof -
  have "map (qsize (odata q')) (ready q') = map (qsize (odata q)) (ready q')"
    using upd(1,2) by (simp add: qsize_upd)
  moreover have "sum_list (map (qsize (odata q)) (ready q')) = obytes q - qsize (odata q) k"
  proof (cases "k \<in> set (ready q)")
    case True
    then show ?thesis
      using sum_list_map_remove [of "ready q" k "qsize (odata q)"] inv upd(2)
      by (simp add: outbox_inv_def)
  next
    case False
    then have "ready q' = ready q" "qsize (odata q) k = 0"
      using inv upd(2) by (auto simp: outbox_inv_def qsize_def filter_id_conv)
    with inv show ?thesis by (simp add: outbox_inv_def)
  qed
  ultimately have "obytes q' = sum_list (map (qsize (odata q')) (ready q'))"
    using upd(3) by presburger
  moreover have "qsize (odata q') j \<le> OBJECT_BYTES" for j
    using inv upd(1) by (simp add: outbox_inv_def qsize_def)
  moreover have "obytes q' \<le> DATA_BYTES" using outbox_invD(8) [OF inv] upd(3) by linarith
  moreover have "\<forall>j. j \<in> set (ready q') \<longleftrightarrow> odata q' j \<noteq> None" "distinct (ready q')"
    using outbox_invD(3,4) [OF inv] upd(1,2) by auto
  ultimately show ?thesis using inv upd(1,4) unfolding outbox_inv_def by simp
qed

lemma outbox_inv_remove_object: "outbox_inv q \<Longrightarrow> outbox_inv (remove_object k q)"
  by (rule outbox_inv_drop [of q _ k]) (simp_all add: remove_object_def)

lemma outbox_inv_remove_request:
  assumes inv: "outbox_inv q"
  shows "outbox_inv (remove_request k i q)"
proof (cases "odata q k")
  case None
  with inv show ?thesis by (simp add: remove_request_def)
next
  case (Some fs)
  let ?rem = "filter (\<lambda>f. request_id f = Some i) fs"
    and ?kept = "filter (\<lambda>f. request_id f \<noteq> Some i) fs"
  have sizes: "frames_size ?kept + frames_size ?rem = frames_size fs"
    using frames_size_filter [of "\<lambda>f. request_id f = Some i" fs] by simp
  show ?thesis
  proof (cases "?kept = []")
    case True
    with sizes Some have "frames_size ?rem = qsize (odata q) k" by (simp add: qsize_def)
    moreover have "remove_request k i q = q\<lparr>obytes := obytes q - frames_size ?rem,
        odata := (odata q)(k := None), ready := filter (\<lambda>x. x \<noteq> k) (ready q),
        ospace := ospace q + 1\<rparr>"
      unfolding remove_request_def Some option.case Let_def True by simp
    ultimately show ?thesis by (intro outbox_inv_drop [OF inv, of _ k]) simp_all
  next
    case False
    have "distinct (ready q)" using inv by (simp add: outbox_inv_def)
    moreover have "remove_request k i q = q\<lparr>obytes := obytes q - frames_size ?rem,
        odata := (odata q)(k \<mapsto> ?kept), ospace := ospace q + 1\<rparr>"
      unfolding remove_request_def Some option.case Let_def using False by simp
    ultimately show ?thesis
      by (intro outbox_inv_replace [OF inv Some False sizes]) simp_all
  qed
qed

text \<open>The two ways \<^verbatim>\<open>next\<close> yields a frame.\<close>

definition serves_control :: "outbox \<Rightarrow> bool" where
  "serves_control q \<longleftrightarrow> control q \<noteq> [] \<and> (control_burst q < 8 \<or> ready q = [])"

definition serves :: "string \<Rightarrow> outbox \<Rightarrow> bool" where
  "serves k q \<longleftrightarrow> \<not> serves_control q \<and> ready q \<noteq> [] \<and> hd (ready q) = k"

lemma next_control:
  "serves_control q \<Longrightarrow> outbox_next q =
     (Frame (hd (control q)),
      q\<lparr>control_burst := control_burst q + 1, control := tl (control q), ospace := ospace q + 1\<rparr>)"
  by (simp add: outbox_next_def serves_control_def)

lemma next_idle:
  "\<not> serves_control q \<Longrightarrow> ready q = [] \<Longrightarrow>
     outbox_next q = (if oclosed q then Finished else Await, q)"
  by (simp add: outbox_next_def serves_control_def)

lemma next_data:
  assumes "\<not> serves_control q" "ready q = k # ks" "odata q k = Some (f # fs)"
  shows "outbox_next q = (Frame (fbytes f),
      q\<lparr>odata := (odata q)(k := (if fs = [] then None else Some fs)),
        ready := (if fs = [] then ks else ks @ [k]),
        obytes := obytes q - length (fbytes f), control_burst := 0, ospace := ospace q + 1\<rparr>)"
  using assms unfolding outbox_next_def serves_control_def by (simp only: if_False list.case option.case)

lemma ready_head:
  assumes "outbox_inv q" "ready q = k # ks"
  obtains f fs where "odata q k = Some (f # fs)" "k \<notin> set ks" "distinct ks"
proof -
  have "odata q k \<noteq> None" using outbox_invD(4) [OF assms(1), of k] assms(2) by simp
  then obtain f fs where "odata q k = Some (f # fs)"
    using outbox_invD(5) [OF assms(1), of k] by (metis neq_Nil_conv not_None_eq)
  with outbox_invD(3) [OF assms(1)] assms(2) show thesis using that by simp
qed

lemma outbox_inv_next:
  assumes inv: "outbox_inv q"
  shows "outbox_inv (snd (outbox_next q)) \<and> fst (outbox_next q) \<noteq> Panic"
proof (cases "serves_control q")
  case True
  then have "control q \<noteq> []" by (simp add: serves_control_def)
  with inv show ?thesis unfolding next_control [OF True]
    by (auto simp: outbox_inv_def dest: list.set_sel(2))
next
  case ctl: False
  show ?thesis
  proof (cases "ready q")
    case Nil
    with inv ctl show ?thesis by (simp add: next_idle)
  next
    case (Cons k ks)
    from inv this obtain f fs where k: "odata q k = Some (f # fs)" and ks: "k \<notin> set ks" "distinct ks"
      by (rule ready_head)
    note eq = next_data [OF ctl Cons k]
    have "outbox_inv (snd (outbox_next q))"
    proof (cases "fs = []")
      case True
      with ks Cons k show ?thesis unfolding eq
        by (intro outbox_inv_drop [OF inv, of _ k]) (simp_all add: qsize_def filter_neq_id)
    next
      case False
      with ks Cons show ?thesis unfolding eq
        by (intro outbox_inv_replace [OF inv k False]) auto
    qed
    with eq show ?thesis by simp
  qed
qed

lemma outbox_inv_close: "outbox_inv q \<Longrightarrow> outbox_inv (outbox_close q)"
  by (simp add: outbox_close_def outbox_inv_def)

section \<open>The outbox as a machine\<close>

datatype outbox_op =
    OpControl json
  | OpTryControl json
  | OpTryData string json
  | OpData string json
  | OpRemoveRequest string string
  | OpRemoveObject string
  | OpNext
  | OpClose

fun outbox_exec :: "encoder \<Rightarrow> outbox_op \<Rightarrow> outbox \<Rightarrow> outbox" where
  "outbox_exec enc (OpControl v) q = snd (outbox_control enc v q)"
| "outbox_exec enc (OpTryControl v) q = snd (try_control enc v q)"
| "outbox_exec enc (OpTryData k v) q = snd (try_data enc k v q)"
| "outbox_exec enc (OpData k v) q = snd (outbox_data enc k v q)"
| "outbox_exec enc (OpRemoveRequest k i) q = remove_request k i q"
| "outbox_exec enc (OpRemoveObject k) q = remove_object k q"
| "outbox_exec enc OpNext q = snd (outbox_next q)"
| "outbox_exec enc OpClose q = outbox_close q"

lemma outbox_inv_exec: "outbox_inv q \<Longrightarrow> outbox_inv (outbox_exec enc op q)"
  by (cases op)
    (simp_all add: outbox_inv_control outbox_inv_try_control outbox_inv_try_data outbox_inv_data
      outbox_inv_remove_request outbox_inv_remove_object outbox_inv_next outbox_inv_close)

interpretation obox: machine "\<lambda>q. q = outbox_new" "outbox_exec enc" outbox_inv for enc
  by unfold_locales (auto simp: outbox_inv_exec)

end
