(* ===== verification/OutboxOrder.thy ===== *)
theory OutboxOrder
  imports Outbox
begin

text \<open>
  Order and fairness of the output: the control queue and every object's queue are
  first-in first-out channels whatever else happens around them, and an object with
  queued data is served within a bounded number of calls of \<^verbatim>\<open>next\<close>. The last section
  holds the properties of the outbox.
\<close>

section \<open>Effects on one object's queue\<close>

text \<open>An operation may touch the queue of an object by name; \<^verbatim>\<open>next\<close> is apart.\<close>

fun pushes :: "string \<Rightarrow> outbox_op \<Rightarrow> bool" where
  "pushes k (OpTryData j v) = (j = k)"
| "pushes k (OpData j v) = (j = k)"
| "pushes k _ = False"

fun removes :: "string \<Rightarrow> outbox_op \<Rightarrow> bool" where
  "removes k (OpRemoveRequest j i) = (j = k)"
| "removes k (OpRemoveObject j) = (j = k)"
| "removes k _ = False"

lemma queued_control [simp]:
  "queued (snd (outbox_control enc v q)) k = queued q k"
  "queued (snd (try_control enc v q)) k = queued q k"
  "ready (snd (outbox_control enc v q)) = ready q"
  "ready (snd (try_control enc v q)) = ready q"
  "control_burst (snd (outbox_control enc v q)) = control_burst q"
  "control_burst (snd (try_control enc v q)) = control_burst q"
  by (simp_all add: outbox_control_def try_control_def try_push_control_def push_control_def
      queued_def split: sum.splits option.splits)

lemma push_data_effects:
  "queued (snd (push_data j f q)) k =
     (if fst (push_data j f q) \<and> k = j then queued q k @ [f] else queued q k)"
  "\<exists>r. ready (snd (push_data j f q)) = ready q @ r"
  "control_burst (snd (push_data j f q)) = control_burst q"
  "control (snd (push_data j f q)) = control q"
  by (auto simp: push_data_def queued_def Let_def)

lemma try_data_effects:
  "k \<noteq> j \<Longrightarrow> queued (snd (try_data enc j v q)) k = queued q k"
  "\<exists>r. ready (snd (try_data enc j v q)) = ready q @ r"
  "control_burst (snd (try_data enc j v q)) = control_burst q"
  "control (snd (try_data enc j v q)) = control q"
  by (auto simp: try_data_def push_data_def queued_def Let_def split: option.splits)

lemma data_effects:
  "k \<noteq> j \<Longrightarrow> queued (snd (outbox_data enc j v q)) k = queued q k"
  "\<exists>r. ready (snd (outbox_data enc j v q)) = ready q @ r"
  "control_burst (snd (outbox_data enc j v q)) = control_burst q"
  "control (snd (outbox_data enc j v q)) = control q"
  by (auto simp: outbox_data_def push_data_def queued_def Let_def split: option.splits)

lemma queued_remove_request:
  "queued (remove_request j i q) k =
     (if k = j then filter (\<lambda>f. request_id f \<noteq> Some i) (queued q k) else queued q k)"
  by (auto simp: remove_request_def queued_def Let_def split: option.splits)

lemma queued_remove_object: "queued (remove_object j q) k = (if k = j then [] else queued q k)"
  by (simp add: remove_object_def queued_def)

lemma queued_close [simp]: "queued (outbox_close q) k = queued q k"
  by (simp add: outbox_close_def queued_def)

lemma queued_next:
  assumes "outbox_inv q"
  shows "queued q k = (if serves k q then [hd (queued q k)] else []) @ queued (snd (outbox_next q)) k"
proof (cases "serves_control q \<or> ready q = []")
  case True
  then show ?thesis
    by (cases "serves_control q") (simp_all add: next_control next_idle serves_def queued_def)
next
  case False
  then obtain j ks where r: "ready q = j # ks" by (cases "ready q") auto
  with assms obtain f fs where j: "odata q j = Some (f # fs)" by (rule ready_head)
  from False r j show ?thesis by (auto simp: next_data serves_def queued_def)
qed

text \<open>Steps that neither push to an object, nor remove its frames, nor serve it.\<close>

lemma queued_other:
  assumes "\<not> pushes k op" "\<not> removes k op" "op \<noteq> OpNext"
  shows "queued (outbox_exec enc op q) k = queued q k"
  using assms
  by (cases op)
    (simp_all add: queued_remove_request queued_remove_object try_data_effects data_effects)

section \<open>The queues as channels\<close>

definition object_get :: "string \<Rightarrow> outbox \<Rightarrow> data_frame option \<times> outbox" where
  "object_get k q = (if serves k q then Some (hd (queued q k)) else None, snd (outbox_next q))"

definition object_other :: "encoder \<Rightarrow> string \<Rightarrow> outbox_op \<Rightarrow> outbox \<Rightarrow> outbox" where
  "object_other enc k op q =
     (if pushes k op \<or> removes k op \<or> op = OpNext then q else outbox_exec enc op q)"

interpretation oq: fifo "push_data k" "object_get k" "object_other enc k" "\<lambda>q. queued q k"
  outbox_inv for enc k
proof unfold_locales
  fix s f op
  assume inv: "outbox_inv s"
  show "outbox_inv (snd (push_data k f s))" by (rule outbox_inv_push_data [OF inv])
  show "outbox_inv (snd (object_get k s))" by (simp add: object_get_def outbox_inv_next inv)
  show "outbox_inv (object_other enc k op s)" by (simp add: object_other_def outbox_inv_exec inv)
  show "queued (snd (push_data k f s)) k =
      (if fst (push_data k f s) then queued s k @ [f] else queued s k)"
    by (simp add: push_data_effects)
  show "queued s k = (case fst (object_get k s) of None \<Rightarrow> [] | Some e \<Rightarrow> [e]) @
      queued (snd (object_get k s)) k"
    unfolding object_get_def fst_conv snd_conv
    by (subst queued_next [OF inv, of k]) simp
  show "queued (object_other enc k op s) k = queued s k"
    by (simp add: object_other_def queued_other)
qed

text \<open>The control queue: \<^verbatim>\<open>control\<close> and \<^verbatim>\<open>try_control\<close> push, everything else but \<^verbatim>\<open>next\<close>
  leaves it alone.\<close>

definition frame_fits :: "bytes \<Rightarrow> bool" where
  "frame_fits b \<longleftrightarrow> length b \<le> MAX_FRAME"

definition control_put :: "bytes \<Rightarrow> outbox \<Rightarrow> bool \<times> outbox" where
  "control_put b q = (if frame_fits b then try_push_control b q else (False, q))"

definition control_get :: "outbox \<Rightarrow> bytes option \<times> outbox" where
  "control_get q = (if serves_control q then Some (hd (control q)) else None, snd (outbox_next q))"

fun is_control :: "outbox_op \<Rightarrow> bool" where
  "is_control (OpControl v) = True"
| "is_control (OpTryControl v) = True"
| "is_control OpNext = True"
| "is_control _ = False"

definition control_other :: "encoder \<Rightarrow> outbox_op \<Rightarrow> outbox \<Rightarrow> outbox" where
  "control_other enc op q = (if is_control op then q else outbox_exec enc op q)"

lemma control_same:
  "\<not> is_control op \<Longrightarrow> control (outbox_exec enc op q) = control q"
  by (cases op)
    (simp_all add: remove_request_def remove_object_def outbox_close_def Let_def
      try_data_effects data_effects split: option.splits)

lemma control_next:
  assumes "outbox_inv q"
  shows "control q = (if serves_control q then [hd (control q)] else []) @
    control (snd (outbox_next q))"
proof (cases "serves_control q \<or> ready q = []")
  case True
  then show ?thesis
    by (cases "serves_control q")
      (simp_all add: next_control next_idle, simp add: serves_control_def)
next
  case False
  then obtain j ks where r: "ready q = j # ks" by (cases "ready q") auto
  with assms obtain f fs where j: "odata q j = Some (f # fs)" by (rule ready_head)
  from False r j show ?thesis by (simp add: next_data)
qed

interpretation cq: fifo control_put control_get "control_other enc" control outbox_inv for enc
proof unfold_locales
  fix s b op
  assume inv: "outbox_inv s"
  show "outbox_inv (snd (control_put b s))"
    by (simp add: control_put_def frame_fits_def outbox_inv_try_push inv)
  show "outbox_inv (snd (control_get s))" by (simp add: control_get_def outbox_inv_next inv)
  show "outbox_inv (control_other enc op s)" by (simp add: control_other_def outbox_inv_exec inv)
  show "control (snd (control_put b s)) =
      (if fst (control_put b s) then control s @ [b] else control s)"
    by (simp add: control_put_def try_push_control_def push_control_def)
  show "control s = (case fst (control_get s) of None \<Rightarrow> [] | Some e \<Rightarrow> [e]) @
      control (snd (control_get s))"
    unfolding control_get_def fst_conv snd_conv
    by (subst control_next [OF inv]) simp
  show "control (control_other enc op s) = control s"
    by (simp add: control_other_def control_same)
qed

section \<open>Fairness\<close>

text \<open>
  How long an object waits: nine calls for every object before it (eight control frames
  and one data frame), and the rest of the running burst.
\<close>

definition position :: "'a \<Rightarrow> 'a list \<Rightarrow> nat" where
  "position k xs = length (takeWhile (\<lambda>x. x \<noteq> k) xs)"

definition rank :: "string \<Rightarrow> outbox \<Rightarrow> nat" where
  "rank k q = 9 * position k (ready q) + (8 - control_burst q)"

fun served :: "encoder \<Rightarrow> string \<Rightarrow> outbox_op list \<Rightarrow> outbox \<Rightarrow> bool" where
  "served enc k [] q = False"
| "served enc k (op # ops) q =
     (op = OpNext \<and> serves k q \<or> served enc k ops (outbox_exec enc op q))"

lemma position_append [simp]: "k \<in> set xs \<Longrightarrow> position k (xs @ ys) = position k xs"
  by (simp add: position_def takeWhile_append1)

lemma position_Cons: "position k (x # xs) = (if x = k then 0 else Suc (position k xs))"
  by (simp add: position_def)

lemma position_filter:
  "k \<noteq> j \<Longrightarrow> position k (filter (\<lambda>x. x \<noteq> j) xs) \<le> position k xs"
  by (induction xs) (auto simp: position_Cons position_def)

lemma rank_next:
  assumes inv: "outbox_inv q" and k: "k \<in> set (ready q)" and not: "\<not> serves k q"
  shows "k \<in> set (ready (snd (outbox_next q))) \<and> rank k (snd (outbox_next q)) < rank k q"
proof (cases "serves_control q")
  case True
  moreover from k have "ready q \<noteq> []" by auto
  ultimately have "control_burst q < 8" by (simp add: serves_control_def)
  with True k show ?thesis by (simp add: next_control rank_def)
next
  case False
  from k obtain j ks where r: "ready q = j # ks" by (cases "ready q") auto
  with inv obtain f fs where j: "odata q j = Some (f # fs)" by (rule ready_head)
  from not False r have "j \<noteq> k" by (simp add: serves_def)
  with k r have "k \<in> set ks" by simp
  with False r j \<open>j \<noteq> k\<close> show ?thesis by (simp add: next_data rank_def position_Cons)
qed

lemma rank_le:
  "k \<in> set (ready q) \<Longrightarrow> ready q' = ready q @ r \<Longrightarrow> control_burst q' = control_burst q \<Longrightarrow>
   k \<in> set (ready q') \<and> rank k q' \<le> rank k q"
  by (simp add: rank_def)

lemma rank_other:
  assumes k: "k \<in> set (ready q)" and op: "op \<noteq> OpNext" "\<not> removes k op"
  shows "k \<in> set (ready (outbox_exec enc op q)) \<and> rank k (outbox_exec enc op q) \<le> rank k q"
proof (cases op)
  case (OpTryData j v)
  with k try_data_effects(2) [of enc j v q] show ?thesis
    by (auto simp: try_data_effects(3) rank_def)
next
  case (OpData j v)
  with k data_effects(2) [of enc j v q] show ?thesis
    by (auto simp: data_effects(3) rank_def)
next
  case (OpRemoveRequest j i)
  with op k position_filter [of k j "ready q"] show ?thesis
    by (auto simp: remove_request_def rank_def Let_def split: option.splits)
next
  case (OpRemoveObject j)
  with op k position_filter [of k j "ready q"] show ?thesis
    by (auto simp: remove_object_def rank_def)
qed (use op k in \<open>simp_all add: rank_def outbox_close_def\<close>)

lemma served_within:
  assumes "outbox_inv q" "k \<in> set (ready q)" "\<forall>op \<in> set ops. \<not> removes k op"
    and "rank k q < length (filter (\<lambda>op. op = OpNext) ops)"
  shows "served enc k ops q"
  using assms
proof (induction ops arbitrary: q)
  case (Cons op ops)
  have inv': "outbox_inv (outbox_exec enc op q)" by (rule outbox_inv_exec [OF Cons.prems(1)])
  show ?case
  proof (cases "op = OpNext")
    case True
    show ?thesis
    proof (cases "serves k q")
      case False
      with rank_next [OF Cons.prems(1,2)] True Cons inv' show ?thesis by simp
    qed (simp add: True)
  next
    case False
    with rank_other [OF Cons.prems(2) False, of enc] Cons inv' show ?thesis by simp
  qed
qed simp

lemma request_size_le:
  assumes inv: "outbox_inv q"
  shows "frames_size (filter (\<lambda>f. request_id f = Some i) (queued q k)) \<le> obytes q"
proof (cases "k \<in> set (ready q)")
  case True
  have "frames_size (filter (\<lambda>f. request_id f = Some i) (queued q k)) \<le> qsize (odata q) k"
    using frames_size_filter [of "\<lambda>f. request_id f = Some i" "queued q k"]
    by (simp add: qsize_queued)
  also have "\<dots> \<le> obytes q"
    using outbox_invD(7) [OF inv] member_le_sum_list_map [OF True, of "qsize (odata q)"] by simp
  finally show ?thesis .
next
  case False
  with outbox_invD(4) [OF inv, of k] show ?thesis by (simp add: queued_def)
qed

section \<open>Properties\<close>

text \<open>
  C24: whatever the sequence of operations, at most 64 control frames and 4 MiB of object
  output are queued, at most 64 KiB of it for one object, the byte counter is exact, and
  \<^verbatim>\<open>next\<close> never hits its two \<^verbatim>\<open>expect\<close>s.
\<close>

theorem outbox_bounded:
  "let q = fold (outbox_exec enc) ops outbox_new in
     length (control q) \<le> 64 \<and> obytes q \<le> 4 * 1024 * 1024 \<and>
     obytes q = sum_list (map (\<lambda>k. frames_size (queued q k)) (ready q)) \<and>
     (\<forall>k. frames_size (queued q k) \<le> 64 * 1024) \<and>
     (\<forall>k. k \<in> set (ready q) \<longleftrightarrow> queued q k \<noteq> []) \<and> distinct (ready q) \<and>
     fst (outbox_next q) \<noteq> Panic"
proof -
  let ?q = "fold (outbox_exec enc) ops outbox_new"
  have inv: "outbox_inv ?q" by (rule obox.reach_inv) (rule refl)
  have "k \<in> set (ready ?q) \<longleftrightarrow> queued ?q k \<noteq> []" for k
    using outbox_invD(4,5) [OF inv, of k] by (auto simp: queued_def split: option.splits)
  moreover have "qsize (odata ?q) = (\<lambda>k. frames_size (queued ?q k))"
    by (simp add: fun_eq_iff qsize_queued)
  ultimately show ?thesis
    using outbox_invD(1,3,6,7,8) [OF inv] outbox_inv_next [OF inv]
    by (simp add: Let_def outbox_limits)
qed


lemmas outbox_eval =
  outbox_new_def push_data_def try_push_control_def push_control_def encode_def try_data_def
  tiny_enc_def queued_def qsize_def frames_size_def outbox_limits outbox_next_def
  serves_control_def serves_def


text \<open>
  Control frames leave in the order they were accepted, whatever data traffic there is.
\<close>

lemma control_output_fifo:
  assumes "cq.run enc steps outbox_new = (accepted, written, q)"
  shows "accepted = written @ control q"
  using cq.run_order [OF outbox_inv_new assms] by (simp add: outbox_new_def)

lemma control_output_fifo_witness:
  "\<exists>q. cq.run tiny_enc [Put ''a'', Put ''b'', Get] outbox_new = ([''a'', ''b''], [''a''], q) \<and>
     control q = [''b'']"
proof -
  obtain ins outs q where run: "cq.run tiny_enc [Put ''a'', Put ''b'', Get] outbox_new = (ins, outs, q)"
    by (cases "cq.run tiny_enc [Put ''a'', Put ''b'', Get] outbox_new")
  then have "ins = [''a'', ''b'']" "outs = [''a'']"
    by (auto simp: outbox_eval control_put_def control_get_def frame_fits_def)
  with run control_output_fifo [OF run] show ?thesis by simp
qed

text \<open>
  C26: no starvation. Once an object has queued data and as long as nobody removes its
  frames, it is served before the writer has made nine calls of \<^verbatim>\<open>next\<close> for every object
  ahead of it and nine more, however much control and data traffic arrives meanwhile.
\<close>

theorem outbox_no_starvation:
  assumes "queued (fold (outbox_exec enc) before outbox_new) k \<noteq> []"
    and "\<forall>op \<in> set ops. \<not> removes k op"
    and "9 * position k (ready (fold (outbox_exec enc) before outbox_new)) + 9
      \<le> length (filter (\<lambda>op. op = OpNext) ops)"
  shows "served enc k ops (fold (outbox_exec enc) before outbox_new)"
proof (rule served_within)
  let ?q = "fold (outbox_exec enc) before outbox_new"
  show inv: "outbox_inv ?q" by (rule obox.reach_inv) (rule refl)
  show "k \<in> set (ready ?q)"
    using assms(1) outbox_invD(4) [OF inv, of k] by (auto simp: queued_def split: option.splits)
  show "rank k ?q < length (filter (\<lambda>op. op = OpNext) ops)"
    using assms(3) by (simp add: rank_def)
qed (rule assms(2))

theorem outbox_no_starvation_witness:
  "served tiny_enc ''o1''
     [OpNext, OpNext, OpNext, OpNext, OpNext, OpNext, OpNext, OpNext, OpNext]
     (fold (outbox_exec tiny_enc) [OpTryData ''o1'' Null] outbox_new)"
  by (rule outbox_no_starvation) (simp_all add: outbox_eval position_def)

text \<open>
  Withdrawing a request removes exactly the frames that carry its identifier from the
  queue of its object, keeps the order of the rest, leaves every other object alone, and
  takes exactly the removed bytes off the counter (the subtraction does not underflow).
\<close>

lemma remove_request_exact:
  "let q = fold (outbox_exec enc) before outbox_new; r = remove_request k i q in
    queued r k = filter (\<lambda>f. request_id f \<noteq> Some i) (queued q k) \<and>
    (\<forall>j. j \<noteq> k \<longrightarrow> queued r j = queued q j) \<and>
    obytes r + frames_size (filter (\<lambda>f. request_id f = Some i) (queued q k)) = obytes q \<and>
    control r = control q"
proof -
  let ?q = "fold (outbox_exec enc) before outbox_new"
  have "frames_size (filter (\<lambda>f. request_id f = Some i) (queued ?q k)) \<le> obytes ?q"
    by (rule request_size_le, rule obox.reach_inv) (rule refl)
  then show ?thesis
    by (auto simp: queued_remove_request Let_def)
      (auto simp: remove_request_def queued_def Let_def split: option.splits)
qed

text \<open>
  A response is never lost for being too large. On an open outbox with a free control
  slot \<^verbatim>\<open>control\<close> queues one frame: the value itself when it fits a frame, and otherwise
  the error reply with the same identifier.
\<close>

lemma control_answers_every_request:
  assumes "vget v ''id'' = Some i" and "encode enc (too_large_reply i) \<noteq> None"
    and "\<not> oclosed q" and "length (control q) < 64"
  shows "\<exists>b. outbox_control enc v q = (Done (Inr ()), push_control b q) \<and>
    encode enc (if encode enc v = None then too_large_reply i else v) = Some b \<and>
    length b \<le> 256 * 1024"
proof -
  obtain b where b: "encode enc (if encode enc v = None then too_large_reply i else v) = Some b"
    using assms(2) by (cases "encode enc v") auto
  then have "control_bytes enc v = Inr b"
    using assms(1) by (auto simp: control_bytes_def split: option.splits if_splits)
  with b assms(3,4) encode_length [OF b] show ?thesis
    by (auto simp: outbox_control_def outbox_limits)
qed

lemma control_answers_every_request_witness:
  "\<exists>b. outbox_control tiny_enc (jobj [(''id'', String ''1'')]) outbox_new
      = (Done (Inr ()), push_control b outbox_new) \<and>
    encode tiny_enc (if encode tiny_enc (jobj [(''id'', String ''1'')]) = None
      then too_large_reply (String ''1'') else jobj [(''id'', String ''1'')]) = Some b \<and>
    length b \<le> 256 * 1024"
  by (rule control_answers_every_request) (simp_all add: outbox_eval vget_jobj)

end
