(* ===== verification/HostRpc.thy ===== *)
theory HostRpc
  imports OutboxOrder
begin

text \<open>
  Calls from a guest to the embedder (\<^verbatim>\<open>src/host.rs\<close>). The table \<^verbatim>\<open>pending\<close> routes an
  answer to the call that waits for it; a call is a future that first queues its request,
  then waits for the answer, under a timeout, and whose guard cleans up however the future
  ends.

  A \<open>host\<close> is the shared part of \<^verbatim>\<open>Host\<close>. The sender kept in an entry of \<^verbatim>\<open>pending\<close> and
  the receiver kept by the call are the two ends of a one-shot channel, named by the
  request identifier: \<open>slots i\<close> is \<open>None\<close> when the receiver is gone, \<open>Some None\<close> while
  nothing was sent and \<open>Some (Some r)\<close> afterwards. A \<open>call\<close> is what the future holds
  across its awaits. \<open>call_poll\<close> is one poll of the future: the operation first, then the
  deadline, as \<^verbatim>\<open>tokio::time::timeout\<close> does; the wall clock is an argument.
\<close>

section \<open>State\<close>

record host =
  pending :: "(string \<times> string) list"
  hnext :: u64
  session :: string
  ignored :: u64
  slots :: "string \<Rightarrow> (int + json) option option"

definition host_new :: "string \<Rightarrow> host" where
  "host_new s = \<lparr>pending = [], hnext = 0, session = s, ignored = 0, slots = (\<lambda>_. None)\<rparr>"

record call =
  cid :: string
  cobject :: string
  csent :: bool
  crequest :: json

datatype call_state = Running call | Returned "int + json"

definition call_id :: "string \<Rightarrow> u64 \<Rightarrow> string" where
  "call_id s n = ''sf:'' @ s @ '':'' @ show_nat (unat n)"

section \<open>Operations\<close>

definition host_stats :: "host \<Rightarrow> json" where
  "host_stats h =
     jobj [(''pending_host_calls'', jnat (length (pending h))),
           (''ignored_host_responses'', jnat (unat (ignored h)))]"

definition call_request ::
    "string \<Rightarrow> string \<Rightarrow> string \<Rightarrow> json \<Rightarrow> u64 \<Rightarrow> nat \<Rightarrow> json" where
  "call_request i obj capability arguments timeout_ms now_ms =
     jobj [(''jsonrpc'', String ''2.0''), (''id'', String i), (''method'', String ''host.call''),
       (''params'', jobj [(''object_id'', String obj), (''capability'', String capability),
          (''arguments'', arguments), (''timeout_ms'', jnat (unat timeout_ms)),
          (''deadline_unix_ms'', jnat (now_ms + unat timeout_ms)),
          (''max_result_bytes'', jnat MAX_VALUE_BYTES)])]"

definition cancel_notice :: "string \<Rightarrow> json" where
  "cancel_notice i =
     jobj [(''jsonrpc'', String ''2.0''), (''method'', String ''host.cancel''),
       (''params'', jobj [(''id'', String i)])]"

text \<open>\<^verbatim>\<open>Host::call\<close> up to its first await.\<close>

definition call_begin ::
    "string \<Rightarrow> string \<Rightarrow> json \<Rightarrow> u64 \<Rightarrow> nat \<Rightarrow> host \<Rightarrow> (int + call) \<times> host" where
  "call_begin obj capability arguments timeout_ms now_ms h =
     (if 16384 \<le> length (pending h) then (Inl LIMIT, h)
      else case checked_inc (hnext h) of
          None \<Rightarrow> (Inl LIMIT, h)
        | Some serial \<Rightarrow>
            let i = call_id (session h) serial in
            (Inr \<lparr>cid = i, cobject = obj, csent = False,
                  crequest = call_request i obj capability arguments timeout_ms now_ms\<rparr>,
             h\<lparr>hnext := serial, pending := AList.update i obj (pending h),
               slots := (slots h)(i \<mapsto> None)\<rparr>))"

text \<open>
  The end of the future, by return or by cancellation: the receiver goes, and the guard
  withdraws the request, forgets the entry, and tells the embedder when the request had
  been queued.
\<close>

definition call_drop :: "encoder \<Rightarrow> call \<Rightarrow> host \<Rightarrow> outbox \<Rightarrow> host \<times> outbox" where
  "call_drop enc c h q =
     (let q' = remove_request (cobject c) (cid c) q;
          h' = h\<lparr>slots := (slots h)(cid c := None), pending := AList.delete (cid c) (pending h)\<rparr>
      in (h', if cid c \<in> set (keys (pending h)) \<and> csent c
              then snd (try_control enc (cancel_notice (cid c)) q') else q'))"

definition call_end ::
    "encoder \<Rightarrow> call \<Rightarrow> int + json \<Rightarrow> host \<Rightarrow> outbox \<Rightarrow> call_state \<times> host \<times> outbox" where
  "call_end enc c r h q = (Returned r, call_drop enc c h q)"

definition call_await ::
    "encoder \<Rightarrow> bool \<Rightarrow> call \<Rightarrow> host \<Rightarrow> outbox \<Rightarrow> call_state \<times> host \<times> outbox" where
  "call_await enc expired c h q =
     (if expired then call_end enc c (Inl TIMEOUT) h q else (Running c, h, q))"

definition call_poll ::
    "encoder \<Rightarrow> bool \<Rightarrow> call \<Rightarrow> host \<Rightarrow> outbox \<Rightarrow> call_state \<times> host \<times> outbox" where
  "call_poll enc expired c h q =
     (case (if csent c then (Done (Inr ()), q)
            else outbox_data enc (cobject c) (crequest c) q) of
        (Pending, q') \<Rightarrow> call_await enc expired c h q'
      | (Done (Inl _), q') \<Rightarrow> call_end enc c (Inl CLOSED) h q'
      | (Done (Inr _), q') \<Rightarrow>
          let c' = c\<lparr>csent := True\<rparr> in
          (case slots h (cid c) of
             Some (Some r) \<Rightarrow> call_end enc c' r h q'
           | _ \<Rightarrow>
               if cid c \<in> set (keys (pending h)) then call_await enc expired c' h q'
               else call_end enc c' (Inl CLOSED) h q'))"

text \<open>Sending into the one-shot channel; without a receiver the value is dropped.\<close>

definition slot_send :: "string \<Rightarrow> int + json \<Rightarrow> host \<Rightarrow> host" where
  "slot_send i r h =
     (if slots h i = Some None then h\<lparr>slots := (slots h)(i \<mapsto> Some r)\<rparr> else h)"

definition host_ignore :: "host \<Rightarrow> host" where
  "host_ignore h = h\<lparr>ignored := saturating_inc (ignored h)\<rparr>"

definition response_result :: "encoder \<Rightarrow> json \<Rightarrow> int + json" where
  "response_result enc frame =
     (if vget frame ''result'' \<noteq> None \<and> vget frame ''error'' = None then
        (let v = vindex frame ''result'' in if valid_value enc v then Inr v else Inl LIMIT)
      else Inl HOST_ERROR)"

definition host_response :: "encoder \<Rightarrow> json \<Rightarrow> host \<Rightarrow> host" where
  "host_response enc frame h =
     (case request_id_of frame of
        None \<Rightarrow> host_ignore h
      | Some i \<Rightarrow>
          (case map_of (pending h) i of
             None \<Rightarrow> host_ignore h
           | Some _ \<Rightarrow>
               slot_send i (response_result enc frame)
                 (h\<lparr>pending := AList.delete i (pending h)\<rparr>)))"

definition cancel_one :: "encoder \<Rightarrow> string \<Rightarrow> host \<times> outbox \<Rightarrow> host \<times> outbox" where
  "cancel_one enc i hq =
     (case hq of (h, q) \<Rightarrow>
        (case map_of (pending h) i of
           None \<Rightarrow> (h, q)
         | Some _ \<Rightarrow>
             (slot_send i (Inl CLOSED) (h\<lparr>pending := AList.delete i (pending h)\<rparr>),
              snd (try_control enc (cancel_notice i) q))))"

definition cancel_object :: "encoder \<Rightarrow> string \<Rightarrow> host \<Rightarrow> outbox \<Rightarrow> host \<times> outbox" where
  "cancel_object enc obj h q =
     (let ids = map fst (filter (\<lambda>(i, p). p = obj) (pending h))
      in fold (cancel_one enc) ids (h, q))"

section \<open>The calls of a session\<close>

text \<open>
  All futures of a session with the shared host and outbox. Everything else that happens
  to the outbox (the writer, logs, control replies) is an operation of it that carries no
  request.
\<close>

record world =
  whost :: host
  wout :: outbox
  wcalls :: "(string \<times> call) list"

definition world_new :: "string \<Rightarrow> world" where
  "world_new s = \<lparr>whost = host_new s, wout = outbox_new, wcalls = []\<rparr>"

fun no_request :: "outbox_op \<Rightarrow> bool" where
  "no_request (OpTryData k v) = (request_id_of v = None)"
| "no_request (OpData k v) = (request_id_of v = None)"
| "no_request _ = True"

datatype host_op =
    HBegin string string json u64 nat
  | HPoll string bool
  | HDrop string
  | HResponse json
  | HCancel string
  | HOut outbox_op

fun host_exec :: "encoder \<Rightarrow> host_op \<Rightarrow> world \<Rightarrow> world" where
  "host_exec enc (HBegin obj capability arguments timeout_ms now_ms) w =
     (case call_begin obj capability arguments timeout_ms now_ms (whost w) of
        (Inl e, h) \<Rightarrow> w\<lparr>whost := h\<rparr>
      | (Inr c, h) \<Rightarrow> w\<lparr>whost := h, wcalls := AList.update (cid c) c (wcalls w)\<rparr>)"
| "host_exec enc (HPoll i expired) w =
     (case map_of (wcalls w) i of
        None \<Rightarrow> w
      | Some c \<Rightarrow>
          (case call_poll enc expired c (whost w) (wout w) of
             (Running c', h, q) \<Rightarrow>
               w\<lparr>whost := h, wout := q, wcalls := AList.update i c' (wcalls w)\<rparr>
           | (Returned r, h, q) \<Rightarrow>
               w\<lparr>whost := h, wout := q, wcalls := AList.delete i (wcalls w)\<rparr>))"
| "host_exec enc (HDrop i) w =
     (case map_of (wcalls w) i of
        None \<Rightarrow> w
      | Some c \<Rightarrow>
          (case call_drop enc c (whost w) (wout w) of
             (h, q) \<Rightarrow> w\<lparr>whost := h, wout := q, wcalls := AList.delete i (wcalls w)\<rparr>))"
| "host_exec enc (HResponse frame) w = w\<lparr>whost := host_response enc frame (whost w)\<rparr>"
| "host_exec enc (HCancel obj) w =
     (case cancel_object enc obj (whost w) (wout w) of (h, q) \<Rightarrow> w\<lparr>whost := h, wout := q\<rparr>)"
| "host_exec enc (HOut op) w =
     (if no_request op then w\<lparr>wout := outbox_exec enc op (wout w)\<rparr> else w)"

section \<open>The invariant\<close>

text \<open>
  Routing entries belong to live calls of the same object whose channel is still empty;
  queued requests belong to live calls that marked them as queued; identifiers come from
  the counter.
\<close>

definition call_ok :: "host \<Rightarrow> string \<Rightarrow> call \<Rightarrow> bool" where
  "call_ok h i c \<longleftrightarrow>
     cid c = i \<and> request_id_of (crequest c) = Some i \<and> slots h i \<noteq> None \<and>
     (\<exists>n. i = call_id (session h) n \<and> unat n \<le> unat (hnext h))"

definition calls_ok :: "host \<Rightarrow> (string \<times> call) list \<Rightarrow> bool" where
  "calls_ok h cs \<longleftrightarrow> amap cs \<and> (\<forall>i c. map_of cs i = Some c \<longrightarrow> call_ok h i c)"

definition pending_ok :: "host \<Rightarrow> (string \<times> call) list \<Rightarrow> bool" where
  "pending_ok h cs \<longleftrightarrow>
     amap (pending h) \<and> length (pending h) \<le> 16384 \<and>
     (\<forall>i. slots h i \<noteq> None \<longrightarrow> map_of cs i \<noteq> None) \<and>
     (\<forall>i obj. map_of (pending h) i = Some obj \<longrightarrow>
        slots h i = Some None \<and> (\<exists>c. map_of cs i = Some c \<and> cobject c = obj))"

definition requests_ok :: "outbox \<Rightarrow> (string \<times> call) list \<Rightarrow> bool" where
  "requests_ok q cs \<longleftrightarrow>
     (\<forall>k f i. f \<in> set (queued q k) \<longrightarrow> request_id f = Some i \<longrightarrow>
        (\<exists>c. map_of cs i = Some c \<and> cobject c = k \<and> csent c))"

definition host_inv :: "world \<Rightarrow> bool" where
  "host_inv w \<longleftrightarrow>
     outbox_inv (wout w) \<and> calls_ok (whost w) (wcalls w) \<and>
     pending_ok (whost w) (wcalls w) \<and> requests_ok (wout w) (wcalls w)"

lemmas host_inv_defs = host_inv_def calls_ok_def pending_ok_def requests_ok_def

lemma host_inv_new [simp]: "host_inv (world_new s)"
  by (simp add: host_inv_defs world_new_def host_new_def)
    (simp add: queued_def outbox_new_def)

lemma call_okD: "calls_ok h cs \<Longrightarrow> map_of cs i = Some c \<Longrightarrow> call_ok h i c"
  by (simp add: calls_ok_def)

lemma call_id_inject [simp]: "call_id s m = call_id s n \<longleftrightarrow> m = n"
  by (auto simp: call_id_def word_unat_eq_iff)

lemma request_id_call_request [simp]: "request_id_of (call_request i o' c a t n) = Some i"
  by (simp add: request_id_of_def call_request_def vget_jobj)

text \<open>What may change in the queues: some requests go, or one of a call arrives.\<close>

lemma requests_ok_subset:
  "requests_ok q cs \<Longrightarrow> (\<And>k. set (queued q' k) \<subseteq> set (queued q k)) \<Longrightarrow> requests_ok q' cs"
  unfolding requests_ok_def by blast

lemma requests_ok_queued:
  "requests_ok q cs \<Longrightarrow> (\<And>k. queued q' k = queued q k) \<Longrightarrow> requests_ok q' cs"
  by (rule requests_ok_subset) auto

section \<open>Every operation keeps the invariant\<close>

lemma fresh_id:
  assumes "calls_ok h cs" and "checked_inc (hnext h) = Some n"
  shows "map_of cs (call_id (session h) n) = None"
proof (rule ccontr)
  assume "map_of cs (call_id (session h) n) \<noteq> None"
  with assms(1) obtain m where "call_id (session h) n = call_id (session h) m"
    "unat m \<le> unat (hnext h)"
    unfolding calls_ok_def call_ok_def by (metis not_None_eq)
  with unat_checked_inc [OF assms(2)] show False by simp
qed

lemma host_inv_begin:
  assumes inv: "host_inv w"
  shows "host_inv (host_exec enc (HBegin obj capability arguments ms now) w)"
proof (cases "16384 \<le> length (pending (whost w)) \<or> checked_inc (hnext (whost w)) = None")
  case True
  with inv show ?thesis by (auto simp: call_begin_def split: option.splits)
next
  case False
  let ?h = "whost w" and ?cs = "wcalls w"
  from False obtain n where n: "checked_inc (hnext ?h) = Some n" by auto
  let ?i = "call_id (session ?h) n"
  let ?c = "\<lparr>cid = ?i, cobject = obj, csent = False,
    crequest = call_request ?i obj capability arguments ms now\<rparr>"
  let ?h' = "?h\<lparr>hnext := n, pending := AList.update ?i obj (pending ?h),
    slots := (slots ?h)(?i \<mapsto> None)\<rparr>"
  have ok: "calls_ok ?h ?cs" "pending_ok ?h ?cs" "requests_ok (wout w) ?cs"
    using inv by (simp_all add: host_inv_def)
  have fresh: "map_of ?cs ?i = None" by (rule fresh_id [OF ok(1) n])
  have le: "unat (hnext ?h) \<le> unat n" using unat_checked_inc [OF n] by simp
  have "calls_ok ?h' (AList.update ?i ?c ?cs)"
    using ok(1) le unfolding calls_ok_def call_ok_def by auto (meson order_trans)
  moreover have "pending_ok ?h' (AList.update ?i ?c ?cs)"
    using ok(2) False fresh unfolding pending_ok_def
    by (auto simp: length_update)
  moreover have "requests_ok (wout w) (AList.update ?i ?c ?cs)"
    using ok(3) fresh unfolding requests_ok_def by (auto 0 4)
  ultimately show ?thesis
    using inv False n by (simp add: host_inv_def call_begin_def Let_def)
qed

text \<open>The end of a call: nothing of it is left.\<close>

lemma queued_drop:
  "queued (snd (call_drop enc c h q)) k =
     (if k = cobject c then filter (\<lambda>f. request_id f \<noteq> Some (cid c)) (queued q k) else queued q k)"
  by (simp add: call_drop_def Let_def queued_remove_request)

lemma call_drop_inv:
  assumes "outbox_inv q" "calls_ok h cs" "pending_ok h cs" "requests_ok q (AList.update i c cs)"
    and "map_of cs i = Some c0" "cid c = i" "cobject c = cobject c0"
    and "call_drop enc c h q = (h', q')"
  shows "outbox_inv q' \<and> calls_ok h' (AList.delete i cs) \<and> pending_ok h' (AList.delete i cs) \<and>
    requests_ok q' (AList.delete i cs)"
proof -
  have h': "h' = h\<lparr>slots := (slots h)(i := None), pending := AList.delete i (pending h)\<rparr>"
    using assms(6,8) by (simp add: call_drop_def Let_def)
  have q': "queued q' k = (if k = cobject c then filter (\<lambda>f. request_id f \<noteq> Some i) (queued q k)
      else queued q k)" for k
    using queued_drop [of enc c h q k] assms(6,8) by simp
  have "outbox_inv q'"
    using assms(1,8)
    by (auto simp: call_drop_def Let_def outbox_inv_try_control outbox_inv_remove_request
        split: if_splits)
  moreover have "calls_ok h' (AList.delete i cs)"
    using assms(2) unfolding calls_ok_def call_ok_def h' by auto
  moreover have "pending_ok h' (AList.delete i cs)"
    using assms(3) order_trans [OF length_delete] unfolding pending_ok_def h' by auto
  moreover have "requests_ok q' (AList.delete i cs)"
    unfolding requests_ok_def
  proof (intro allI impI)
    fix k f j
    assume f: "f \<in> set (queued q' k)" "request_id f = Some j"
    then have "f \<in> set (queued q k)" using q' [of k] by (auto split: if_splits)
    with assms(4) f(2) obtain d where d: "map_of (AList.update i c cs) j = Some d"
      "cobject d = k" "csent d"
      unfolding requests_ok_def by blast
    have "j \<noteq> i"
    proof
      assume "j = i"
      with d have "k = cobject c" by simp
      with f q' [of k] \<open>j = i\<close> show False by auto
    qed
    with d show "\<exists>c. map_of (AList.delete i cs) j = Some c \<and> cobject c = k \<and> csent c" by auto
  qed
  ultimately show ?thesis by blast
qed

lemma requests_ok_update_same:
  "map_of cs i = Some c \<Longrightarrow> requests_ok q (AList.update i c cs) = requests_ok q cs"
  by (simp add: requests_ok_def map_upd_triv)

lemma host_inv_drop:
  assumes inv: "host_inv w"
  shows "host_inv (host_exec enc (HDrop i) w)"
proof (cases "map_of (wcalls w) i")
  case (Some c)
  obtain h' q' where drop: "call_drop enc c (whost w) (wout w) = (h', q')" by fastforce
  have "cid c = i" using inv Some by (simp add: host_inv_def calls_ok_def call_ok_def)
  with call_drop_inv [OF _ _ _ _ Some _ refl drop] inv Some drop show ?thesis
    by (simp add: host_inv_def requests_ok_update_same)
qed (use inv in simp)

text \<open>Queueing the request of a call.\<close>

lemma data_request:
  assumes "outbox_data enc k v q = (r, q')" "f \<in> set (queued q' j)" "f \<notin> set (queued q j)"
  shows "r = Done (Inr ()) \<and> j = k \<and> request_id f = request_id_of v"
  using assms
  by (auto simp: outbox_data_def push_data_def queued_def Let_def
      split: option.splits if_splits)

lemma data_not_done:
  "outbox_data enc k v q = (r, q') \<Longrightarrow> r \<noteq> Done (Inr ()) \<Longrightarrow> q' = q"
  by (auto simp: outbox_data_def push_data_def Let_def split: option.splits if_splits)

text \<open>A call that goes on waiting, having marked its request as queued or not.\<close>

lemma call_update_inv:
  assumes "calls_ok h cs" "pending_ok h cs" "map_of cs i = Some c0"
    and "cid c = i" "cobject c = cobject c0" "crequest c = crequest c0"
  shows "calls_ok h (AList.update i c cs) \<and> pending_ok h (AList.update i c cs)"
proof
  have "call_ok h i c" using call_okD [OF assms(1,3)] assms(4,6) by (simp add: call_ok_def)
  then show "calls_ok h (AList.update i c cs)" using assms(1) by (simp add: calls_ok_def)
  show "pending_ok h (AList.update i c cs)"
    using assms(2,3,5) unfolding pending_ok_def by fastforce
qed

lemma requests_ok_sent:
  assumes "requests_ok q cs" "map_of cs i = Some c0"
    and "\<And>k f. f \<in> set (queued q' k) \<Longrightarrow> f \<notin> set (queued q k) \<Longrightarrow>
      k = cobject c0 \<and> request_id f = Some i"
  shows "requests_ok q' (AList.update i (c0\<lparr>csent := True\<rparr>) cs)"
  unfolding requests_ok_def
proof (intro allI impI)
  fix k f j
  assume f: "f \<in> set (queued q' k)" "request_id f = Some j"
  show "\<exists>c. map_of (AList.update i (c0\<lparr>csent := True\<rparr>) cs) j = Some c \<and> cobject c = k \<and> csent c"
  proof (cases "f \<in> set (queued q k)")
    case True
    with assms(1) f(2) obtain c where "map_of cs j = Some c" "cobject c = k" "csent c"
      unfolding requests_ok_def by blast
    with assms(2) show ?thesis by (cases "j = i") auto
  next
    case False
    with assms(3) [OF f(1)] f(2) show ?thesis by auto
  qed
qed

text \<open>The three ways a poll can go on after the request.\<close>

lemma poll_cases:
  assumes "call_poll enc expired c h q = (st, h', q')"
  obtains (before) q1 where "\<not> csent c" "outbox_data enc (cobject c) (crequest c) q = (Pending, q1)"
      "call_await enc expired c h q1 = (st, h', q')"
    | (refused) e q1 where "\<not> csent c"
      "outbox_data enc (cobject c) (crequest c) q = (Done (Inl e), q1)"
      "call_end enc c (Inl CLOSED) h q1 = (st, h', q')"
    | (after) q1 where
      "csent c \<and> q1 = q \<or>
       \<not> csent c \<and> outbox_data enc (cobject c) (crequest c) q = (Done (Inr ()), q1)"
      "(\<exists>r. call_end enc (c\<lparr>csent := True\<rparr>) r h q1 = (st, h', q')) \<or>
       call_await enc expired (c\<lparr>csent := True\<rparr>) h q1 = (st, h', q')"
proof (cases "csent c")
  case True
  with assms show thesis
    by (intro after [of q]) (auto simp: call_poll_def Let_def split: option.splits if_splits)
next
  case False
  obtain r q1 where d: "outbox_data enc (cobject c) (crequest c) q = (r, q1)" by fastforce
  show thesis
  proof (cases r)
    case Pending
    with False d assms show thesis by (intro before [of q1]) (auto simp: call_poll_def)
  next
    case (Done x)
    show thesis
    proof (cases x)
      case (Inl e)
      with False d Done assms show thesis by (intro refused [of e q1]) (auto simp: call_poll_def)
    next
      case (Inr u)
      with False d Done assms show thesis
        by (intro after [of q1]) (auto simp: call_poll_def Let_def split: option.splits if_splits)
    qed
  qed
qed

lemma world_update_sent:
  assumes inv: "host_inv w" and c: "map_of (wcalls w) i = Some c"
    and q1: "csent c \<and> q1 = wout w \<or> \<not> csent c \<and>
      outbox_data enc (cobject c) (crequest c) (wout w) = (Done (Inr ()), q1)"
  shows "outbox_inv q1 \<and> requests_ok q1 (AList.update i (c\<lparr>csent := True\<rparr>) (wcalls w))"
proof -
  have ok: "outbox_inv (wout w)" "requests_ok (wout w) (wcalls w)" "call_ok (whost w) i c"
    using inv c by (auto simp: host_inv_def dest: call_okD)
  have rid: "request_id_of (crequest c) = Some i" using ok(3) by (simp add: call_ok_def)
  have "outbox_inv q1"
    using q1 ok(1) outbox_inv_data [OF ok(1), of enc "cobject c" "crequest c"] by auto
  moreover have "requests_ok q1 (AList.update i (c\<lparr>csent := True\<rparr>) (wcalls w))"
  proof (rule requests_ok_sent [OF ok(2) c])
    fix k f
    assume f: "f \<in> set (queued q1 k)" "f \<notin> set (queued (wout w) k)"
    with q1 have d: "outbox_data enc (cobject c) (crequest c) (wout w) = (Done (Inr ()), q1)" by auto
    from data_request [OF d f] rid show "k = cobject c \<and> request_id f = Some i" by simp
  qed
  ultimately show ?thesis ..
qed

lemma host_inv_poll:
  assumes inv: "host_inv w"
  shows "host_inv (host_exec enc (HPoll i expired) w)"
proof (cases "map_of (wcalls w) i")
  case (Some c)
  obtain st h' q' where poll: "call_poll enc expired c (whost w) (wout w) = (st, h', q')"
    by (cases "call_poll enc expired c (whost w) (wout w)")
  have ok: "outbox_inv (wout w)" "calls_ok (whost w) (wcalls w)"
    "pending_ok (whost w) (wcalls w)" "requests_ok (wout w) (wcalls w)"
    using inv by (simp_all add: host_inv_def)
  have cid: "cid c = i" using call_okD [OF ok(2) Some] by (simp add: call_ok_def)
  have ended: "host_inv (host_exec enc (HPoll i expired) w)"
    if "call_end enc d r (whost w) q1 = (st, h', q')" and "outbox_inv q1"
      and "requests_ok q1 (AList.update i d (wcalls w))" and "cid d = i" "cobject d = cobject c"
    for d r q1
    using call_drop_inv [OF that(2) ok(2,3) that(3) Some that(4,5)] that(1) poll Some
    by (auto simp: call_end_def host_inv_def)
  have awaits: "host_inv (host_exec enc (HPoll i expired) w)"
    if "call_await enc expired d (whost w) q1 = (st, h', q')" and "outbox_inv q1"
      and "requests_ok q1 (AList.update i d (wcalls w))" and "cid d = i" "cobject d = cobject c"
      and "crequest d = crequest c"
    for d q1
    using ended [of d "Inl TIMEOUT" q1] that poll Some call_update_inv [OF ok(2,3) Some that(4,5,6)]
    by (auto simp: call_await_def host_inv_def split: if_splits)
  have same: "requests_ok (wout w) (AList.update i c (wcalls w))"
    using ok(4) Some by (simp add: requests_ok_update_same)
  from poll show ?thesis
  proof (cases rule: poll_cases)
    case (before q1)
    with data_not_done [OF before(2)] awaits [of c q1] ok(1) same cid show ?thesis by simp
  next
    case (refused e q1)
    with data_not_done [OF refused(2)] ended [of c _ q1] ok(1) same cid show ?thesis by simp
  next
    case (after q1)
    with world_update_sent [OF inv Some after(1)] ended [of "c\<lparr>csent := True\<rparr>" _ q1]
      awaits [of "c\<lparr>csent := True\<rparr>" q1] cid
    show ?thesis by auto
  qed
qed (use inv in simp)

lemma slot_send_inv:
  assumes "calls_ok h cs" "pending_ok h cs"
  shows "calls_ok (slot_send i r (h\<lparr>pending := AList.delete i (pending h)\<rparr>)) cs \<and>
    pending_ok (slot_send i r (h\<lparr>pending := AList.delete i (pending h)\<rparr>)) cs"
  using assms order_trans [OF length_delete]
  unfolding calls_ok_def call_ok_def pending_ok_def slot_send_def by auto

lemma host_inv_response: "host_inv w \<Longrightarrow> host_inv (host_exec enc (HResponse frame) w)"
  using slot_send_inv [of "whost w" "wcalls w"]
  by (auto simp: host_inv_def host_response_def host_ignore_def calls_ok_def call_ok_def
      pending_ok_def split: option.splits)

lemma queued_try_control [simp]:
  "queued (snd (try_control enc v q)) k = queued q k"
  by (rule queued_control)

lemma cancel_one_inv:
  assumes "outbox_inv q" "calls_ok h cs" "pending_ok h cs" "requests_ok q cs"
    and "cancel_one enc i (h, q) = (h', q')"
  shows "outbox_inv q' \<and> calls_ok h' cs \<and> pending_ok h' cs \<and> requests_ok q' cs"
  using assms slot_send_inv [OF assms(2,3), of i]
  by (auto simp: cancel_one_def outbox_inv_try_control requests_ok_queued split: option.splits)

lemma cancel_all_inv:
  assumes "outbox_inv q" "calls_ok h cs" "pending_ok h cs" "requests_ok q cs"
    and "fold (cancel_one enc) ids (h, q) = (h', q')"
  shows "outbox_inv q' \<and> calls_ok h' cs \<and> pending_ok h' cs \<and> requests_ok q' cs"
  using assms
proof (induction ids arbitrary: h q)
  case (Cons i ids)
  obtain h1 q1 where one: "cancel_one enc i (h, q) = (h1, q1)" by fastforce
  with cancel_one_inv [OF Cons.prems(1-4) one] Cons.IH [of q1 h1] Cons.prems(5) show ?case by simp
qed simp

lemma host_inv_cancel: "host_inv w \<Longrightarrow> host_inv (host_exec enc (HCancel obj) w)"
  using cancel_all_inv [of "wout w" "whost w" "wcalls w" enc]
  by (auto simp: host_inv_def cancel_object_def Let_def split: prod.splits)

lemma requests_ok_out:
  assumes "requests_ok q cs" "outbox_inv q" "no_request op"
  shows "requests_ok (outbox_exec enc op q) cs"
  unfolding requests_ok_def
proof (intro allI impI)
  fix k f i
  assume f: "f \<in> set (queued (outbox_exec enc op q) k)" "request_id f = Some i"
  have "f \<in> set (queued q k)"
  proof (cases op)
    case (OpTryData j v)
    with assms(3) f show ?thesis
      by (auto simp: try_data_def push_data_def queued_def Let_def
          split: option.splits if_splits)
  next
    case (OpData j v)
    obtain r q' where d: "outbox_data enc j v q = (r, q')" by fastforce
    with data_request [OF d, of f k] assms(3) f OpData show ?thesis by auto
  next
    case OpNext
    with f(1) queued_next [OF assms(2), of k] show ?thesis by (metis Un_iff outbox_exec.simps(7) set_append)
  qed (use f(1) in \<open>auto simp: queued_remove_request queued_remove_object split: if_splits\<close>)
  with assms(1) f(2) show "\<exists>c. map_of cs i = Some c \<and> cobject c = k \<and> csent c"
    unfolding requests_ok_def by blast
qed

lemma host_inv_exec: "host_inv w \<Longrightarrow> host_inv (host_exec enc op w)"
proof (cases op)
  case (HOut o')
  then show "host_inv w \<Longrightarrow> ?thesis"
    by (auto simp: host_inv_def outbox_inv_exec requests_ok_out)
qed (simp_all only: host_inv_begin host_inv_poll host_inv_drop host_inv_response host_inv_cancel)

interpretation hw: machine "\<lambda>w. w = world_new s" "host_exec enc" host_inv for s enc
  by unfold_locales (auto simp: host_inv_exec)

end
