(* ===== verification/HostCalls.thy ===== *)
theory HostCalls
  imports HostRpc
begin

text \<open>
  What the host call table guarantees: no routing entry, channel or queued request outlives
  its call; identifiers are fresh; an answer reaches its call once and a second one is
  counted and dropped; cancelling an object closes its calls and no others.
\<close>

section \<open>Effects on the routing table\<close>

lemma slot_send_pending [simp]: "pending (slot_send i r h) = pending h"
  by (simp add: slot_send_def)

lemma cancel_all_effects:
  assumes "\<forall>i \<in> set ids. map_of (pending h) i \<noteq> None \<longrightarrow> slots h i = Some None"
    and "fold (cancel_one enc) ids (h, q) = (h', q')"
  shows "map_of (pending h') j = (if j \<in> set ids then None else map_of (pending h) j) \<and>
    slots h' j = (if j \<in> set ids \<and> map_of (pending h) j \<noteq> None then Some (Some (Inl CLOSED))
      else slots h j)"
  using assms
proof (induction ids arbitrary: h q)
  case (Cons i ids)
  obtain h1 q1 where one: "cancel_one enc i (h, q) = (h1, q1)" by fastforce
  have h1: "map_of (pending h1) k = (if k = i then None else map_of (pending h) k)"
    "slots h1 k = (if k = i \<and> map_of (pending h) i \<noteq> None then Some (Some (Inl CLOSED))
      else slots h k)" for k
    using one Cons.prems(1) by (auto simp: cancel_one_def slot_send_def split: option.splits)
  from one Cons.prems(2) have "fold (cancel_one enc) ids (h1, q1) = (h', q')" by simp
  with Cons.IH [of h1 q1] Cons.prems(1) h1 show ?case by auto
qed simp

lemma cancelled_ids:
  "amap (pending h) \<Longrightarrow>
   j \<in> set (map fst (filter (\<lambda>(i, p). p = obj) (pending h))) \<longleftrightarrow> map_of (pending h) j = Some obj"
  by (force simp: amap_map_of [symmetric])

lemma cancel_object_effects:
  assumes "pending_ok h cs" and "cancel_object enc obj h q = (h', q')"
  shows "map_of (pending h') j =
      (if map_of (pending h) j = Some obj then None else map_of (pending h) j) \<and>
    slots h' j =
      (if map_of (pending h) j = Some obj then Some (Some (Inl CLOSED)) else slots h j)"
proof -
  let ?ids = "map fst (filter (\<lambda>(i, p). p = obj) (pending h))"
  have am: "amap (pending h)" using assms(1) by (simp add: pending_ok_def)
  have "\<forall>i \<in> set ?ids. map_of (pending h) i \<noteq> None \<longrightarrow> slots h i = Some None"
    using assms(1) unfolding pending_ok_def by blast
  from cancel_all_effects [OF this, of enc q h' q' j] assms(2)
  show ?thesis using cancelled_ids [OF am, of j obj]
    by (simp add: cancel_object_def del: set_map)
qed

lemma control_drop:
  "control (snd (call_drop enc c h q)) = control q @
     (if cid c \<in> set (keys (pending h)) \<and> csent c \<and> \<not> oclosed q \<and> length (control q) < 64
      then (case encode enc (cancel_notice (cid c)) of None \<Rightarrow> [] | Some b \<Rightarrow> [b]) else [])"
  by (simp add: call_drop_def try_control_def try_push_control_def push_control_def
      remove_request_def Let_def CONTROL_SLOTS_def split: option.splits)

text \<open>Nothing is left of a call that is not live.\<close>

lemma dead_call:
  assumes "host_inv w" and "map_of (wcalls w) i = None"
  shows "map_of (pending (whost w)) i = None \<and> slots (whost w) i = None \<and>
    (\<forall>k. \<forall>f \<in> set (queued (wout w) k). request_id f \<noteq> Some i)"
proof (intro conjI allI ballI)
  have ok: "pending_ok (whost w) (wcalls w)" "requests_ok (wout w) (wcalls w)"
    using assms(1) by (simp_all add: host_inv_def)
  show "map_of (pending (whost w)) i = None"
    using ok(1) assms(2) unfolding pending_ok_def by (cases "map_of (pending (whost w)) i") fastforce+
  show "slots (whost w) i = None"
    using ok(1) assms(2) unfolding pending_ok_def by (cases "slots (whost w) i") fastforce+
  show "request_id f \<noteq> Some i" if "f \<in> set (queued (wout w) k)" for k f
    using ok(2) assms(2) that unfolding requests_ok_def by fastforce
qed

lemma live_call: "host_inv w \<Longrightarrow> map_of (wcalls w) i = Some c \<Longrightarrow> cid c = i"
  by (simp add: host_inv_def calls_ok_def call_ok_def)

lemma reach_host_inv: "host_inv (fold (host_exec enc) ops (world_new s))"
  by (rule hw.reach_inv) (rule refl)

section \<open>A session for examples\<close>

text \<open>One object of the session \<open>x\<close> begins a call and its request is queued.\<close>

definition demo_ops :: "host_op list" where
  "demo_ops = [HBegin ''o1'' ''read'' Null 5 0, HPoll ''sf:x:1'' False]"

definition demo_call :: call where
  "demo_call = \<lparr>cid = ''sf:x:1'', cobject = ''o1'', csent = True,
     crequest = call_request ''sf:x:1'' ''o1'' ''read'' Null 5 0\<rparr>"

definition demo_frame :: json where
  "demo_frame = jobj [(''id'', String ''sf:x:1''), (''result'', Bool True)]"

lemma demo_call_id: "call_id ''x'' 1 = ''sf:x:1''"
  by (simp add: call_id_def show_nat.simps digit_def)

lemma demo_run:
  "fold (host_exec tiny_enc) demo_ops (world_new ''x'') =
     \<lparr>whost = \<lparr>pending = [(''sf:x:1'', ''o1'')], hnext = 1, session = ''x'', ignored = 0,
        slots = (\<lambda>_. None)(''sf:x:1'' \<mapsto> None)\<rparr>,
      wout = snd (push_data ''o1'' \<lparr>fbytes = ''{}'' @ [newline], request_id = Some ''sf:x:1''\<rparr>
        outbox_new),
      wcalls = [(''sf:x:1'', demo_call)]\<rparr>"
  by (simp add: demo_ops_def world_new_def host_new_def call_begin_def checked_inc_def
      demo_call_id demo_call_def call_poll_def call_await_def outbox_data_def outbox_eval Let_def)

section \<open>Properties\<close>

abbreviation run :: "encoder \<Rightarrow> string \<Rightarrow> host_op list \<Rightarrow> world" where
  "run enc s ops \<equiv> fold (host_exec enc) ops (world_new s)"

text \<open>
  C28: in every state a session can reach, at most 16384 calls are routed, and nothing is
  left of a call that has ended, however it ended (answer, timeout, error, cancellation of
  the guest): no routing entry, no open channel and no queued request carries its
  identifier. A routed call is live and belongs to the object the entry names.
\<close>

theorem host_calls_leave_nothing:
  "let w = run enc s ops in
     length (pending (whost w)) \<le> 16384 \<and>
     (\<forall>i. map_of (wcalls w) i = None \<longrightarrow>
        map_of (pending (whost w)) i = None \<and> slots (whost w) i = None \<and>
        (\<forall>k. \<forall>f \<in> set (queued (wout w) k). request_id f \<noteq> Some i)) \<and>
     (\<forall>i obj. map_of (pending (whost w)) i = Some obj \<longrightarrow>
        (\<exists>c. map_of (wcalls w) i = Some c \<and> cobject c = obj))"
proof -
  let ?w = "run enc s ops"
  have inv: "host_inv ?w" by (rule reach_host_inv)
  then have "pending_ok (whost ?w) (wcalls ?w)" by (simp add: host_inv_def)
  with dead_call [OF inv] show ?thesis unfolding pending_ok_def Let_def by blast
qed

text \<open>
  An identifier is used once. A call that begins gets an identifier that no live call,
  routing entry, channel or queued request of the session has, and a call is refused with
  LIMIT exactly when 16384 calls are routed or the serial number is exhausted.
\<close>

lemma host_call_ids_fresh:
  "let w = run enc s ops; r = call_begin obj capability arguments ms now (whost w) in
     (fst r = Inl LIMIT \<longleftrightarrow>
        16384 \<le> length (pending (whost w)) \<or> unat (hnext (whost w)) = 2 ^ 64 - 1) \<and>
     (\<forall>c. fst r = Inr c \<longrightarrow>
        map_of (wcalls w) (cid c) = None \<and> map_of (pending (whost w)) (cid c) = None \<and>
        slots (whost w) (cid c) = None \<and>
        (\<forall>k. \<forall>f \<in> set (queued (wout w) k). request_id f \<noteq> Some (cid c)))"
proof -
  let ?w = "run enc s ops"
  have inv: "host_inv ?w" by (rule hw.reach_inv) (rule refl)
  then have calls: "calls_ok (whost ?w) (wcalls ?w)" by (simp add: host_inv_def)
  note dead = dead_call [OF inv]
  show ?thesis
    using fresh_id [OF calls] dead
    by (auto simp: call_begin_def checked_inc_def max_u64 Let_def LIMIT_def split: option.splits if_splits)
qed

text \<open>
  C29: an answer is delivered once. When the answer to a routed call arrives, the call's
  next poll returns its result, the value when it respects the JSON limits, LIMIT when
  it does not, and HOST\_ERROR for an error answer; a second answer with the same
  identifier only increments the counter of ignored answers; every other call's entry and
  channel are untouched.
\<close>

theorem host_response_delivered_once:
  assumes "map_of (pending (whost (run enc s ops))) i = Some obj"
    and "map_of (wcalls (run enc s ops)) i = Some c" and "csent c"
    and "request_id_of frame = Some i" and "request_id_of frame2 = Some i"
  shows "let w = run enc s ops; h = host_response enc frame (whost w) in
    fst (call_poll enc expired c h (wout w)) = Returned (response_result enc frame) \<and>
    host_response enc frame2 h = host_ignore h \<and> ignored h = ignored (whost w) \<and>
    (\<forall>j. j \<noteq> i \<longrightarrow> map_of (pending h) j = map_of (pending (whost w)) j \<and>
       slots h j = slots (whost w) j)"
proof -
  let ?w = "run enc s ops"
  have inv: "host_inv ?w" by (rule reach_host_inv)
  then have "slots (whost ?w) i = Some None"
    using assms(1) by (simp add: host_inv_def pending_ok_def)
  moreover have "cid c = i"
    using inv assms(2) by (simp add: host_inv_def calls_ok_def call_ok_def)
  ultimately show ?thesis
    using assms
    by (simp add: host_response_def slot_send_def call_poll_def call_end_def Let_def)
qed

theorem host_response_delivered_once_witness:
  "let w = run tiny_enc ''x'' demo_ops; h = host_response tiny_enc demo_frame (whost w) in
    fst (call_poll tiny_enc False demo_call h (wout w)) =
      Returned (response_result tiny_enc demo_frame) \<and>
    host_response tiny_enc demo_frame h = host_ignore h \<and> ignored h = ignored (whost w) \<and>
    (\<forall>j. j \<noteq> ''sf:x:1'' \<longrightarrow> map_of (pending h) j = map_of (pending (whost w)) j \<and>
       slots h j = slots (whost w) j)"
  by (rule host_response_delivered_once [where obj = "''o1''"])
    (simp_all add: demo_run demo_call_def demo_frame_def request_id_of_def vget_jobj)

text \<open>
  Cancelling an object removes exactly its own routing entries, and each of its calls
  that had sent its request returns CLOSED at its next poll; calls of other objects are
  untouched.
\<close>

lemma host_cancel_object_exact:
  "let w = run enc s ops; h = fst (cancel_object enc obj (whost w) (wout w)) in
     (\<forall>i. map_of (pending h) i =
        (if map_of (pending (whost w)) i = Some obj then None else map_of (pending (whost w)) i)) \<and>
     (\<forall>i. map_of (pending (whost w)) i \<noteq> Some obj \<longrightarrow> slots h i = slots (whost w) i) \<and>
     (\<forall>i c q expired. map_of (pending (whost w)) i = Some obj \<longrightarrow>
        map_of (wcalls w) i = Some c \<longrightarrow> csent c \<longrightarrow>
        fst (call_poll enc expired c h q) = Returned (Inl CLOSED))"
proof -
  let ?w = "run enc s ops"
  have inv: "host_inv ?w" by (rule hw.reach_inv) (rule refl)
  then have pok: "pending_ok (whost ?w) (wcalls ?w)" by (simp add: host_inv_def)
  obtain h q' where can: "cancel_object enc obj (whost ?w) (wout ?w) = (h, q')" by fastforce
  have "cid c = i" if "map_of (wcalls ?w) i = Some c" for i c
    using inv that by (simp add: host_inv_def calls_ok_def call_ok_def)
  with cancel_object_effects [OF pok can] can show ?thesis
    by (simp add: call_poll_def call_end_def Let_def)
qed

text \<open>
  C34: a call that ends while it is still routed and after its request was queued is
  announced to the embedder with \<^verbatim>\<open>host.cancel\<close> if there is room, even when the writer
  never took the request: the request is withdrawn from the queue all the same.
\<close>

theorem host_cancel_sent_for_unwritten_request:
  assumes "map_of (pending (whost (run enc s ops))) i \<noteq> None"
    and "map_of (wcalls (run enc s ops)) i = Some c" and "csent c"
    and "f \<in> set (queued (wout (run enc s ops)) (cobject c))" and "request_id f = Some i"
    and "\<not> oclosed (wout (run enc s ops))" and "length (control (wout (run enc s ops))) < 64"
    and "encode enc (cancel_notice i) = Some b"
  shows "let w = run enc s ops; w' = host_exec enc (HDrop i) w in
    control (wout w') = control (wout w) @ [b] \<and>
    (\<forall>k. \<forall>g \<in> set (queued (wout w') k). request_id g \<noteq> Some i)"
proof -
  let ?w = "run enc s ops"
  have inv: "host_inv ?w" by (rule reach_host_inv)
  have cid: "cid c = i" by (rule live_call [OF inv assms(2)])
  have req: "requests_ok (wout ?w) (wcalls ?w)" using inv by (simp add: host_inv_def)
  obtain h q where drop: "call_drop enc c (whost ?w) (wout ?w) = (h, q)" by fastforce
  have "control q = control (wout ?w) @ [b]"
    using control_drop [of enc c "whost ?w" "wout ?w"] drop assms(1,3,6,7,8) cid
    by (simp add: map_of_eq_None_iff [symmetric])
  moreover have "request_id g \<noteq> Some i" if "g \<in> set (queued q k)" for k g
    using queued_drop [of enc c "whost ?w" "wout ?w" k] drop that cid req assms(2)
    unfolding requests_ok_def by (fastforce split: if_splits)
  ultimately show ?thesis using assms(2) drop by simp
qed

theorem host_cancel_sent_for_unwritten_request_witness:
  "let w = run tiny_enc ''x'' demo_ops; w' = host_exec tiny_enc (HDrop ''sf:x:1'') w in
    control (wout w') = control (wout w) @ [''{}'' @ [newline]] \<and>
    (\<forall>k. \<forall>g \<in> set (queued (wout w') k). request_id g \<noteq> Some ''sf:x:1'')"
  by (rule host_cancel_sent_for_unwritten_request [where c = demo_call and
        f = "\<lparr>fbytes = ''{}'' @ [newline], request_id = Some ''sf:x:1''\<rparr>"])
    (simp_all add: demo_run demo_call_def outbox_eval)

lemma demo_other: "map_of (wcalls (run tiny_enc ''x'' demo_ops)) ''sf:x:2'' = None"
  by (simp add: demo_run)

theorem host_calls_leave_nothing_witness:
  "length (pending (whost (run tiny_enc ''x'' demo_ops))) = 1 \<and>
   slots (whost (run tiny_enc ''x'' demo_ops)) ''sf:x:2'' = None"
proof (rule conjI)
  show "length (pending (whost (run tiny_enc ''x'' demo_ops))) = 1" by (simp add: demo_run)
  show "slots (whost (run tiny_enc ''x'' demo_ops)) ''sf:x:2'' = None"
    using host_calls_leave_nothing [of tiny_enc demo_ops "''x''"] demo_other
    unfolding Let_def by blast
qed

lemma host_call_ids_fresh_witness:
  "\<exists>c. fst (call_begin ''o2'' ''kv'' Null 5 0 (whost (run tiny_enc ''x'' demo_ops))) = Inr c \<and>
     slots (whost (run tiny_enc ''x'' demo_ops)) (cid c) = None"
proof -
  have "unat (hnext (whost (run tiny_enc ''x'' demo_ops))) \<noteq> 2 ^ 64 - 1"
    "\<not> 16384 \<le> length (pending (whost (run tiny_enc ''x'' demo_ops)))"
    by (simp_all add: demo_run)
  then have "fst (call_begin ''o2'' ''kv'' Null 5 0 (whost (run tiny_enc ''x'' demo_ops))) \<noteq> Inl LIMIT"
    using host_call_ids_fresh [of tiny_enc demo_ops "''x''" "''o2''" "''kv''" Null 5 0]
    unfolding Let_def by blast
  then obtain c where
    "fst (call_begin ''o2'' ''kv'' Null 5 0 (whost (run tiny_enc ''x'' demo_ops))) = Inr c"
    by (auto simp: call_begin_def Let_def split: if_splits option.splits)
  with host_call_ids_fresh [of tiny_enc demo_ops "''x''" "''o2''" "''kv''" Null 5 0] show ?thesis
    unfolding Let_def by blast
qed

lemma host_cancel_object_exact_witness:
  "fst (call_poll tiny_enc False demo_call
     (fst (cancel_object tiny_enc ''o1'' (whost (run tiny_enc ''x'' demo_ops))
        (wout (run tiny_enc ''x'' demo_ops)))) outbox_new) = Returned (Inl CLOSED)"
proof -
  have "map_of (pending (whost (run tiny_enc ''x'' demo_ops))) ''sf:x:1'' = Some ''o1''"
    "map_of (wcalls (run tiny_enc ''x'' demo_ops)) ''sf:x:1'' = Some demo_call" "csent demo_call"
    by (simp_all add: demo_run demo_call_def)
  with host_cancel_object_exact [of tiny_enc demo_ops "''x''" "''o1''"] show ?thesis
    unfolding Let_def by blast
qed

end
