(* ===== verification/Mailbox.thy ===== *)
theory Mailbox
  imports Errors Interfaces
begin

text \<open>
  The event mailbox of an object (\<^verbatim>\<open>Mailbox\<close> in \<^verbatim>\<open>src/runtime.rs\<close>): a queue bounded in
  entries and bytes, with a window of the last 128 accepted event identifiers that makes
  redelivery harmless. \<^verbatim>\<open>receive\<close> is one pass of its loop: \<open>None\<close> is the case in which the
  code awaits the next notification and tries again. The field \<open>changed\<close> counts the
  \<^verbatim>\<open>notify_one\<close> calls made.
\<close>

record mailbox =
  entries :: "(json \<times> nat) list"
  mbytes :: nat
  recent :: "string list"
  changed :: nat

definition mailbox_new :: mailbox where
  "mailbox_new = \<lparr>entries = [], mbytes = 0, recent = [], changed = 0\<rparr>"

definition accept_reply :: "bool \<Rightarrow> json" where
  "accept_reply dup = jobj [(''accepted'', Bool True), (''duplicate'', Bool dup)]"

definition mailbox_deliver :: "encoder \<Rightarrow> json \<Rightarrow> mailbox \<Rightarrow> rpc_result \<times> mailbox" where
  "mailbox_deliver enc event m =
     (case as_str (vindex event ''event_id'') of
        None \<Rightarrow> (Inl (rpc_params ''event_id must be a string''), m)
      | Some event_id \<Rightarrow>
          if 128 < length event_id then (Inl (rpc_params ''event_id too long''), m)
          else if event_id \<in> set (recent m) then (Inr (accept_reply True), m)
          else case enc event of
              Inl e \<Rightarrow> (Inl (rpc_params e), m)
            | Inr s \<Rightarrow>
                let n = length s in
                if MAX_VALUE_BYTES < n then (Inl (rpc_params ''event exceeds 16 KiB''), m)
                else if 32 \<le> length (entries m) \<or> 32 * 1024 < mbytes m + n
                then (Inl (rpc_error_new (- 32002) ''MAILBOX_FULL'' ''mailbox is full''), m)
                else
                  (Inr (accept_reply False),
                   m\<lparr>entries := entries m @ [(event, n)],
                     mbytes := mbytes m + n,
                     recent := (if length (recent m) = 128 then tl (recent m) else recent m)
                               @ [event_id],
                     changed := changed m + 1\<rparr>))"

definition mailbox_receive :: "mailbox \<Rightarrow> json option \<times> mailbox" where
  "mailbox_receive m =
     (case entries m of
        [] \<Rightarrow> (None, m)
      | (v, n) # rest \<Rightarrow> (Some v, m\<lparr>entries := rest, mbytes := mbytes m - n\<rparr>))"

definition mailbox_clear :: "mailbox \<Rightarrow> mailbox" where
  "mailbox_clear m = m\<lparr>entries := [], mbytes := 0, recent := []\<rparr>"

definition mailbox_len :: "mailbox \<Rightarrow> nat" where
  "mailbox_len m = length (entries m)"

definition mailbox_is_empty :: "mailbox \<Rightarrow> bool" where
  "mailbox_is_empty m = (mailbox_len m = 0)"

section \<open>The replies\<close>

lemma accept_reply_inject [simp]: "accept_reply a = accept_reply b \<longleftrightarrow> a = b"
proof
  assume "accept_reply a = accept_reply b"
  then have "vget (accept_reply a) ''duplicate'' = vget (accept_reply b) ''duplicate''" by simp
  then show "a = b" by (simp add: accept_reply_def vget_jobj)
qed simp

text \<open>The identifier of an event, and what it takes for an event to be admitted.\<close>

definition event_id :: "json \<Rightarrow> string option" where
  "event_id event = as_str (vindex event ''event_id'')"

definition admits :: "encoder \<Rightarrow> mailbox \<Rightarrow> json \<Rightarrow> bool" where
  "admits enc m event \<longleftrightarrow>
     (\<exists>i s. event_id event = Some i \<and> length i \<le> 128 \<and> i \<notin> set (recent m) \<and>
        enc event = Inr s \<and> length s \<le> MAX_VALUE_BYTES \<and>
        length (entries m) < 32 \<and> mbytes m + length s \<le> 32 * 1024)"

definition window_push :: "string list \<Rightarrow> string \<Rightarrow> string list" where
  "window_push w i = (if length w = 128 then tl w else w) @ [i]"

lemma deliver_admitted:
  assumes "event_id event = Some i" "enc event = Inr s" "admits enc m event"
  shows "mailbox_deliver enc event m =
    (Inr (accept_reply False),
     m\<lparr>entries := entries m @ [(event, length s)], mbytes := mbytes m + length s,
       recent := window_push (recent m) i, changed := changed m + 1\<rparr>)"
  using assms by (auto simp: mailbox_deliver_def admits_def event_id_def window_push_def Let_def)

lemma deliver_refused:
  assumes "\<not> admits enc m event"
  shows "snd (mailbox_deliver enc event m) = m"
    and "fst (mailbox_deliver enc event m) \<noteq> Inr (accept_reply False)"
  using assms
  by (auto simp: mailbox_deliver_def admits_def event_id_def Let_def
      split: option.splits sum.splits)

lemma deliver_accepts_iff:
  "fst (mailbox_deliver enc event m) = Inr (accept_reply False) \<longleftrightarrow> admits enc m event"
  using deliver_refused deliver_admitted
  by (metis admits_def fst_conv)

section \<open>The invariant\<close>

text \<open>
  The byte counter is exact, the bounds hold, and the identifiers of the queued events
  are the newest ones of the window: so no two queued events share an identifier.
\<close>

definition mailbox_inv :: "encoder \<Rightarrow> mailbox \<Rightarrow> bool" where
  "mailbox_inv enc m \<longleftrightarrow>
     length (entries m) \<le> 32 \<and>
     mbytes m = sum_list (map snd (entries m)) \<and> mbytes m \<le> 32 * 1024 \<and>
     (\<forall>(v, n) \<in> set (entries m). \<exists>s. enc v = Inr s \<and> length s = n \<and> n \<le> MAX_VALUE_BYTES) \<and>
     length (recent m) \<le> 128 \<and> distinct (recent m) \<and>
     (\<forall>i \<in> set (recent m). length i \<le> 128) \<and>
     (\<exists>older. map Some (recent m) = map Some older @ map (event_id \<circ> fst) (entries m))"

lemma mailbox_inv_new [simp]: "mailbox_inv enc mailbox_new"
  by (simp add: mailbox_inv_def mailbox_new_def)

lemma mailbox_inv_clear: "mailbox_inv enc (mailbox_clear m)"
  by (simp add: mailbox_inv_def mailbox_clear_def)

lemma mailbox_inv_receive:
  assumes "mailbox_inv enc m"
  shows "mailbox_inv enc (snd (mailbox_receive m))"
proof (cases "entries m")
  case Nil
  with assms show ?thesis by (simp add: mailbox_receive_def)
next
  case (Cons p rest)
  obtain v n where p: "p = (v, n)" by fastforce
  from assms Cons p obtain older i where
    "map Some (recent m) = map Some older @ event_id v # map (event_id \<circ> fst) rest"
    "event_id v = Some i"
    by (fastforce simp: mailbox_inv_def map_eq_append_conv map_eq_Cons_conv)
  then have "map Some (recent m) = map Some (older @ [i]) @ map (event_id \<circ> fst) rest" by simp
  with assms Cons p show ?thesis
    unfolding mailbox_inv_def mailbox_receive_def by (auto simp del: map_append)
qed

lemma window_suffix:
  assumes "map Some w = map Some older @ xs" and "length xs < 128" and "length w \<le> 128"
  shows "\<exists>older'. map Some (window_push w i) = map Some older' @ xs @ [Some i]"
proof (cases "length w = 128")
  case True
  with assms have "older \<noteq> []"
    by (metis append_Nil length_map less_irrefl list.simps(8))
  then obtain a older' where "older = a # older'" by (cases older) auto
  with assms True show ?thesis
    by (intro exI [of _ older']) (cases w, auto simp: window_push_def)
next
  case False
  with assms show ?thesis by (intro exI [of _ older]) (simp add: window_push_def)
qed

lemma window_push_facts:
  assumes "length w \<le> 128" "distinct w" "i \<notin> set w"
  shows "length (window_push w i) \<le> 128" "distinct (window_push w i)"
    "set (window_push w i) \<subseteq> insert i (set w)"
  using assms by (cases w; auto simp: window_push_def)+

lemma mailbox_inv_deliver:
  assumes "mailbox_inv enc m"
  shows "mailbox_inv enc (snd (mailbox_deliver enc event m))"
proof (cases "admits enc m event")
  case False
  with assms show ?thesis by (simp add: deliver_refused)
next
  case True
  then obtain i s where i: "event_id event = Some i" "length i \<le> 128" "i \<notin> set (recent m)"
    and s: "enc event = Inr s" "length s \<le> MAX_VALUE_BYTES" "length (entries m) < 32"
      "mbytes m + length s \<le> 32 * 1024"
    by (auto simp: admits_def)
  from assms obtain older where
    "map Some (recent m) = map Some older @ map (event_id \<circ> fst) (entries m)"
    by (auto simp: mailbox_inv_def)
  with window_suffix [OF this, of i] s assms obtain older' where
    "map Some (window_push (recent m) i)
       = map Some older' @ map (event_id \<circ> fst) (entries m) @ [Some i]"
    by (auto simp: mailbox_inv_def)
  with assms i s window_push_facts [of "recent m" i] show ?thesis
    unfolding deliver_admitted [OF i(1) s(1) True] mailbox_inv_def by fastforce
qed

lemma mailbox_inv_distinct:
  assumes "mailbox_inv enc m"
  shows "distinct (map (event_id \<circ> fst) (entries m))"
proof -
  from assms have "distinct (map Some (recent m))"
    by (simp add: mailbox_inv_def distinct_map)
  moreover from assms obtain older where
    "map Some (recent m) = map Some older @ map (event_id \<circ> fst) (entries m)"
    by (auto simp: mailbox_inv_def)
  ultimately show ?thesis by (metis distinct_append)
qed

section \<open>The mailbox as a machine and as a channel\<close>

datatype mailbox_op = Deliver json | Receive | Clear

fun mailbox_exec :: "encoder \<Rightarrow> mailbox_op \<Rightarrow> mailbox \<Rightarrow> mailbox" where
  "mailbox_exec enc (Deliver e) m = snd (mailbox_deliver enc e m)"
| "mailbox_exec enc Receive m = snd (mailbox_receive m)"
| "mailbox_exec enc Clear m = mailbox_clear m"

lemma mailbox_inv_exec: "mailbox_inv enc m \<Longrightarrow> mailbox_inv enc (mailbox_exec enc op m)"
  by (cases op) (simp_all add: mailbox_inv_deliver mailbox_inv_receive mailbox_inv_clear)

interpretation mbox: machine "\<lambda>m. m = mailbox_new" "mailbox_exec enc" "mailbox_inv enc" for enc
  by unfold_locales (auto simp: mailbox_inv_exec)

definition mailbox_put :: "encoder \<Rightarrow> json \<Rightarrow> mailbox \<Rightarrow> bool \<times> mailbox" where
  "mailbox_put enc e m =
     (case mailbox_deliver enc e m of (r, m') \<Rightarrow> (r = Inr (accept_reply False), m'))"

lemma mailbox_put_contents:
  "map fst (entries (snd (mailbox_put enc e m))) =
     (if fst (mailbox_put enc e m) then map fst (entries m) @ [e] else map fst (entries m))"
proof (cases "admits enc m e")
  case True
  then obtain i s where "event_id e = Some i" "enc e = Inr s" by (auto simp: admits_def)
  from deliver_admitted [OF this True] show ?thesis by (simp add: mailbox_put_def)
next
  case False
  then show ?thesis
    using deliver_refused [OF False] by (simp add: mailbox_put_def case_prod_beta)
qed

interpretation mq: fifo "mailbox_put enc" mailbox_receive "\<lambda>(_ :: unit) m. m"
    "map fst \<circ> entries" "mailbox_inv enc" for enc
proof unfold_locales
  fix s e
  assume inv: "mailbox_inv enc s"
  show "mailbox_inv enc (snd (mailbox_put enc e s))"
    using mailbox_inv_deliver [OF inv, of e] by (simp add: mailbox_put_def case_prod_beta)
  show "(map fst \<circ> entries) (snd (mailbox_put enc e s)) =
      (if fst (mailbox_put enc e s) then (map fst \<circ> entries) s @ [e] else (map fst \<circ> entries) s)"
    using mailbox_put_contents [of enc e s] by simp
  show "mailbox_inv enc (snd (mailbox_receive s))" by (rule mailbox_inv_receive [OF inv])
  show "(map fst \<circ> entries) s =
      (case fst (mailbox_receive s) of None \<Rightarrow> [] | Some e \<Rightarrow> [e]) @
      (map fst \<circ> entries) (snd (mailbox_receive s))"
    by (auto simp: mailbox_receive_def split: list.splits)
qed simp_all

section \<open>The abstract mailbox: a history and a position\<close>

text \<open>
  What a mailbox promises, without its bookkeeping: the list of all events accepted since
  the last \<^verbatim>\<open>clear\<close> and how many of them have been received. The queue is the part not yet
  received, the window is the identifiers of the last 128 accepted events, received or not.
\<close>

type_synonym history = "json list \<times> nat"

definition lastn :: "nat \<Rightarrow> 'a list \<Rightarrow> 'a list" where
  "lastn n xs = drop (length xs - n) xs"

definition enc_len :: "encoder \<Rightarrow> json \<Rightarrow> nat" where
  "enc_len enc v = (case enc v of Inl _ \<Rightarrow> 0 | Inr s \<Rightarrow> length s)"

definition hist_admits :: "encoder \<Rightarrow> history \<Rightarrow> json \<Rightarrow> bool" where
  "hist_admits enc h e =
     (case (event_id e, enc e) of
        (Some i, Inr s) \<Rightarrow>
          length i \<le> 128 \<and> Some i \<notin> set (map event_id (lastn 128 (fst h))) \<and>
          length s \<le> MAX_VALUE_BYTES \<and> length (drop (snd h) (fst h)) < 32 \<and>
          sum_list (map (enc_len enc) (drop (snd h) (fst h))) + length s \<le> 32 * 1024
      | _ \<Rightarrow> False)"

fun hist_exec :: "encoder \<Rightarrow> mailbox_op \<Rightarrow> history \<Rightarrow> history" where
  "hist_exec enc (Deliver e) h = (if hist_admits enc h e then (fst h @ [e], snd h) else h)"
| "hist_exec enc Receive h = (fst h, min (length (fst h)) (Suc (snd h)))"
| "hist_exec enc Clear h = ([], 0)"

definition represents :: "mailbox \<Rightarrow> history \<Rightarrow> bool" where
  "represents m h \<longleftrightarrow>
     map fst (entries m) = drop (snd h) (fst h) \<and> snd h \<le> length (fst h) \<and>
     map Some (recent m) = map event_id (lastn 128 (fst h))"

lemma lastn_snoc:
  "lastn 128 (xs @ [x]) = (if length (lastn 128 xs) = 128 then tl (lastn 128 xs) else lastn 128 xs) @ [x]"
proof (cases "128 \<le> length xs")
  case True
  then have "Suc (length xs) - 128 = Suc (length xs - 128)" by simp
  with True show ?thesis by (simp add: lastn_def drop_Suc tl_drop)
qed (simp add: lastn_def)

lemma represents_push:
  assumes "map Some w = map event_id (lastn 128 h)" and "event_id e = Some i"
  shows "map Some (window_push w i) = map event_id (lastn 128 (h @ [e]))"
proof -
  from assms(1) have "length w = length (lastn 128 h)" by (metis length_map)
  with assms show ?thesis by (simp add: window_push_def lastn_snoc map_tl)
qed

lemma mailbox_sizes:
  assumes "mailbox_inv enc m"
  shows "mbytes m = sum_list (map (enc_len enc) (map fst (entries m)))"
proof -
  from assms have "\<forall>p \<in> set (entries m). snd p = enc_len enc (fst p)"
    by (fastforce simp: mailbox_inv_def enc_len_def)
  then have "map snd (entries m) = map (enc_len enc) (map fst (entries m))" by simp
  with assms show ?thesis unfolding mailbox_inv_def by metis
qed

lemma admits_history:
  assumes "mailbox_inv enc m" and "represents m h"
  shows "admits enc m e = hist_admits enc h e"
proof -
  have "Some i \<in> set (map event_id (lastn 128 (fst h))) \<longleftrightarrow> i \<in> set (recent m)" for i
    using assms(2) unfolding represents_def
    by (metis (no_types) inj_Some inj_image_mem_iff list.set_map)
  moreover have "length (entries m) = length (drop (snd h) (fst h))"
    using assms(2) unfolding represents_def by (metis length_map)
  moreover have "mbytes m = sum_list (map (enc_len enc) (drop (snd h) (fst h)))"
    using assms mailbox_sizes [OF assms(1)] by (simp add: represents_def)
  ultimately show ?thesis
    by (auto simp: admits_def hist_admits_def split: option.splits sum.splits)
qed

lemma represents_exec:
  assumes inv: "mailbox_inv enc m" and rep: "represents m h"
  shows "represents (mailbox_exec enc op m) (hist_exec enc op h)"
proof (cases op)
  case (Deliver e)
  show ?thesis
  proof (cases "admits enc m e")
    case True
    then obtain i s where "event_id e = Some i" "enc e = Inr s" by (auto simp: admits_def)
    with True rep admits_history [OF assms, of e] represents_push Deliver show ?thesis
      by (simp add: deliver_admitted represents_def)
  next
    case False
    with rep admits_history [OF assms, of e] Deliver show ?thesis
      by (simp add: deliver_refused)
  qed
next
  case Receive
  show ?thesis
  proof (cases "entries m")
    case Nil
    with rep Receive show ?thesis by (simp add: represents_def mailbox_receive_def)
  next
    case (Cons p rest)
    then have "drop (snd h) (fst h) = fst p # map fst rest"
      using rep by (simp add: represents_def)
    then have "drop (Suc (snd h)) (fst h) = map fst rest" and "Suc (snd h) \<le> length (fst h)"
      by (metis drop_Suc list.sel(3) tl_drop)
        (metis Suc_leI drop_all leI list.distinct(1) \<open>drop (snd h) (fst h) = fst p # map fst rest\<close>)
    with Cons rep Receive show ?thesis
      by (cases p) (simp add: represents_def mailbox_receive_def min_absorb2)
  qed
next
  case Clear
  then show ?thesis by (simp add: represents_def mailbox_clear_def lastn_def)
qed

lemma represents_run:
  "mailbox_inv enc m \<Longrightarrow> represents m h \<Longrightarrow>
   represents (fold (mailbox_exec enc) ops m) (fold (hist_exec enc) ops h)"
  by (induction ops arbitrary: m h) (simp_all add: represents_exec mailbox_inv_exec)

lemma represents_new: "represents mailbox_new ([], 0)"
  by (simp add: represents_def mailbox_new_def lastn_def)

section \<open>Properties\<close>


text \<open>
  C36: the mailbox implements the history: after any sequence of operations the queue is
  the accepted events not yet received, in the order of acceptance, and the window is the
  identifiers of the last 128 accepted events, whether or not they were consumed.
\<close>

theorem mailbox_refines_history:
  "represents (fold (mailbox_exec enc) ops mailbox_new) (fold (hist_exec enc) ops ([], 0))"
  by (rule represents_run) (simp_all add: represents_new)

text \<open>
  An event is answered as a duplicate, without any change, exactly when its identifier
  is one of the last 128 accepted ones; it is accepted exactly when it is new and fits.
\<close>

lemma mailbox_deduplicates:
  assumes "event_id e = Some i" and "length i \<le> 128"
  shows "let m = fold (mailbox_exec enc) ops mailbox_new; h = fold (hist_exec enc) ops ([], 0) in
    (fst (mailbox_deliver enc e m) = Inr (accept_reply True) \<longleftrightarrow>
       Some i \<in> set (map event_id (lastn 128 (fst h)))) \<and>
    (fst (mailbox_deliver enc e m) = Inr (accept_reply False) \<longleftrightarrow> hist_admits enc h e) \<and>
    (fst (mailbox_deliver enc e m) \<noteq> Inr (accept_reply False) \<longrightarrow>
       snd (mailbox_deliver enc e m) = m)"
proof -
  let ?m = "fold (mailbox_exec enc) ops mailbox_new" and ?h = "fold (hist_exec enc) ops ([], 0)"
  have rep: "represents ?m ?h" by (rule represents_run) (simp_all add: represents_new)
  have inv: "mailbox_inv enc ?m" by (rule mbox.reach_inv) (rule refl)
  have "Some i \<in> set (map event_id (lastn 128 (fst ?h))) \<longleftrightarrow> i \<in> set (recent ?m)"
    using rep unfolding represents_def
    by (metis (no_types) inj_Some inj_image_mem_iff list.set_map)
  moreover have "fst (mailbox_deliver enc e ?m) = Inr (accept_reply True) \<longleftrightarrow> i \<in> set (recent ?m)"
    using assms
    by (auto simp: mailbox_deliver_def event_id_def Let_def split: sum.splits)
  ultimately show ?thesis
    using deliver_accepts_iff [of enc e ?m] admits_history [OF inv rep, of e]
      deliver_refused(1) [of enc ?m e]
    by (simp add: Let_def)
qed

lemma mailbox_deduplicates_witness:
  "fst (mailbox_deliver tiny_enc (jobj [(''event_id'', String ''e1'')])
     (fold (mailbox_exec tiny_enc) [Deliver (jobj [(''event_id'', String ''e1'')])] mailbox_new)) =
   Inr (accept_reply True)"
proof -
  let ?e = "jobj [(''event_id'', String ''e1'')]"
  have i: "event_id ?e = Some ''e1''" by (simp add: event_id_def vindex_def vget_jobj)
  have "Some ''e1'' \<in> set (map event_id (lastn 128
      (fst (fold (hist_exec tiny_enc) [Deliver ?e] ([], 0)))))"
    using i by (simp add: hist_admits_def lastn_def enc_len_def tiny_enc_def MAX_VALUE_BYTES_def)
  then show ?thesis
    using mailbox_deduplicates [OF i, of tiny_enc "[Deliver ?e]"] unfolding Let_def by simp
qed

end
