(* ===== verification/Guest.thy ===== *)
theory Guest
  imports Outbox
begin

text \<open>
  What a guest program's helpers work on (\<^verbatim>\<open>src/helpers.rs\<close>): the table of owned handles,
  the log window and the wait reason. Handle numbers come from one counter of the process.

  The virtual machine (async-ebpf) is not modelled. What the helpers use of it is the
  record \<open>env\<close>: checked access to guest memory, serde-json's printer and parser, and the
  clocks. \<open>user_memory m p n\<close> is the slice of \<open>n\<close> bytes at \<open>p\<close> or a refusal;
  \<open>user_memory_mut m p n\<close> is a writable slice of \<open>n\<close> bytes, given as the function that
  stores bytes at its start. A helper either faults the guest (\<^verbatim>\<open>Err(())\<close>), returns a
  register value, or posts an asynchronous task that will supply the value.
\<close>

section \<open>Environment and state\<close>

record 'm env =
  user_memory :: "'m \<Rightarrow> u64 \<Rightarrow> u64 \<Rightarrow> bytes option"
  user_memory_mut :: "'m \<Rightarrow> u64 \<Rightarrow> u64 \<Rightarrow> (bytes \<Rightarrow> 'm) option"
  to_vec :: encoder
  from_str :: parser
  now_ns :: nat
  unix_ns :: int

datatype handle = Json json | Bytes bytes

record capability =
  cap_name :: string
  cap_arguments :: "(string \<times> json) list"

record guest =
  gid :: string
  gconfig :: json
  capabilities :: "capability list"
  handles :: "(u64 \<times> handle) list"
  gstarted :: nat
  log_window :: nat
  logs :: nat

text \<open>
  The state a helper sees: the context among the resources of the invocation (if there is
  one), the process-wide handle counter, the shared outbox and wait cell, and the memory.
\<close>

record 'm hworld =
  wguest :: "guest option"
  next_handle :: u64
  hout :: outbox
  hwait :: string
  mem :: 'm

datatype task =
    SleepTask u64
  | YieldTask
  | EventTask u64
  | CallTask string string json u64

datatype 'm hres = Fault | Ret u64 "'m hworld" | Post task "'m hworld"

type_synonym 'm helper =
  "'m env \<Rightarrow> 'm hworld \<Rightarrow> u64 \<Rightarrow> u64 \<Rightarrow> u64 \<Rightarrow> u64 \<Rightarrow> u64 \<Rightarrow> 'm hres"

definition guest_new :: "string \<Rightarrow> json \<Rightarrow> capability list \<Rightarrow> nat \<Rightarrow> guest" where
  "guest_new i config caps now =
     \<lparr>gid = i, gconfig = config, capabilities = caps, handles = [],
      gstarted = now, log_window = now, logs = 0\<rparr>"

definition MAX_HANDLES :: nat where
  "MAX_HANDLES = 128"

definition I64_MAX :: u64 where
  "I64_MAX = 0x7FFFFFFFFFFFFFFF"

section \<open>The context operations\<close>

definition insert_handle :: "handle \<Rightarrow> guest \<Rightarrow> 'm hworld \<Rightarrow> 'm hres" where
  "insert_handle v c w =
     (if MAX_HANDLES \<le> length (handles c) then Ret (status LIMIT) w
      else if \<not> next_handle w < I64_MAX then Ret (status LIMIT) w
      else Ret (next_handle w)
        (w\<lparr>wguest := Some (c\<lparr>handles := AList.update (next_handle w) v (handles c)\<rparr>),
           next_handle := next_handle w + 1\<rparr>))"

definition json_of :: "guest \<Rightarrow> u64 \<Rightarrow> json option" where
  "json_of c h = (case map_of (handles c) h of Some (Json v) \<Rightarrow> Some v | _ \<Rightarrow> None)"

definition ctx :: "'m hworld \<Rightarrow> (guest \<Rightarrow> 'm hres) \<Rightarrow> 'm hres" where
  "ctx w f = (case wguest w of None \<Rightarrow> Fault | Some c \<Rightarrow> f c)"

definition guest_text :: "'m env \<Rightarrow> 'm hworld \<Rightarrow> u64 \<Rightarrow> u64 \<Rightarrow> string option" where
  "guest_text e w p n =
     (if of_nat MAX_VALUE_BYTES < n then None
      else case user_memory e (mem w) p n of
          None \<Rightarrow> None
        | Some b \<Rightarrow> if utf8 b then Some b else None)"

text \<open>\<^verbatim>\<open>let x = text(...)?;\<close> faults the guest when there is no text.\<close>

definition with_text ::
    "'m env \<Rightarrow> 'm hworld \<Rightarrow> u64 \<Rightarrow> u64 \<Rightarrow> (string \<Rightarrow> 'm hres) \<Rightarrow> 'm hres" where
  "with_text e w p n f = (case guest_text e w p n of None \<Rightarrow> Fault | Some s \<Rightarrow> f s)"

definition wait_for :: "string \<Rightarrow> 'm hworld \<Rightarrow> 'm hworld" where
  "wait_for reason w = w\<lparr>hwait := reason\<rparr>"

text \<open>Dropping the guard that \<^verbatim>\<open>wait\<close> returns.\<close>

definition wait_over :: "'m hworld \<Rightarrow> 'm hworld" where
  "wait_over w = w\<lparr>hwait := ''none''\<rparr>"

definition timeout_ms :: "u64 \<Rightarrow> u64" where
  "timeout_ms n = min n 86400000"

section \<open>The invariant\<close>

text \<open>
  At most 128 handles, each a positive signed number below the counter; at most ten log
  attempts in a window.
\<close>

definition guest_ok :: "guest \<Rightarrow> u64 \<Rightarrow> bool" where
  "guest_ok c n \<longleftrightarrow>
     amap (handles c) \<and> length (handles c) \<le> MAX_HANDLES \<and> logs c \<le> 10 \<and>
     (\<forall>h v. map_of (handles c) h = Some v \<longrightarrow> 0 < h \<and> h < n)"

definition guest_inv :: "'m hworld \<Rightarrow> bool" where
  "guest_inv w \<longleftrightarrow>
     0 < next_handle w \<and> next_handle w \<le> I64_MAX \<and> outbox_inv (hout w) \<and>
     (\<forall>c. wguest w = Some c \<longrightarrow> guest_ok c (next_handle w))"

definition res_inv :: "('m hworld \<Rightarrow> bool) \<Rightarrow> 'm hres \<Rightarrow> bool" where
  "res_inv P r = (case r of Fault \<Rightarrow> True | Ret v w \<Rightarrow> P w | Post t w \<Rightarrow> P w)"

lemma res_inv_simps [simp]:
  "res_inv P Fault" "res_inv P (Ret v w) = P w" "res_inv P (Post t w) = P w"
  by (simp_all add: res_inv_def)

lemma res_inv_ctx [intro]: "(\<And>c. wguest w = Some c \<Longrightarrow> res_inv P (f c)) \<Longrightarrow> res_inv P (ctx w f)"
  by (simp add: ctx_def split: option.splits)

lemma res_inv_text [intro]: "(\<And>s. res_inv P (f s)) \<Longrightarrow> res_inv P (with_text e w p n f)"
  by (simp add: with_text_def split: option.splits)

lemma inc_handle:
  assumes "n < I64_MAX"
  shows "n < n + 1" "n + 1 \<le> I64_MAX" "0 < n + 1"
proof -
  have "unat n < 2 ^ 63 - 1" using assms by (simp add: I64_MAX_def word_less_nat_alt)
  then have "n \<noteq> - 1" by (intro notI) (simp add: unat_max_u64)
  from unat_inc [OF this] \<open>unat n < 2 ^ 63 - 1\<close>
  show "n < n + 1" "n + 1 \<le> I64_MAX" "0 < n + 1"
    by (simp_all add: I64_MAX_def word_less_nat_alt word_le_nat_alt)
qed

lemma guest_inv_insert:
  assumes "guest_inv w" and "wguest w = Some c"
  shows "res_inv guest_inv (insert_handle v c w)"
proof (cases "MAX_HANDLES \<le> length (handles c) \<or> \<not> next_handle w < I64_MAX")
  case True
  with assms show ?thesis by (auto simp: insert_handle_def)
next
  case False
  then have lt: "next_handle w < I64_MAX" by simp
  have "guest_ok (c\<lparr>handles := AList.update (next_handle w) v (handles c)\<rparr>) (next_handle w + 1)"
    using assms False inc_handle [OF lt]
    by (auto simp: guest_inv_def guest_ok_def length_update intro: less_trans)
  with assms False inc_handle [OF lt] show ?thesis
    by (simp add: insert_handle_def guest_inv_def)
qed

text \<open>A handle of the table replaced, or removed.\<close>

lemma guest_inv_replace:
  assumes "guest_inv w" "wguest w = Some c" "map_of (handles c) h \<noteq> None"
  shows "guest_inv (w\<lparr>wguest := Some (c\<lparr>handles := AList.update h v (handles c)\<rparr>)\<rparr>)"
proof -
  have ok: "guest_ok c (next_handle w)" using assms(1,2) by (simp add: guest_inv_def)
  have "length (AList.update h v (handles c)) = length (handles c)"
    using assms(3) unfolding length_update mem_keys_map_of by simp
  with ok assms(3) have "guest_ok (c\<lparr>handles := AList.update h v (handles c)\<rparr>) (next_handle w)"
    by (auto simp: guest_ok_def)
  with assms(1) show ?thesis by (simp add: guest_inv_def)
qed

lemma guest_inv_remove:
  assumes "guest_inv w" "wguest w = Some c"
  shows "guest_inv (w\<lparr>wguest := Some (c\<lparr>handles := AList.delete h (handles c)\<rparr>)\<rparr>)"
  using assms order_trans [OF length_delete]
  by (auto simp: guest_inv_def guest_ok_def)

lemma guest_inv_frame [simp]:
  "guest_inv (w\<lparr>hwait := r\<rparr>) = guest_inv w"
  "guest_inv (w\<lparr>mem := m\<rparr>) = guest_inv w"
  "guest_inv (wait_for r w) = guest_inv w"
  "guest_inv (wait_over w) = guest_inv w"
  by (simp_all add: guest_inv_def wait_for_def wait_over_def)

text \<open>
  A handle that \<open>insert_handle\<close> returns is a positive \<^verbatim>\<open>i64\<close> and was not in the table;
  any other return value is negative.
\<close>

lemma positive_handle:
  assumes "0 < n" "n < I64_MAX"
  shows "0 < sint n"
proof -
  have n: "0 < unat n" "unat n < 2 ^ 63 - 1"
    using assms by (simp_all add: I64_MAX_def word_less_nat_alt)
  have u: "uint n = int (unat n)" by simp
  have low: "- (2 ^ 63) \<le> int (unat n)" by (rule order_trans [OF _ of_nat_0_le_iff]) simp
  from n(2) have "unat n < 2 ^ 63" by simp
  then have "int (unat n) < 2 ^ 63" by (metis of_nat_less_iff of_nat_numeral of_nat_power)
  then have "sint n = int (unat n)"
    unfolding sint_uint u
    by (intro signed_take_bit_int_eq_self) (use low in simp_all)
  with n(1) show ?thesis by (simp only: of_nat_0_less_iff)
qed

lemma status_negative [simp]:
  "sint (status INVALID) = - 1" "sint (status LIMIT) = - 2" "sint (status TIMEOUT) = - 3"
  "sint (status DENIED) = - 4" "sint (status HOST_ERROR) = - 5" "sint (status CLOSED) = - 6"
  by (simp_all add: sint_status status_codes)

lemma insert_handle_result:
  assumes "guest_inv w" "wguest w = Some c" "insert_handle v c w = Ret r w'"
  shows "0 < sint r \<and> map_of (handles c) r = None \<and>
      (\<exists>c'. wguest w' = Some c' \<and> map_of (handles c') = (map_of (handles c))(r \<mapsto> v)) \<or>
    r = status LIMIT \<and> w' = w"
proof (cases "MAX_HANDLES \<le> length (handles c) \<or> \<not> next_handle w < I64_MAX")
  case True
  with assms(3) have "r = status LIMIT \<and> w' = w"
    unfolding insert_handle_def by (cases "MAX_HANDLES \<le> length (handles c)") simp_all
  then show ?thesis by blast
next
  case False
  with assms(3) have r: "r = next_handle w" by (simp add: insert_handle_def)
  have "map_of (handles c) r = None"
    using assms(1,2) r unfolding guest_inv_def guest_ok_def
    by (metis less_irrefl not_None_eq)
  with False assms r positive_handle [of r] show ?thesis
    by (auto simp: insert_handle_def guest_inv_def)
qed

end
