(* ===== verification/Lifecycle.thy ===== *)
theory Lifecycle
  imports HostCalls Mailbox Guest OutboxOrder
begin

text \<open>
  Objects and the runtime (\<^verbatim>\<open>src/runtime.rs\<close>): loading, starting, running, stopping and
  unloading, and what an object that has ended leaves behind.

  All code runs on one thread. A future is modelled by its segments between awaits, each a
  function on the runtime's state: \<open>load_begin\<close> and \<open>load_finish\<close> around the loader's
  thread, \<open>task_poll\<close> for one poll of an object's task, \<open>object_stop_poll\<close> for one pass of
  \<^verbatim>\<open>stop\<close>. The shared objects (\<^verbatim>\<open>Rc<Object>\<close>) live in \<open>heap\<close>, addressed by their identifier,
  which is never reused; \<open>registered\<close> is the sorted key set of \<^verbatim>\<open>Runtime::objects\<close>. The
  program loader and the digest are the parameters \<open>engine\<close>; what the guest program does
  while its task is polled is a list of actions \<open>guest_act\<close>, and how it ends is \<open>run_result\<close>.
\<close>

section \<open>State\<close>

datatype state = Loaded | Starting | Running | Stopping | Stopped | Exited | Failed

text \<open>Whether the task was spawned, polled for the first time, or has finished.\<close>

datatype phase = NoTask | Spawned | Active | Ended

record 'p engine =
  loader :: "bytes \<Rightarrow> string + 'p"
  has_section :: "'p \<Rightarrow> string \<Rightarrow> bool"
  sha2_digest :: "bytes \<Rightarrow> bytes"

record 'p object =
  ob_id :: string
  ob_hash :: string
  ob_state :: state
  ob_program :: "'p option"
  ob_config :: json
  ob_caps :: "capability list"
  ob_mailbox :: mailbox
  ob_wait :: string
  ob_cancel :: bool
  ob_task :: bool
  ob_outcome :: "json option"
  ob_phase :: phase

record 'p runtime =
  heap :: "string \<Rightarrow> 'p object option"
  registered :: "string list"
  rworld :: world
  rnext :: u64
  loading :: "(u64 \<times> bytes \<times> json \<times> capability list) list"

definition runtime_new :: "string \<Rightarrow> 'p runtime" where
  "runtime_new s = \<lparr>heap = (\<lambda>_. None), registered = [], rworld = world_new s, rnext = 0,
     loading = []\<rparr>"

fun state_name :: "state \<Rightarrow> string" where
  "state_name Loaded = ''loaded''"
| "state_name Starting = ''starting''"
| "state_name Running = ''running''"
| "state_name Stopping = ''stopping''"
| "state_name Stopped = ''stopped''"
| "state_name Exited = ''exited''"
| "state_name Failed = ''failed''"

definition object_status :: "'p object \<Rightarrow> json" where
  "object_status ob =
     jobj [(''object_id'', String (ob_id ob)), (''sha256'', String (ob_hash ob)),
       (''state'', String (state_name (ob_state ob))), (''wait'', String (ob_wait ob)),
       (''mailbox_entries'', jnat (mailbox_len (ob_mailbox ob))),
       (''outcome'', case ob_outcome ob of None \<Rightarrow> Null | Some v \<Rightarrow> v)]"

definition object_id :: "u64 \<Rightarrow> string" where
  "object_id serial = ''o'' @ show_nat (unat serial)"

abbreviation put :: "string \<Rightarrow> 'p object \<Rightarrow> 'p runtime \<Rightarrow> 'p runtime" where
  "put i ob r \<equiv> r\<lparr>heap := (heap r)(i \<mapsto> ob)\<rparr>"

section \<open>Loading\<close>

definition bad_capability :: "encoder \<Rightarrow> capability \<Rightarrow> bool" where
  "bad_capability enc c \<longleftrightarrow>
     cap_name c = [] \<or> 128 < length (cap_name c) \<or> \<not> valid_value enc (Object (cap_arguments c))"

definition load_begin ::
    "encoder \<Rightarrow> bytes \<Rightarrow> json \<Rightarrow> capability list \<Rightarrow> 'p runtime \<Rightarrow> (rpc_error + u64) \<times> 'p runtime" where
  "load_begin enc elf config caps r =
     (if \<not> valid_value enc config then (Inl (rpc_params ''config exceeds JSON limits''), r)
      else if list_ex (bad_capability enc) caps then (Inl (rpc_params ''invalid capabilities''), r)
      else case checked_inc (rnext r) of
          None \<Rightarrow> (Inl (rpc_busy ''object IDs exhausted''), r)
        | Some serial \<Rightarrow>
            (Inr serial, r\<lparr>rnext := serial, loading := loading r @ [(serial, elf, config, caps)]\<rparr>))"

definition object_new :: "string \<Rightarrow> string \<Rightarrow> 'p \<Rightarrow> json \<Rightarrow> capability list \<Rightarrow> 'p object" where
  "object_new i hash program config caps =
     \<lparr>ob_id = i, ob_hash = hash, ob_state = Loaded, ob_program = Some program,
      ob_config = config, ob_caps = caps, ob_mailbox = mailbox_new, ob_wait = ''none'',
      ob_cancel = False, ob_task = False, ob_outcome = None, ob_phase = NoTask\<rparr>"

text \<open>A load in flight leaves the list, because it continues or because its request is aborted.\<close>

definition load_remove :: "nat \<Rightarrow> 'p runtime \<Rightarrow> 'p runtime" where
  "load_remove k r = r\<lparr>loading := take k (loading r) @ drop (Suc k) (loading r)\<rparr>"

text \<open>The \<open>k\<close>-th load in flight continues with the loader's result.\<close>

definition load_finish :: "'p engine \<Rightarrow> nat \<Rightarrow> 'p runtime \<Rightarrow> rpc_result \<times> 'p runtime" where
  "load_finish e k r =
     (case loading r ! k of (serial, elf, config, caps) \<Rightarrow>
      let r = load_remove k r in
      case loader e elf of
        Inl msg \<Rightarrow> (Inl (rpc_error_new (- 32010) ''INVALID_OBJECT'' msg), r)
      | Inr program \<Rightarrow>
          if \<not> has_section e program ''spinfoam.main''
          then (Inl (rpc_params ''missing spinfoam.main section''), r)
          else
            let i = object_id serial;
                ob = object_new i (sha256 (sha2_digest e) elf) program config caps
            in (Inr (object_status ob), (put i ob r)\<lparr>registered := insort i (registered r)\<rparr>))"

section \<open>Requests on an object\<close>

definition runtime_get :: "string \<Rightarrow> 'p runtime \<Rightarrow> rpc_error + 'p object" where
  "runtime_get i r =
     (case (if i \<in> set (registered r) then heap r i else None) of
        None \<Rightarrow> Inl rpc_missing
      | Some ob \<Rightarrow> Inr ob)"

definition object_deliver :: "encoder \<Rightarrow> json \<Rightarrow> 'p object \<Rightarrow> rpc_result \<times> 'p object" where
  "object_deliver enc event ob =
     (if ob_state ob \<notin> {Loaded, Starting, Running}
      then (Inl (rpc_busy ''object no longer accepts events''), ob)
      else case mailbox_deliver enc event (ob_mailbox ob) of
          (res, m) \<Rightarrow> (res, ob\<lparr>ob_mailbox := m\<rparr>))"

definition runtime_deliver ::
    "encoder \<Rightarrow> string \<Rightarrow> json \<Rightarrow> 'p runtime \<Rightarrow> rpc_result \<times> 'p runtime" where
  "runtime_deliver enc i event r =
     (case runtime_get i r of
        Inl e \<Rightarrow> (Inl e, r)
      | Inr ob \<Rightarrow> (case object_deliver enc event ob of (res, ob') \<Rightarrow> (res, put i ob' r)))"

text \<open>\<open>None\<close> is the panic of \<^verbatim>\<open>expect("loaded program")\<close>.\<close>

definition runtime_start :: "string \<Rightarrow> 'p runtime \<Rightarrow> rpc_result option \<times> 'p runtime" where
  "runtime_start i r =
     (case runtime_get i r of
        Inl e \<Rightarrow> (Some (Inl e), r)
      | Inr ob \<Rightarrow>
          if ob_state ob \<noteq> Loaded then (Some (Inl (rpc_busy ''object can only start once'')), r)
          else case ob_program ob of
              None \<Rightarrow> (None, r)
            | Some program \<Rightarrow>
                let ob = ob\<lparr>ob_state := Starting, ob_phase := Spawned, ob_task := True\<rparr>
                in (Some (Inr (object_status ob)), put i ob r))"

section \<open>The task of an object\<close>

datatype run_result = RunMore | RunCode u64 | RunFault string

definition state_notice :: "'p object \<Rightarrow> json" where
  "state_notice ob =
     jobj [(''jsonrpc'', String ''2.0''), (''method'', String ''sf.object.state''),
       (''params'', object_status ob)]"

text \<open>
  Leaving \<^verbatim>\<open>select!\<close> drops the run future, and with it every host call it holds.
\<close>

definition drop_run :: "encoder \<Rightarrow> string \<Rightarrow> world \<Rightarrow> world" where
  "drop_run enc i w =
     fold (\<lambda>j. host_exec enc (HDrop j)) (map fst (filter (\<lambda>(j, c). cobject c = i) (wcalls w))) w"

definition ended_object :: "run_result option \<Rightarrow> 'p object \<Rightarrow> 'p object" where
  "ended_object res ob =
     (case res of
        Some (RunCode code) \<Rightarrow>
          ob\<lparr>ob_state := Exited, ob_outcome := Some (jobj [(''exit_code'', jnat (unat code))])\<rparr>
      | Some (RunFault msg) \<Rightarrow>
          ob\<lparr>ob_state := Failed,
             ob_outcome := Some (jobj [(''error'', String msg), (''kind'', String ''PROGRAM_FAULT'')])\<rparr>
      | _ \<Rightarrow> ob\<lparr>ob_state := Stopped\<rparr>)"

definition task_end :: "encoder \<Rightarrow> string \<Rightarrow> run_result option \<Rightarrow> 'p object \<Rightarrow> 'p runtime \<Rightarrow> 'p runtime" where
  "task_end enc i res ob r =
     (let w = drop_run enc i (rworld r);
          ob = (ended_object res ob)\<lparr>ob_wait := ''none''\<rparr>;
          w = host_exec enc (HCancel i) w;
          w = host_exec enc (HOut (OpRemoveObject i)) w;
          ob = ob\<lparr>ob_mailbox := mailbox_clear (ob_mailbox ob)\<rparr>;
          w = host_exec enc (HOut (OpTryControl (state_notice ob))) w
      in put i (ob\<lparr>ob_phase := Ended\<rparr>) (r\<lparr>rworld := w\<rparr>))"

text \<open>
  One poll. The first one takes the configuration and sets \<^verbatim>\<open>Running\<close>; the biased
  \<^verbatim>\<open>select!\<close> looks at the cancellation token before it lets the program run.
\<close>

definition task_started :: "'p object \<Rightarrow> 'p object" where
  "task_started ob =
     (if ob_phase ob = Spawned
      then ob\<lparr>ob_config := Null, ob_state := Running, ob_phase := Active\<rparr> else ob)"

definition task_poll :: "encoder \<Rightarrow> string \<Rightarrow> run_result \<Rightarrow> 'p runtime \<Rightarrow> 'p runtime" where
  "task_poll enc i res r =
     (case heap r i of
        None \<Rightarrow> r
      | Some ob \<Rightarrow>
          if ob_phase ob \<notin> {Spawned, Active} then r
          else
            let ob = task_started ob
            in if ob_cancel ob then task_end enc i None ob r
               else case res of
                   RunMore \<Rightarrow> put i ob r
                 | _ \<Rightarrow> task_end enc i (Some res) ob r)"

text \<open>What the running program does to the shared state, by its helpers.\<close>

datatype guest_act =
    GLog json
  | GCall string json u64 nat
  | GPollCall string bool
  | GReceive
  | GWait string

definition act_world :: "encoder \<Rightarrow> string \<Rightarrow> guest_act \<Rightarrow> world \<Rightarrow> world" where
  "act_world enc i a w =
     (case a of
        GLog v \<Rightarrow> host_exec enc (HOut (OpTryData i v)) w
      | GCall cap args ms now \<Rightarrow> host_exec enc (HBegin i cap args ms now) w
      | GPollCall j expired \<Rightarrow>
          (case map_of (wcalls w) j of
             Some c \<Rightarrow> if cobject c = i then host_exec enc (HPoll j expired) w else w
           | None \<Rightarrow> w)
      | _ \<Rightarrow> w)"

definition act_object :: "guest_act \<Rightarrow> 'p object \<Rightarrow> 'p object" where
  "act_object a ob =
     (case a of
        GReceive \<Rightarrow> ob\<lparr>ob_mailbox := snd (mailbox_receive (ob_mailbox ob))\<rparr>
      | GWait reason \<Rightarrow> ob\<lparr>ob_wait := reason\<rparr>
      | _ \<Rightarrow> ob)"

definition guest_acts :: "encoder \<Rightarrow> string \<Rightarrow> guest_act \<Rightarrow> 'p runtime \<Rightarrow> 'p runtime" where
  "guest_acts enc i a r =
     (case heap r i of
        None \<Rightarrow> r
      | Some ob \<Rightarrow>
          if ob_phase ob = Active \<and> \<not> ob_cancel ob
          then put i (act_object a ob) (r\<lparr>rworld := act_world enc i a (rworld r)\<rparr>)
          else r)"

section \<open>Stopping\<close>

text \<open>
  One pass of \<^verbatim>\<open>Object::stop\<close>: \<open>False\<close> when it waits, for the object to leave \<^verbatim>\<open>Stopping\<close> or
  for the task it joins.
\<close>

definition object_stop_poll :: "string \<Rightarrow> 'p runtime \<Rightarrow> bool \<times> 'p runtime" where
  "object_stop_poll i r =
     (case heap r i of
        None \<Rightarrow> (True, r)
      | Some ob \<Rightarrow>
          let ob = (if ob_state ob = Loaded then ob\<lparr>ob_state := Stopped\<rparr> else ob) in
          if ob_state ob \<in> {Starting, Running, Stopping}
          then (False, put i (ob\<lparr>ob_state := Stopping, ob_cancel := True\<rparr>) r)
          else if ob_task ob \<and> ob_phase ob \<noteq> Ended then (False, put i ob r)
          else (True, put i (ob\<lparr>ob_task := False, ob_program := None, ob_config := Null,
                                 ob_mailbox := mailbox_clear (ob_mailbox ob)\<rparr>) r))"

definition unloaded_reply :: json where
  "unloaded_reply = jobj [(''unloaded'', Bool True)]"

definition runtime_stop_poll ::
    "encoder \<Rightarrow> string \<Rightarrow> bool \<Rightarrow> 'p runtime \<Rightarrow> rpc_result poll \<times> 'p runtime" where
  "runtime_stop_poll enc i unload r =
     (case object_stop_poll i r of
        (False, r) \<Rightarrow> (Pending, r)
      | (True, r) \<Rightarrow>
          let w = host_exec enc (HCancel i) (rworld r);
              w = host_exec enc (HOut (OpRemoveObject i)) w;
              r = r\<lparr>rworld := w\<rparr>
          in if unload then (Done (Inr unloaded_reply), r\<lparr>registered := removeAll i (registered r)\<rparr>)
             else (Done (case heap r i of Some ob \<Rightarrow> Inr (object_status ob) | None \<Rightarrow> Inl rpc_missing), r))"

definition runtime_stop ::
    "encoder \<Rightarrow> string \<Rightarrow> bool \<Rightarrow> 'p runtime \<Rightarrow> rpc_result poll \<times> 'p runtime" where
  "runtime_stop enc i unload r =
     (case runtime_get i r of
        Inl e \<Rightarrow> (Done (if unload then Inr unloaded_reply else Inl e), r)
      | Inr _ \<Rightarrow> runtime_stop_poll enc i unload r)"

text \<open>Shutdown cancels every object, then stops them one after the other.\<close>

definition shutdown_begin :: "'p runtime \<Rightarrow> string list \<times> 'p runtime" where
  "shutdown_begin r =
     (registered r,
      r\<lparr>heap := (\<lambda>i. if i \<in> set (registered r)
                     then map_option (\<lambda>ob. ob\<lparr>ob_cancel := True\<rparr>) (heap r i) else heap r i)\<rparr>)"

fun shutdown_poll :: "string list \<Rightarrow> 'p runtime \<Rightarrow> string list \<times> 'p runtime" where
  "shutdown_poll [] r = ([], r\<lparr>registered := []\<rparr>)"
| "shutdown_poll (i # is) r =
     (case object_stop_poll i r of
        (False, r') \<Rightarrow> (i # is, r')
      | (True, r') \<Rightarrow> shutdown_poll is r')"


section \<open>The runtime as a machine\<close>

datatype rt_op =
    LoadBegin bytes json "capability list"
  | LoadFinish nat
  | LoadAbort nat
  | DeliverEvent string json
  | Start string
  | Poll string run_result
  | Act string guest_act
  | Stop string bool
  | StopPoll string bool
  | ShutdownBegin
  | ShutdownPoll "string list"
  | Router host_op

text \<open>What the router and the writer do to the host and the outbox.\<close>

fun router_op :: "host_op \<Rightarrow> bool" where
  "router_op (HResponse frame) = True"
| "router_op (HOut (OpControl v)) = True"
| "router_op (HOut (OpTryControl v)) = True"
| "router_op (HOut OpNext) = True"
| "router_op (HOut OpClose) = True"
| "router_op _ = False"

fun rt_exec :: "'p engine \<Rightarrow> encoder \<Rightarrow> rt_op \<Rightarrow> 'p runtime \<Rightarrow> 'p runtime" where
  "rt_exec e enc (LoadBegin elf config caps) r = snd (load_begin enc elf config caps r)"
| "rt_exec e enc (LoadFinish k) r = (if k < length (loading r) then snd (load_finish e k r) else r)"
| "rt_exec e enc (LoadAbort k) r = load_remove k r"
| "rt_exec e enc (DeliverEvent i event) r = snd (runtime_deliver enc i event r)"
| "rt_exec e enc (Start i) r = snd (runtime_start i r)"
| "rt_exec e enc (Poll i res) r = task_poll enc i res r"
| "rt_exec e enc (Act i a) r = guest_acts enc i a r"
| "rt_exec e enc (Stop i unload) r = snd (runtime_stop enc i unload r)"
| "rt_exec e enc (StopPoll i unload) r = snd (runtime_stop_poll enc i unload r)"
| "rt_exec e enc ShutdownBegin r = snd (shutdown_begin r)"
| "rt_exec e enc (ShutdownPoll ids) r = snd (shutdown_poll ids r)"
| "rt_exec e enc (Router op) r =
     (if router_op op then r\<lparr>rworld := host_exec enc op (rworld r)\<rparr> else r)"

section \<open>The state diagram\<close>

definition terminal :: "state \<Rightarrow> bool" where
  "terminal s \<longleftrightarrow> s \<in> {Stopped, Exited, Failed}"

text \<open>
  The diagram of \<^verbatim>\<open>DESIGN.md\<close>: an object starts at most once, ends at most once, and a stop
  that was asked for ends as \<open>Stopped\<close>.
\<close>

inductive moves :: "state \<Rightarrow> state \<Rightarrow> bool" where
  stay: "moves s s"
| start: "moves Loaded Starting"
| stop_loaded: "moves Loaded Stopped"
| run: "moves Starting Running"
| run_end: "t \<in> {Stopped, Exited, Failed} \<Longrightarrow> moves Starting t"
| stop: "s \<in> {Starting, Running} \<Longrightarrow> moves s Stopping"
| ending: "t \<in> {Stopped, Exited, Failed} \<Longrightarrow> moves Running t"
| stopped: "moves Stopping Stopped"

inductive_cases moves_fromE: "moves s t"

lemma moves_table:
  "moves s t \<longleftrightarrow> t = s \<or> t \<in> (case s of
      Loaded \<Rightarrow> {Starting, Stopped}
    | Starting \<Rightarrow> {Running, Stopping, Stopped, Exited, Failed}
    | Running \<Rightarrow> {Stopping, Stopped, Exited, Failed}
    | Stopping \<Rightarrow> {Stopped}
    | _ \<Rightarrow> {})"
  by (cases s) (auto intro: moves.intros elim: moves_fromE)

lemma moves_terminal: "moves s t \<Longrightarrow> terminal s \<Longrightarrow> t = s"
  by (auto simp: moves_table terminal_def)

section \<open>The invariant\<close>

text \<open>
  State, phase, token and handle of an object agree; a loaded object has its program, and
  an object in a terminal state has an empty mailbox. An object whose task is not active
  has no host call and no queued output.
\<close>

definition coherent :: "'p object \<Rightarrow> bool" where
  "coherent ob \<longleftrightarrow>
     (case ob_phase ob of
        NoTask \<Rightarrow> ob_state ob \<in> {Loaded, Stopped} \<and> \<not> ob_task ob
      | Spawned \<Rightarrow> ob_state ob \<in> {Starting, Stopping} \<and> ob_task ob
      | Active \<Rightarrow> ob_state ob \<in> {Running, Stopping} \<and> ob_task ob
      | Ended \<Rightarrow> terminal (ob_state ob)) \<and>
     (ob_state ob = Stopping \<longrightarrow> ob_cancel ob) \<and>
     (ob_state ob = Loaded \<longrightarrow> ob_program ob \<noteq> None)"

definition object_ok :: "encoder \<Rightarrow> string \<Rightarrow> 'p object \<Rightarrow> bool" where
  "object_ok enc i ob \<longleftrightarrow>
     ob_id ob = i \<and> coherent ob \<and> mailbox_inv enc (ob_mailbox ob) \<and>
     (terminal (ob_state ob) \<longrightarrow> entries (ob_mailbox ob) = [] \<and> recent (ob_mailbox ob) = [])"

definition active :: "'p runtime \<Rightarrow> string \<Rightarrow> bool" where
  "active r i \<longleftrightarrow> (\<exists>ob. heap r i = Some ob \<and> ob_phase ob = Active)"

definition quiet :: "string \<Rightarrow> world \<Rightarrow> bool" where
  "quiet i w \<longleftrightarrow>
     (\<forall>j c. map_of (wcalls w) j = Some c \<longrightarrow> cobject c \<noteq> i) \<and> queued (wout w) i = []"

definition ids_ok :: "'p runtime \<Rightarrow> bool" where
  "ids_ok r \<longleftrightarrow>
     (\<forall>i. heap r i \<noteq> None \<longrightarrow> (\<exists>n. i = object_id n \<and> unat n \<le> unat (rnext r))) \<and>
     (\<forall>x \<in> set (loading r). unat (fst x) \<le> unat (rnext r) \<and> heap r (object_id (fst x)) = None) \<and>
     distinct (map fst (loading r)) \<and>
     set (registered r) \<subseteq> dom (heap r) \<and> sorted (registered r) \<and> distinct (registered r)"

definition rt_inv :: "encoder \<Rightarrow> 'p runtime \<Rightarrow> bool" where
  "rt_inv enc r \<longleftrightarrow>
     host_inv (rworld r) \<and> ids_ok r \<and>
     (\<forall>i ob. heap r i = Some ob \<longrightarrow> object_ok enc i ob) \<and>
     (\<forall>i. \<not> active r i \<longrightarrow> quiet i (rworld r))"

lemma object_id_inject [simp]: "object_id m = object_id n \<longleftrightarrow> m = n"
  by (simp add: object_id_def show_nat_inject word_unat_eq_iff)

lemma rt_inv_new: "rt_inv enc (runtime_new s)"
  by (simp add: rt_inv_def runtime_new_def ids_ok_def quiet_def world_new_def outbox_new_def
      active_def queued_def host_inv_new [unfolded world_new_def outbox_new_def])

text \<open>Changing one object, and changing the world.\<close>

lemma rt_inv_objectD: "rt_inv enc r \<Longrightarrow> heap r i = Some ob \<Longrightarrow> object_ok enc i ob"
  by (simp add: rt_inv_def)

lemma rt_inv_put:
  assumes inv: "rt_inv enc r" and ob: "heap r i = Some ob" and ok: "object_ok enc i ob'"
    and phase: "ob_phase ob' = Active \<or> quiet i (rworld r)"
  shows "rt_inv enc (put i ob' r)"
proof -
  have "ids_ok (put i ob' r)"
    using inv ob unfolding rt_inv_def ids_ok_def by auto
  moreover have "quiet j (rworld r)" if "\<not> active (put i ob' r) j" for j
  proof (cases "j = i")
    case True
    with that phase show ?thesis by (auto simp: active_def)
  next
    case False
    with that have "\<not> active r j" by (auto simp: active_def)
    with inv show ?thesis by (simp add: rt_inv_def)
  qed
  ultimately show ?thesis using inv ok unfolding rt_inv_def by auto
qed

lemma rt_inv_quiet: "rt_inv enc r \<Longrightarrow> heap r i = Some ob \<Longrightarrow> ob_phase ob \<noteq> Active \<Longrightarrow> quiet i (rworld r)"
  unfolding rt_inv_def active_def by auto

lemma rt_inv_world:
  assumes inv: "rt_inv enc r" and w: "host_inv w"
    and quiet: "\<And>i. \<not> active r i \<Longrightarrow> quiet i (rworld r) \<Longrightarrow> quiet i w"
  shows "rt_inv enc (r\<lparr>rworld := w\<rparr>)"
  using assms unfolding rt_inv_def ids_ok_def active_def by simp


section \<open>An object without output stays without\<close>

fun feeds :: "string \<Rightarrow> host_op \<Rightarrow> bool" where
  "feeds i (HBegin k cap args ms now) = (k = i)"
| "feeds i (HOut op) = pushes i op"
| "feeds i op = False"

lemma queued_cancel: "queued (snd (cancel_object enc k h q)) i = queued q i"
proof -
  have "queued (snd (fold (cancel_one enc) ids (h, q))) i = queued q i" for ids h q
  proof (induction ids arbitrary: h q)
    case (Cons j ids)
    obtain h' q' where one: "cancel_one enc j (h, q) = (h', q')" by fastforce
    then have "queued q' i = queued q i"
      by (auto simp: cancel_one_def split: option.splits)
    with one Cons show ?case by simp
  qed simp
  then show ?thesis by (simp add: cancel_object_def)
qed

lemma queued_drop_nil: "queued q i = [] \<Longrightarrow> queued (snd (call_drop enc c h q)) i = []"
  by (auto simp: call_drop_def Let_def queued_remove_request)

lemma poll_quiet:
  assumes "call_poll enc expired c h q = (st, h', q')" "cobject c \<noteq> i" "queued q i = []"
  shows "queued q' i = [] \<and> (\<forall>c'. st = call_state.Running c' \<longrightarrow> cobject c' = cobject c)"
proof -
  have d: "queued (snd (outbox_data enc (cobject c) (crequest c) q)) i = []"
    using assms(2,3) by (simp add: data_effects)
  have e: "queued q' i = [] \<and> (\<forall>c'. st = call_state.Running c' \<longrightarrow> cobject c' = cobject c)"
    if "queued q1 i = []" "cobject c1 = cobject c"
      "call_end enc c1 x h q1 = (st, h', q') \<or> call_await enc expired c1 h q1 = (st, h', q')"
    for q1 c1 x
    using that queued_drop_nil [OF that(1), of enc c1 h]
    by (auto simp: call_end_def call_await_def split: if_splits)
  from assms(1) show ?thesis
  proof (cases rule: poll_cases)
    case (before q1)
    with d e [of q1 c] show ?thesis by simp
  next
    case (refused x q1)
    with d e [of q1 c] show ?thesis by auto
  next
    case (after q1)
    with d assms(3) have "queued q1 i = []" by auto
    with after(2) e [of q1 "c\<lparr>csent := True\<rparr>"] show ?thesis by auto
  qed
qed

lemma quiet_exec:
  assumes q: "quiet i w" and inv: "host_inv w" and f: "\<not> feeds i op"
  shows "quiet i (host_exec enc op w)"
proof (cases op)
  case (HBegin k cap args ms now)
  with q f show ?thesis
    by (auto simp: quiet_def call_begin_def Let_def split: option.splits if_splits)
next
  case (HPoll j expired)
  show ?thesis
  proof (cases "map_of (wcalls w) j")
    case (Some c)
    obtain st h q' where p: "call_poll enc expired c (whost w) (wout w) = (st, h, q')"
      by (cases "call_poll enc expired c (whost w) (wout w)")
    from q Some have "cobject c \<noteq> i" "queued (wout w) i = []" by (auto simp: quiet_def)
    from poll_quiet [OF p this] have
      "queued q' i = []" "\<And>c'. st = call_state.Running c' \<Longrightarrow> cobject c' = cobject c" by auto
    with \<open>cobject c \<noteq> i\<close> q Some p HPoll show ?thesis
      by (cases st) (auto simp: quiet_def)
  qed (use q HPoll in simp)
next
  case (HDrop j)
  then show ?thesis
    using q queued_drop_nil [of "wout w" i enc _ "whost w"]
    by (auto simp: quiet_def split: option.splits prod.splits) (metis snd_conv)
next
  case (HCancel k)
  then show ?thesis
    using q queued_cancel [of enc k "whost w" "wout w" i] by (auto simp: quiet_def split: prod.splits)
next
  case (HOut op')
  have out: "outbox_inv (wout w)" using inv by (simp add: host_inv_def)
  have "queued (outbox_exec enc op' (wout w)) i = []"
  proof (cases "removes i op' \<or> op' = OpNext")
    case True
    with q out queued_next [OF out, of i] show ?thesis
      by (cases op') (auto simp: quiet_def queued_remove_request queued_remove_object)
  next
    case False
    with HOut f q queued_other [of i op' enc "wout w"] show ?thesis by (simp add: quiet_def)
  qed
  with HOut q show ?thesis by (simp add: quiet_def)
qed (use q in \<open>simp add: quiet_def\<close>)

lemma quiet_pending:
  "quiet i w \<Longrightarrow> host_inv w \<Longrightarrow> map_of (pending (whost w)) j \<noteq> Some i"
  unfolding quiet_def host_inv_def pending_ok_def by blast

text \<open>Dropping the run future and removing the object's output leaves nothing.\<close>

lemma drop_run_inv: "host_inv w \<Longrightarrow> host_inv (drop_run enc i w)"
  unfolding drop_run_def
  by (rule fold_invariant [where Q = "\<lambda>_. True"]) (auto intro: host_inv_exec simp del: host_exec.simps)

lemma drop_run_quiet:
  "quiet k w \<Longrightarrow> host_inv w \<Longrightarrow> quiet k (drop_run enc i w)"
proof -
  have "quiet k (fold (\<lambda>j. host_exec enc (HDrop j)) js w) \<and>
      host_inv (fold (\<lambda>j. host_exec enc (HDrop j)) js w)" if "quiet k w" "host_inv w" for js
    using that
    by (induction js arbitrary: w) (simp_all add: quiet_exec host_inv_exec del: host_exec.simps)
  then show "quiet k w \<Longrightarrow> host_inv w \<Longrightarrow> quiet k (drop_run enc i w)"
    by (simp add: drop_run_def)
qed

lemma wcalls_drop: "wcalls (host_exec enc (HDrop j) w) = AList.delete j (wcalls w)"
proof (cases "map_of (wcalls w) j")
  case None
  then have "j \<notin> set (keys (wcalls w))" by (simp add: map_of_eq_None_iff)
  with None show ?thesis by (simp add: AList.delete_idem)
qed (auto split: prod.splits)

lemma wcalls_drops:
  "map_of (wcalls (fold (\<lambda>j. host_exec enc (HDrop j)) js w)) k =
     (if k \<in> set js then None else map_of (wcalls w) k)"
  by (induction js arbitrary: w) (auto simp: wcalls_drop simp del: host_exec.simps)

lemma drop_run_calls:
  assumes "map_of (wcalls (drop_run enc i w)) k = Some c"
  shows "cobject c \<noteq> i"
proof
  assume i: "cobject c = i"
  let ?js = "map fst (filter (\<lambda>(j, c). cobject c = i) (wcalls w))"
  from assms have "k \<notin> set ?js" "map_of (wcalls w) k = Some c"
    unfolding drop_run_def wcalls_drops by (auto split: if_splits)
  moreover from this(2) have "(k, c) \<in> set (wcalls w)" by (rule map_of_SomeD)
  ultimately show False using i by force
qed


definition end_world :: "encoder \<Rightarrow> string \<Rightarrow> json \<Rightarrow> world \<Rightarrow> world" where
  "end_world enc i notice w =
     host_exec enc (HOut (OpTryControl notice))
       (host_exec enc (HOut (OpRemoveObject i)) (host_exec enc (HCancel i) (drop_run enc i w)))"

lemma end_world_effects:
  assumes "host_inv w"
  shows "host_inv (end_world enc i v w)" "quiet i (end_world enc i v w)"
    "quiet k w \<Longrightarrow> quiet k (end_world enc i v w)"
proof -
  let ?a = "drop_run enc i w"
  let ?b = "host_exec enc (HCancel i) ?a"
  let ?c = "host_exec enc (HOut (OpRemoveObject i)) ?b"
  have a: "host_inv ?a" by (rule drop_run_inv [OF assms])
  note b = host_inv_exec [OF a, of enc "HCancel i"]
  note c = host_inv_exec [OF b, of enc "HOut (OpRemoveObject i)"]
  show "host_inv (end_world enc i v w)" unfolding end_world_def by (rule host_inv_exec [OF c])
  have "wcalls ?c = wcalls ?a" by (simp split: prod.splits)
  moreover have "queued (wout ?c) i = []" by (simp add: queued_remove_object)
  ultimately have "quiet i ?c" using drop_run_calls [of enc i w] unfolding quiet_def by metis
  then show "quiet i (end_world enc i v w)"
    unfolding end_world_def by (rule quiet_exec [OF _ c]) simp
  show "quiet k (end_world enc i v w)" if "quiet k w"
    unfolding end_world_def
    by (intro quiet_exec drop_run_quiet that assms a b c) simp_all
qed

lemma mailbox_clear_inv: "mailbox_inv enc m \<Longrightarrow> mailbox_inv enc (mailbox_clear m)"
  using mbox.exec_inv [of enc m Clear] by simp

lemma mailbox_cleared [simp]: "entries (mailbox_clear m) = []" "recent (mailbox_clear m) = []"
  by (simp_all add: mailbox_clear_def)

lemma ended_object_fields [simp]:
  "ob_id (ended_object res ob) = ob_id ob" "ob_mailbox (ended_object res ob) = ob_mailbox ob"
  "ob_task (ended_object res ob) = ob_task ob" "ob_phase (ended_object res ob) = ob_phase ob"
  "terminal (ob_state (ended_object res ob))"
  by (auto simp: ended_object_def terminal_def split: option.splits run_result.splits)

lemma task_end_eq:
  "\<exists>v. task_end enc i res ob r =
     put i ((ended_object res ob)\<lparr>ob_wait := ''none'', ob_mailbox := mailbox_clear (ob_mailbox ob),
         ob_phase := Ended\<rparr>)
       (r\<lparr>rworld := end_world enc i v (rworld r)\<rparr>)"
  by (rule exI) (simp add: task_end_def end_world_def Let_def del: host_exec.simps)

lemma terminal_coherent: "terminal s \<Longrightarrow> s \<noteq> Stopping \<and> s \<noteq> Loaded"
  by (auto simp: terminal_def)

lemma task_end_inv:
  assumes inv: "rt_inv enc r" and ob0: "heap r i = Some ob0" and ok: "object_ok enc i ob"
    and active: "ob_phase ob = Active"
  shows "rt_inv enc (task_end enc i res ob r)"
proof -
  obtain v where eq: "task_end enc i res ob r =
     put i ((ended_object res ob)\<lparr>ob_wait := ''none'', ob_mailbox := mailbox_clear (ob_mailbox ob),
         ob_phase := Ended\<rparr>)
       (r\<lparr>rworld := end_world enc i v (rworld r)\<rparr>)" (is "_ = put i ?ob (r\<lparr>rworld := ?w\<rparr>)")
    using task_end_eq by blast
  have w: "host_inv (rworld r)" using inv by (simp add: rt_inv_def)
  have "rt_inv enc (put i ob r)" using rt_inv_put [OF inv ob0 ok] active by simp
  then have "rt_inv enc ((put i ob r)\<lparr>rworld := ?w\<rparr>)"
    by (rule rt_inv_world) (simp_all add: end_world_effects(1) [OF w] end_world_effects(3) [OF w])
  moreover have "object_ok enc i ?ob"
    using ok terminal_coherent [OF ended_object_fields(5), of res ob]
    by (auto simp: object_ok_def coherent_def mailbox_clear_inv)
  ultimately have "rt_inv enc (put i ?ob ((put i ob r)\<lparr>rworld := ?w\<rparr>))"
    by (intro rt_inv_put [where ob = ob]) (simp_all add: end_world_effects(2) [OF w])
  then show ?thesis unfolding eq by simp
qed

lemma task_poll_inv: "rt_inv enc r \<Longrightarrow> rt_inv enc (task_poll enc i res r)"
proof (cases "heap r i")
  case (Some ob)
  assume inv: "rt_inv enc r"
  have ok: "object_ok enc i ob" by (rule rt_inv_objectD [OF inv Some])
  show ?thesis
  proof (cases "ob_phase ob \<in> {Spawned, Active}")
    case True
    let ?ob = "task_started ob"
    have ok': "object_ok enc i ?ob" and act: "ob_phase ?ob = Active"
      using ok True by (auto simp: task_started_def object_ok_def coherent_def terminal_def)
    have "rt_inv enc (put i ?ob r)" using rt_inv_put [OF inv Some ok'] act by blast
    moreover note task_end_inv [OF inv Some ok' act]
    moreover have "task_poll enc i res r = (if ob_cancel ?ob then task_end enc i None ?ob r
        else if res = RunMore then put i ?ob r else task_end enc i (Some res) ?ob r)"
      using Some True by (auto simp: task_poll_def Let_def split: run_result.splits)
    ultimately show ?thesis by simp
  next
    case False
    with inv Some show ?thesis by (simp add: task_poll_def)
  qed
qed (simp add: task_poll_def)

lemma act_inv: "rt_inv enc r \<Longrightarrow> rt_inv enc (guest_acts enc i a r)"
proof (cases "heap r i")
  case (Some ob)
  assume inv: "rt_inv enc r"
  show ?thesis
  proof (cases "ob_phase ob = Active \<and> \<not> ob_cancel ob")
    case True
    have ok: "object_ok enc i ob" by (rule rt_inv_objectD [OF inv Some])
    have act: "active r i" using True Some by (simp add: active_def)
    have w: "host_inv (rworld r)" using inv by (simp add: rt_inv_def)
    have "host_inv (act_world enc i a (rworld r))"
      using w by (auto simp: act_world_def host_inv_exec simp del: host_exec.simps
          split: guest_act.splits option.splits)
    moreover have "quiet k (act_world enc i a (rworld r))" if "quiet k (rworld r)" "k \<noteq> i" for k
      using that w by (auto simp: act_world_def quiet_exec simp del: host_exec.simps
          split: guest_act.splits option.splits)
    ultimately have "rt_inv enc (r\<lparr>rworld := act_world enc i a (rworld r)\<rparr>)"
      using act by (intro rt_inv_world [OF inv]) auto
    moreover have "object_ok enc i (act_object a ob)"
      using ok True mbox.exec_inv [of enc "ob_mailbox ob" Receive]
      by (auto simp: object_ok_def coherent_def act_object_def terminal_def split: guest_act.splits)
    moreover have "ob_phase (act_object a ob) = Active"
      using True by (simp add: act_object_def split: guest_act.splits)
    ultimately have
      "rt_inv enc (put i (act_object a ob) (r\<lparr>rworld := act_world enc i a (rworld r)\<rparr>))"
      using Some by (intro rt_inv_put [where ob = ob]) simp_all
    with Some True show ?thesis by (simp add: guest_acts_def)
  next
    case False
    with inv Some show ?thesis by (auto simp: guest_acts_def)
  qed
qed (simp add: guest_acts_def)


lemma runtime_getD:
  "runtime_get i r = Inr ob \<Longrightarrow> heap r i = Some ob \<and> i \<in> set (registered r)"
  by (auto simp: runtime_get_def split: option.splits if_splits)

lemma put_inv:
  assumes "rt_inv enc r" "heap r i = Some ob" "object_ok enc i ob'"
    and "ob_phase ob' = ob_phase ob \<or> ob_phase ob' = Active \<or> ob_phase ob \<noteq> Active"
  shows "rt_inv enc (put i ob' r)"
  using rt_inv_put [OF assms(1-3)] rt_inv_quiet [OF assms(1,2)] assms(4)
  by (cases "ob_phase ob = Active") auto

lemma deliver_inv: "rt_inv enc r \<Longrightarrow> rt_inv enc (snd (runtime_deliver enc i event r))"
proof (cases "runtime_get i r")
  case (Inr ob)
  assume inv: "rt_inv enc r"
  have ob: "heap r i = Some ob" using runtime_getD [OF Inr] by simp
  have ok: "object_ok enc i ob" by (rule rt_inv_objectD [OF inv ob])
  obtain res ob' where d: "object_deliver enc event ob = (res, ob')" by fastforce
  have "object_ok enc i ob' \<and> ob_phase ob' = ob_phase ob"
  proof (cases "ob_state ob \<in> {Loaded, Starting, Running}")
    case True
    have "mailbox_inv enc (snd (mailbox_deliver enc event (ob_mailbox ob)))"
      using mbox.exec_inv [of enc "ob_mailbox ob" "Deliver event"] ok by (simp add: object_ok_def)
    moreover have "ob' = ob\<lparr>ob_mailbox := snd (mailbox_deliver enc event (ob_mailbox ob))\<rparr>"
      using True d by (auto simp: object_deliver_def split: prod.splits)
    moreover have "\<not> terminal (ob_state ob)" using True by (auto simp: terminal_def)
    ultimately show ?thesis
      using ok by (cases "ob_phase ob") (simp_all add: object_ok_def coherent_def)
  next
    case False
    with d ok show ?thesis by (simp add: object_deliver_def)
  qed
  then have "rt_inv enc (put i ob' r)" by (intro put_inv [OF inv ob]) auto
  with Inr d show ?thesis by (simp add: runtime_deliver_def)
qed (simp add: runtime_deliver_def)

lemma start_inv: "rt_inv enc r \<Longrightarrow> rt_inv enc (snd (runtime_start i r))"
proof (cases "runtime_get i r")
  case (Inr ob)
  assume inv: "rt_inv enc r"
  have ob: "heap r i = Some ob" using runtime_getD [OF Inr] by simp
  have ok: "object_ok enc i ob" by (rule rt_inv_objectD [OF inv ob])
  show ?thesis
  proof (cases "ob_state ob = Loaded")
    case True
    let ?ob = "ob\<lparr>ob_state := Starting, ob_phase := Spawned, ob_task := True\<rparr>"
    have "object_ok enc i ?ob" "ob_phase ob \<noteq> Active"
      using ok True by (auto simp: object_ok_def coherent_def terminal_def)
    then have "rt_inv enc (put i ?ob r)" by (intro put_inv [OF inv ob]) auto
    with inv Inr True show ?thesis by (simp add: runtime_start_def Let_def split: option.splits)
  next
    case False
    with inv Inr show ?thesis by (simp add: runtime_start_def)
  qed
qed (simp add: runtime_start_def)

lemma object_stop_poll_inv: "rt_inv enc r \<Longrightarrow> rt_inv enc (snd (object_stop_poll i r))"
proof (cases "heap r i")
  case (Some ob)
  assume inv: "rt_inv enc r"
  have ok: "object_ok enc i ob" by (rule rt_inv_objectD [OF inv Some])
  consider (loaded) "ob_state ob = Loaded" | (live) "ob_state ob \<in> {Starting, Running, Stopping}"
    | (over) "terminal (ob_state ob)"
    by (cases "ob_state ob") (auto simp: terminal_def)
  then show ?thesis
  proof cases
    case loaded
    let ?ob = "ob\<lparr>ob_state := Stopped, ob_task := False, ob_program := None, ob_config := Null,
      ob_mailbox := mailbox_clear (ob_mailbox ob)\<rparr>"
    have "object_ok enc i ?ob" "\<not> ob_task ob"
      using ok loaded
      by (auto simp: object_ok_def coherent_def terminal_def mailbox_clear_inv split: phase.splits)
    moreover from this have "rt_inv enc (put i ?ob r)" by (intro put_inv [OF inv Some]) auto
    ultimately show ?thesis using Some loaded by (simp add: object_stop_poll_def Let_def)
  next
    case live
    have "object_ok enc i (ob\<lparr>ob_state := Stopping, ob_cancel := True\<rparr>)"
      using ok live by (auto simp: object_ok_def coherent_def terminal_def split: phase.splits)
    then have "rt_inv enc (put i (ob\<lparr>ob_state := Stopping, ob_cancel := True\<rparr>) r)"
      by (intro put_inv [OF inv Some]) auto
    with Some live show ?thesis by (auto simp: object_stop_poll_def Let_def)
  next
    case over
    let ?ob = "ob\<lparr>ob_task := False, ob_program := None, ob_config := Null,
      ob_mailbox := mailbox_clear (ob_mailbox ob)\<rparr>"
    have "object_ok enc i ?ob"
      using ok over
      by (auto simp: object_ok_def coherent_def terminal_def mailbox_clear_inv split: phase.splits)
    then have "rt_inv enc (put i ?ob r)" by (intro put_inv [OF inv Some]) auto
    moreover have "rt_inv enc (put i ob r)" using ok by (intro put_inv [OF inv Some]) auto
    ultimately show ?thesis
      using Some over by (auto simp: object_stop_poll_def Let_def terminal_def)
  qed
qed (simp add: object_stop_poll_def)

lemma stop_poll_inv: "rt_inv enc r \<Longrightarrow> rt_inv enc (snd (runtime_stop_poll enc i unload r))"
proof -
  assume inv: "rt_inv enc r"
  obtain d r1 where s: "object_stop_poll i r = (d, r1)" by fastforce
  have inv1: "rt_inv enc r1" using object_stop_poll_inv [OF inv, of i] s by simp
  let ?w1 = "host_exec enc (HCancel i) (rworld r1)"
  let ?w2 = "host_exec enc (HOut (OpRemoveObject i)) ?w1"
  have w: "host_inv (rworld r1)" using inv1 by (simp add: rt_inv_def)
  note w1 = host_inv_exec [OF w, of enc "HCancel i"]
  have "rt_inv enc (r1\<lparr>rworld := ?w2\<rparr>)"
    by (rule rt_inv_world [OF inv1 host_inv_exec [OF w1]]) (intro quiet_exec w w1; simp)
  moreover from this
  have "rt_inv enc (r1\<lparr>rworld := ?w2, registered := removeAll i (registered r1)\<rparr>)"
    unfolding rt_inv_def ids_ok_def active_def by (auto simp: sorted_wrt_filter removeAll_filter_not_eq)
  ultimately show ?thesis
    using s inv1 by (auto simp: runtime_stop_poll_def Let_def simp del: host_exec.simps split: bool.splits)
qed

lemma stop_inv: "rt_inv enc r \<Longrightarrow> rt_inv enc (snd (runtime_stop enc i unload r))"
  using stop_poll_inv [of enc r i unload] by (auto simp: runtime_stop_def split: sum.splits)

lemma shutdown_begin_inv: "rt_inv enc r \<Longrightarrow> rt_inv enc (snd (shutdown_begin r))"
proof -
  assume inv: "rt_inv enc r"
  let ?r = "snd (shutdown_begin r)"
  have h: "heap ?r i = (if i \<in> set (registered r)
      then map_option (\<lambda>ob. ob\<lparr>ob_cancel := True\<rparr>) (heap r i) else heap r i)" for i
    by (simp add: shutdown_begin_def)
  have rest: "rworld ?r = rworld r" "rnext ?r = rnext r" "loading ?r = loading r"
    "registered ?r = registered r"
    by (simp_all add: shutdown_begin_def)
  have act: "active ?r i = active r i" for i
    by (cases "heap r i") (auto simp: active_def h)
  have none: "(heap ?r i = None) = (heap r i = None)" for i by (simp add: h)
  have "ids_ok ?r" using inv none unfolding rt_inv_def ids_ok_def rest by (auto simp: dom_def)
  moreover have "object_ok enc i ob" if "heap ?r i = Some ob" for i ob
  proof -
    from that obtain ob0 where ob0: "heap r i = Some ob0" "ob = ob0 \<or> ob = ob0\<lparr>ob_cancel := True\<rparr>"
      unfolding h by (auto split: if_splits)
    from rt_inv_objectD [OF inv ob0(1)] ob0(2) show ?thesis
      by (cases "ob_phase ob0") (auto simp: object_ok_def coherent_def)
  qed
  ultimately show ?thesis using inv unfolding rt_inv_def rest act by blast
qed

lemma shutdown_poll_inv: "rt_inv enc r \<Longrightarrow> rt_inv enc (snd (shutdown_poll ids r))"
proof (induction ids r rule: shutdown_poll.induct)
  case (1 r)
  then show ?case unfolding rt_inv_def ids_ok_def active_def by simp
next
  case (2 i ids r)
  obtain d r1 where s: "object_stop_poll i r = (d, r1)" by fastforce
  with object_stop_poll_inv [OF "2.prems", of i] 2 show ?case by (cases d) auto
qed

lemma distinct_remove_nth: "distinct xs \<Longrightarrow> distinct (take k xs @ drop (Suc k) xs)"
proof -
  assume "distinct xs"
  then have "distinct (take k xs @ drop k xs)" "distinct (drop (Suc k) xs)" by simp_all
  with set_drop_subset_set_drop [of k "Suc k" xs] show ?thesis
    unfolding distinct_append by auto
qed

lemma set_remove_nth: "set (take k xs @ drop (Suc k) xs) \<subseteq> set xs"
  by (auto dest: in_set_takeD in_set_dropD)

lemma load_remove_inv: "rt_inv enc r \<Longrightarrow> rt_inv enc (load_remove k r)"
  using distinct_remove_nth [of "map fst (loading r)" k] set_remove_nth [of k "loading r"]
  unfolding rt_inv_def ids_ok_def active_def load_remove_def
  by (auto simp: take_map drop_map)

lemma load_begin_inv: "rt_inv enc r \<Longrightarrow> rt_inv enc (snd (load_begin enc elf config caps r))"
proof (cases "checked_inc (rnext r)")
  case None
  assume "rt_inv enc r"
  with None show ?thesis by (simp add: load_begin_def)
next
  case (Some serial)
  assume inv: "rt_inv enc r"
  from Some have serial: "unat serial = Suc (unat (rnext r))" by (simp add: unat_checked_inc)
  have "rt_inv enc (r\<lparr>rnext := serial, loading := loading r @ [(serial, elf, config, caps)]\<rparr>)"
  proof -
    have ids: "ids_ok r" using inv by (simp add: rt_inv_def)
    have fresh: "heap r (object_id serial) = None"
    proof (rule ccontr)
      assume "heap r (object_id serial) \<noteq> None"
      with ids obtain n where "object_id serial = object_id n" "unat n \<le> unat (rnext r)"
        unfolding ids_ok_def by blast
      with serial show False by simp
    qed
    have "serial \<notin> fst ` set (loading r)"
      using ids serial unfolding ids_ok_def by fastforce
    with ids fresh serial
    have "ids_ok (r\<lparr>rnext := serial, loading := loading r @ [(serial, elf, config, caps)]\<rparr>)"
      unfolding ids_ok_def by (auto; fastforce)
    with inv show ?thesis unfolding rt_inv_def active_def by simp
  qed
  with inv Some show ?thesis by (simp add: load_begin_def)
qed


lemma distinct_remove_other:
  assumes "distinct (map f xs)" "k < length xs" "x \<in> set (take k xs @ drop (Suc k) xs)"
  shows "f x \<noteq> f (xs ! k)"
proof -
  obtain ys y zs where xs: "xs = ys @ y # zs" "length ys = k"
    using id_take_nth_drop [OF assms(2)] assms(2) by fastforce
  with assms(1,3) show ?thesis by (auto simp: image_iff)
qed

text \<open>A load in flight owns its serial number, so the object it makes is new.\<close>

lemma load_finish_fresh:
  assumes inv: "rt_inv enc r" and k: "k < length (loading r)"
  shows "heap r (object_id (fst (loading r ! k))) = None"
    and "\<forall>x \<in> set (take k (loading r) @ drop (Suc k) (loading r)). fst x \<noteq> fst (loading r ! k)"
proof -
  have ids: "ids_ok r" using inv by (simp add: rt_inv_def)
  then show "heap r (object_id (fst (loading r ! k))) = None"
    using nth_mem [OF k] unfolding ids_ok_def by blast
  have "distinct (map fst (loading r))" using ids unfolding ids_ok_def by blast
  from distinct_remove_other [OF this k]
  show "\<forall>x \<in> set (take k (loading r) @ drop (Suc k) (loading r)). fst x \<noteq> fst (loading r ! k)"
    by blast
qed

lemma load_finish_inv:
  assumes inv: "rt_inv enc r" and k: "k < length (loading r)"
  shows "rt_inv enc (snd (load_finish e k r))"
proof -
  obtain serial elf config caps where l: "loading r ! k = (serial, elf, config, caps)"
    by (cases "loading r ! k")
  let ?r = "load_remove k r" and ?i = "object_id serial"
  have inv': "rt_inv enc ?r" by (rule load_remove_inv [OF inv])
  have abort: "heap ?r = heap r" "registered ?r = registered r" "rworld ?r = rworld r"
    "rnext ?r = rnext r" "loading ?r = take k (loading r) @ drop (Suc k) (loading r)"
    by (simp_all add: load_remove_def)
  have fresh: "heap r ?i = None" "\<forall>x \<in> set (loading ?r). fst x \<noteq> serial"
    using load_finish_fresh [OF inv k] l by (simp_all add: abort)
  have "rt_inv enc ((put ?i ob ?r)\<lparr>registered := insort ?i (registered r)\<rparr>)" (is "rt_inv enc ?r'")
    if ob: "ob = object_new ?i hash program config caps" for ob :: "'a object" and hash program
  proof -
    have "object_ok enc ?i ob"
      using mbox.start_inv [of mailbox_new enc]
      by (simp add: ob object_new_def object_ok_def coherent_def terminal_def)
    moreover have "active ?r' i = active r i" for i
      using fresh by (auto simp: active_def abort ob object_new_def)
    moreover have "ids_ok ?r'"
    proof -
      have ids: "ids_ok r" "ids_ok ?r" using inv inv' by (simp_all add: rt_inv_def)
      have "unat serial \<le> unat (rnext r)" using ids(1) nth_mem [OF k] l unfolding ids_ok_def by force
      moreover have "?i \<notin> set (registered r)" using ids(1) fresh(1) unfolding ids_ok_def by auto
      ultimately show ?thesis
        using ids fresh unfolding ids_ok_def
        by (auto simp: abort set_insort_key sorted_insort distinct_insort)
    qed
    ultimately show ?thesis using inv' unfolding rt_inv_def by (auto simp: abort active_def)
  qed
  moreover have "load_finish e k r = (case loader e elf of
        Inl msg \<Rightarrow> (Inl (rpc_error_new (- 32010) ''INVALID_OBJECT'' msg), ?r)
      | Inr program \<Rightarrow>
          if \<not> has_section e program ''spinfoam.main''
          then (Inl (rpc_params ''missing spinfoam.main section''), ?r)
          else (let ob = object_new ?i (sha256 (sha2_digest e) elf) program config caps
            in (Inr (object_status ob), (put ?i ob ?r)\<lparr>registered := insort ?i (registered r)\<rparr>)))"
    unfolding load_finish_def l Let_def prod.case abort(2) by (rule refl)
  ultimately show ?thesis using inv' by (simp add: Let_def split: sum.split)
qed

lemma rt_inv_exec: "rt_inv enc r \<Longrightarrow> rt_inv enc (rt_exec e enc op r)"
proof (cases op)
  case (Router op')
  assume inv: "rt_inv enc r"
  show ?thesis
  proof (cases "router_op op'")
    case True
    have w: "host_inv (rworld r)" using inv by (simp add: rt_inv_def)
    have "\<not> feeds i op'" for i using True by (cases op' rule: router_op.cases) auto
    then have "rt_inv enc (r\<lparr>rworld := host_exec enc op' (rworld r)\<rparr>)"
      by (intro rt_inv_world [OF inv] host_inv_exec w quiet_exec)
    with Router True show ?thesis by simp
  next
    case False
    with inv Router show ?thesis by simp
  qed
qed (simp_all add: load_begin_inv load_finish_inv load_remove_inv deliver_inv start_inv task_poll_inv
    act_inv stop_inv stop_poll_inv shutdown_begin_inv shutdown_poll_inv)

interpretation rt: machine "\<lambda>r. r = runtime_new s" "rt_exec e enc" "rt_inv enc" for s e enc
  by unfold_locales (simp_all only: rt_inv_new rt_inv_exec)

end
