(* ===== verification/LifecycleSafe.thy ===== *)
theory LifecycleSafe
  imports Lifecycle
begin

text \<open>
  What the life of an object guarantees: it follows the state diagram, starts and ends at
  most once, a stop completes, and once it has ended nothing of it is left in the mailbox,
  the routing table or the output queues.
\<close>

section \<open>One step\<close>

definition progress :: "'p object \<Rightarrow> 'p object \<Rightarrow> bool" where
  "progress ob ob' \<longleftrightarrow>
     moves (ob_state ob) (ob_state ob') \<and>
     (terminal (ob_state ob) \<longrightarrow> ob_outcome ob' = ob_outcome ob)"

definition progresses :: "'p runtime \<Rightarrow> 'p runtime \<Rightarrow> bool" where
  "progresses r r' \<longleftrightarrow> (\<forall>i ob. heap r i = Some ob \<longrightarrow> (\<exists>ob'. heap r' i = Some ob' \<and> progress ob ob'))"

lemma progress_refl [simp]: "progress ob ob"
  by (simp add: progress_def moves.stay)

lemma progress_same: "ob_state ob' = ob_state ob \<Longrightarrow> ob_outcome ob' = ob_outcome ob \<Longrightarrow> progress ob ob'"
  by (simp add: progress_def moves.stay)

lemma progresses_same: "heap r' = heap r \<Longrightarrow> progresses r r'"
  by (auto simp: progresses_def)

lemma progresses_put:
  "heap r i = Some ob \<Longrightarrow> progress ob ob' \<Longrightarrow> heap r' = (heap r)(i \<mapsto> ob') \<Longrightarrow> progresses r r'"
  by (auto simp: progresses_def)

lemma progresses_new: "heap r i = None \<Longrightarrow> heap r' = (heap r)(i \<mapsto> ob') \<Longrightarrow> progresses r r'"
  by (auto simp: progresses_def)

lemma load_progresses:
  assumes "rt_inv enc r" "k < length (loading r)"
  shows "progresses r (snd (load_finish e k r))"
proof -
  obtain serial elf config caps where l: "loading r ! k = (serial, elf, config, caps)"
    by (cases "loading r ! k")
  have "heap r (object_id serial) = None" using load_finish_fresh(1) [OF assms] l by simp
  moreover have "heap (load_remove k r) = heap r" by (simp add: load_remove_def)
  ultimately show ?thesis
    unfolding load_finish_def l prod.case Let_def
    by (auto intro: progresses_new progresses_same split: sum.splits)
qed

lemma deliver_progresses: "progresses r (snd (runtime_deliver enc i event r))"
proof (cases "runtime_get i r")
  case (Inr ob)
  obtain res ob' where d: "object_deliver enc event ob = (res, ob')" by fastforce
  then have "progress ob ob'"
    by (intro progress_same) (auto simp: object_deliver_def split: if_splits prod.splits)
  with Inr d runtime_getD [OF Inr] show ?thesis
    by (auto simp: runtime_deliver_def intro: progresses_put)
qed (simp add: runtime_deliver_def progresses_same)

lemma start_progresses: "progresses r (snd (runtime_start i r))"
proof (cases "runtime_get i r")
  case (Inr ob)
  have "progress ob (ob\<lparr>ob_state := Starting, ob_phase := Spawned, ob_task := True\<rparr>)"
    if "ob_state ob = Loaded"
    using that by (simp add: progress_def moves.start terminal_def)
  with Inr runtime_getD [OF Inr] show ?thesis
    by (auto simp: runtime_start_def Let_def intro: progresses_put progresses_same split: option.splits)
qed (simp add: runtime_start_def progresses_same)

lemma task_poll_progresses:
  assumes inv: "rt_inv enc r"
  shows "progresses r (task_poll enc i res r)"
proof (cases "heap r i")
  case (Some ob)
  have ok: "coherent ob" using rt_inv_objectD [OF inv Some] by (simp add: object_ok_def)
  show ?thesis
  proof (cases "ob_phase ob \<in> {Spawned, Active}")
    case True
    let ?ob = "task_started ob"
    have live: "ob_state ob \<in> {Starting, Running, Stopping}" "\<not> terminal (ob_state ob)"
      using ok True by (auto simp: coherent_def terminal_def)
    have started: "\<not> ob_cancel ?ob \<Longrightarrow> ob_state ob \<noteq> Stopping"
      using ok by (auto simp: task_started_def coherent_def split: if_splits)
    have more: "progress ob ?ob" if "\<not> ob_cancel ?ob"
      using live started [OF that] True ok
      by (auto simp: progress_def task_started_def moves_table coherent_def)
    have end': "progress ob ((ended_object x ?ob)\<lparr>ob_wait := ''none'', ob_mailbox := mailbox_clear (ob_mailbox ?ob),
         ob_phase := Ended\<rparr>)" if "x = None \<or> \<not> ob_cancel ?ob" for x
    proof -
      have "ob_state (ended_object None ?ob) = Stopped" by (simp add: ended_object_def)
      with live started that ended_object_fields(5) [of x ?ob] show ?thesis
        by (cases "ob_state ob") (auto simp: progress_def moves_table terminal_def)
    qed
    have over: "progresses r (task_end enc i x ?ob r)" if "x = None \<or> \<not> ob_cancel ?ob" for x
    proof -
      obtain v where "task_end enc i x ?ob r =
        put i ((ended_object x ?ob)\<lparr>ob_wait := ''none'', ob_mailbox := mailbox_clear (ob_mailbox ?ob),
           ob_phase := Ended\<rparr>) (r\<lparr>rworld := end_world enc i v (rworld r)\<rparr>)"
        using task_end_eq by blast
      with end' [OF that] show ?thesis by (intro progresses_put [OF Some]) simp_all
    qed
    have "task_poll enc i res r = (if ob_cancel ?ob then task_end enc i None ?ob r
        else if res = RunMore then put i ?ob r else task_end enc i (Some res) ?ob r)"
      using Some True by (auto simp: task_poll_def Let_def split: run_result.splits)
    with over [of None] over [of "Some res"] more Some show ?thesis
      by (auto intro: progresses_put)
  next
    case False
    with Some show ?thesis by (auto simp: task_poll_def progresses_same)
  qed
qed (simp add: task_poll_def progresses_same)

lemma act_progresses: "progresses r (guest_acts enc i a r)"
proof (cases "heap r i")
  case (Some ob)
  have "progress ob (act_object a ob)"
    by (rule progress_same) (simp_all add: act_object_def split: guest_act.splits)
  with Some show ?thesis
    by (auto simp: guest_acts_def intro: progresses_put progresses_same)
qed (simp add: guest_acts_def progresses_same)

text \<open>A pass of stop may be followed by another: its effect on the state is idempotent.\<close>

fun stop_state :: "state \<Rightarrow> state" where
  "stop_state Loaded = Stopped"
| "stop_state Starting = Stopping"
| "stop_state Running = Stopping"
| "stop_state s = s"

definition stops :: "'p runtime \<Rightarrow> 'p runtime \<Rightarrow> bool" where
  "stops r r' \<longleftrightarrow> (\<forall>i ob. heap r i = Some ob \<longrightarrow> (\<exists>ob'. heap r' i = Some ob' \<and>
     (ob_state ob' = ob_state ob \<or> ob_state ob' = stop_state (ob_state ob)) \<and>
     ob_outcome ob' = ob_outcome ob))"

lemma stop_state_idem [simp]: "stop_state (stop_state s) = stop_state s"
  by (cases s) auto

lemma stops_trans: "stops q r \<Longrightarrow> stops r t \<Longrightarrow> stops q t"
  unfolding stops_def
proof (intro allI impI)
  fix i ob
  let ?to = "\<lambda>ob ob'. (ob_state ob' = ob_state ob \<or> ob_state ob' = stop_state (ob_state ob)) \<and>
     ob_outcome ob' = ob_outcome ob"
  assume qr: "\<forall>i ob. heap q i = Some ob \<longrightarrow> (\<exists>ob'. heap r i = Some ob' \<and> ?to ob ob')"
    and rt: "\<forall>i ob. heap r i = Some ob \<longrightarrow> (\<exists>ob'. heap t i = Some ob' \<and> ?to ob ob')"
    and ob: "heap q i = Some ob"
  from qr ob obtain ob1 where 1: "heap r i = Some ob1" "?to ob ob1" by blast
  with rt obtain ob2 where 2: "heap t i = Some ob2" "?to ob1 ob2" by blast
  from 1(2) 2(2) have "?to ob ob2" by auto
  with 2(1) show "\<exists>ob'. heap t i = Some ob' \<and> ?to ob ob'" by blast
qed

lemma stops_progresses: "stops r r' \<Longrightarrow> progresses r r'"
proof -
  have "moves s (stop_state s)" for s by (cases s) (auto simp: moves_table)
  then show "stops r r' \<Longrightarrow> progresses r r'"
    unfolding stops_def progresses_def progress_def by (metis moves.stay)
qed

lemma stops_poll: "stops r (snd (object_stop_poll i r))"
proof (cases "heap r i")
  case (Some ob)
  then show ?thesis
    by (cases "ob_state ob") (auto simp: stops_def object_stop_poll_def Let_def)
qed (simp add: stops_def object_stop_poll_def)

lemma stops_heap: "stops r r1 \<Longrightarrow> heap r2 = heap r1 \<Longrightarrow> stops r r2"
  by (simp add: stops_def)

lemma stops_runtime: "stops r (snd (runtime_stop_poll enc i unload r))"
proof -
  obtain d r1 where "object_stop_poll i r = (d, r1)" by fastforce
  with stops_poll [of r i] show ?thesis
    by (cases d) (auto simp: runtime_stop_poll_def Let_def simp del: host_exec.simps
        elim!: stops_heap)
qed

lemma stops_refl [simp]: "stops r r"
  by (simp add: stops_def)

lemma stops_shutdown: "stops r (snd (shutdown_poll ids r))"
proof (induction ids r rule: shutdown_poll.induct)
  case (2 i ids r)
  obtain d r1 where s: "object_stop_poll i r = (d, r1)" by fastforce
  with stops_poll [of r i] 2 show ?case by (cases d) (auto intro: stops_trans)
qed (simp add: stops_def)

lemma exec_progresses: "rt_inv enc r \<Longrightarrow> progresses r (rt_exec e enc op r)"
proof (cases op)
  case (LoadBegin elf config caps)
  then show ?thesis by (auto simp: load_begin_def intro: progresses_same split: option.splits)
next
  case ShutdownBegin
  then show ?thesis
    by (auto simp: shutdown_begin_def progresses_def intro: progress_same)
next
  case (Stop i unload)
  then show ?thesis
    using stops_runtime [of r enc i unload]
    by (auto simp: runtime_stop_def intro: stops_progresses split: sum.splits)
qed (auto simp: load_progresses load_remove_def deliver_progresses start_progresses
    task_poll_progresses act_progresses
    intro: progresses_same stops_progresses stops_runtime stops_shutdown simp del: host_exec.simps)


section \<open>Runs\<close>

abbreviation rrun :: "'p engine \<Rightarrow> encoder \<Rightarrow> string \<Rightarrow> rt_op list \<Rightarrow> 'p runtime" where
  "rrun e enc s ops \<equiv> fold (rt_exec e enc) ops (runtime_new s)"

lemma rrun_inv: "rt_inv enc (rrun e enc s ops)"
  by (rule rt.reach_inv) (rule refl)

lemma run_terminal:
  assumes "rt_inv enc r" "heap r i = Some ob" "terminal (ob_state ob)"
  shows "\<exists>ob'. heap (fold (rt_exec e enc) ops r) i = Some ob' \<and> ob_state ob' = ob_state ob \<and>
    ob_outcome ob' = ob_outcome ob"
  using assms
proof (induction ops arbitrary: r ob)
  case (Cons op ops)
  from exec_progresses [OF Cons.prems(1), of e op] Cons.prems(2)
  obtain ob1 where 1: "heap (rt_exec e enc op r) i = Some ob1" "progress ob ob1"
    unfolding progresses_def by blast
  with Cons.prems(3) have same: "ob_state ob1 = ob_state ob" "ob_outcome ob1 = ob_outcome ob"
    by (auto simp: progress_def dest: moves_terminal)
  from Cons.IH [OF rt_inv_exec [OF Cons.prems(1)] 1(1)] Cons.prems(3) same show ?case by simp
qed simp

lemma moves_loaded: "moves s t \<Longrightarrow> s \<noteq> Loaded \<Longrightarrow> t \<noteq> Loaded"
  by (cases s) (auto simp: moves_table)

lemma run_loaded:
  assumes "rt_inv enc r" "heap r i = Some ob" "ob_state ob \<noteq> Loaded"
  shows "\<exists>ob'. heap (fold (rt_exec e enc) ops r) i = Some ob' \<and> ob_state ob' \<noteq> Loaded"
  using assms
proof (induction ops arbitrary: r ob)
  case (Cons op ops)
  from exec_progresses [OF Cons.prems(1), of e op] Cons.prems(2)
  obtain ob1 where 1: "heap (rt_exec e enc op r) i = Some ob1" "progress ob ob1"
    unfolding progresses_def by blast
  with Cons.prems(3) have "ob_state ob1 \<noteq> Loaded" by (auto simp: progress_def dest: moves_loaded)
  from Cons.IH [OF rt_inv_exec [OF Cons.prems(1)] 1(1) this] show ?case by simp
qed auto

section \<open>Properties\<close>

text \<open>
  Every step of the system, whatever requests, polls, answers and guest actions come,
  keeps every object and moves it at most along an edge of the state diagram: loaded to
  starting or stopped, starting to running, a live state to stopping or to its end, and
  stopping only to stopped.
\<close>

lemma object_follows_diagram:
  assumes "heap (rrun e enc s ops) i = Some ob"
  shows "\<exists>ob'. heap (rrun e enc s (ops @ [op])) i = Some ob' \<and> moves (ob_state ob) (ob_state ob')"
  using exec_progresses [OF rrun_inv [of enc e ops s], of e op] assms
  unfolding progresses_def progress_def by auto

text \<open>
  An object that stopped, exited or failed stays so for ever with the outcome it had.
\<close>

lemma terminal_states_final:
  assumes "heap (rrun e enc s ops) i = Some ob" and "terminal (ob_state ob)"
  shows "\<exists>ob'. heap (rrun e enc s (ops @ later)) i = Some ob' \<and> ob_state ob' = ob_state ob \<and>
    ob_outcome ob' = ob_outcome ob"
  using run_terminal [OF rrun_inv assms, of e later] by simp

text \<open>
  An object in a terminal state holds nothing: no event in its mailbox, no remembered
  event identifier, no routing entry, no live host call and no queued output, at every
  moment after it ended.
\<close>

definition holds_nothing :: "string \<Rightarrow> 'p object \<Rightarrow> world \<Rightarrow> bool" where
  "holds_nothing i ob w \<longleftrightarrow>
     entries (ob_mailbox ob) = [] \<and> recent (ob_mailbox ob) = [] \<and>
     (\<forall>j. map_of (pending (whost w)) j \<noteq> Some i) \<and>
     (\<forall>j. map_option cobject (map_of (wcalls w) j) \<noteq> Some i) \<and> queued (wout w) i = []"

lemma ended_holds_nothing:
  assumes inv: "rt_inv enc r" and ob: "heap r i = Some ob" "terminal (ob_state ob)"
  shows "holds_nothing i ob (rworld r)"
proof -
  have ok: "object_ok enc i ob" by (rule rt_inv_objectD [OF inv ob(1)])
  with ob(2) have "ob_phase ob \<noteq> Active"
    by (auto simp: object_ok_def coherent_def terminal_def)
  then have q: "quiet i (rworld r)" by (rule rt_inv_quiet [OF inv ob(1)])
  have "host_inv (rworld r)" using inv by (simp add: rt_inv_def)
  from quiet_pending [OF q this] q ok ob(2) show ?thesis
    by (auto simp: object_ok_def quiet_def holds_nothing_def)
qed

lemma ended_objects_hold_nothing:
  assumes "heap (rrun e enc s ops) i = Some ob" and "terminal (ob_state ob)"
  shows "holds_nothing i ob (rworld (rrun e enc s ops))"
  by (rule ended_holds_nothing [OF rrun_inv assms])

text \<open>
  A start never hits the missing-program panic, and succeeds at most once in the life
  of an object: after a success no later start of it succeeds.
\<close>

lemma object_starts_once:
  "let (res, r1) = runtime_start i (rrun e enc s ops) in
     res \<noteq> None \<and>
     (\<forall>v v' later. res = Some (Inr v) \<longrightarrow>
        fst (runtime_start i (fold (rt_exec e enc) later r1)) \<noteq> Some (Inr v'))"
proof -
  let ?r = "rrun e enc s ops"
  have inv: "rt_inv enc ?r" by (rule rrun_inv)
  obtain res r1 where s: "runtime_start i ?r = (res, r1)" by fastforce
  have inv1: "rt_inv enc r1" using start_inv [OF inv, of i] s by simp
  have "res \<noteq> None"
  proof (cases "runtime_get i ?r")
    case (Inr ob)
    with runtime_getD have "heap ?r i = Some ob" by blast
    from rt_inv_objectD [OF inv this] Inr s show ?thesis
      by (auto simp: runtime_start_def object_ok_def coherent_def Let_def split: if_splits option.splits)
  qed (use s in \<open>auto simp: runtime_start_def\<close>)
  moreover have "fst (runtime_start i (fold (rt_exec e enc) later r1)) \<noteq> Some (Inr v')"
    if "res = Some (Inr v)" for v v' later
  proof -
    from s that obtain ob1 where "heap r1 i = Some ob1" "ob_state ob1 \<noteq> Loaded"
      by (auto simp: runtime_start_def Let_def split: sum.splits if_splits option.splits)
    from run_loaded [OF inv1 this, of e later] obtain ob2 where
      2: "heap (fold (rt_exec e enc) later r1) i = Some ob2" "ob_state ob2 \<noteq> Loaded" by blast
    then show ?thesis
      using runtime_getD [of i "fold (rt_exec e enc) later r1"]
      by (auto simp: runtime_start_def split: sum.splits)
  qed
  ultimately show ?thesis using s by auto
qed

definition released :: "string \<Rightarrow> 'p runtime \<Rightarrow> bool" where
  "released i r \<longleftrightarrow> (\<exists>ob. heap r i = Some ob \<and> terminal (ob_state ob) \<and> ob_program ob = None \<and>
     ob_config ob = Null \<and> entries (ob_mailbox ob) = [])"

lemma stop_poll_done:
  assumes "object_stop_poll i r = (True, r1)" "heap r i = Some ob"
  shows "\<exists>v r2. runtime_stop_poll enc i unload r = (Done (Inr v), r2) \<and> released i r2"
proof -
  have "released i r1"
    using assms
    by (cases "ob_state ob") (auto simp: object_stop_poll_def Let_def released_def terminal_def split: if_splits)
  then obtain ob1 where "heap r1 i = Some ob1" "released i r1" unfolding released_def by blast
  with assms(1) show ?thesis
    by (auto simp: runtime_stop_poll_def Let_def released_def simp del: host_exec.simps)
qed

lemma stop_polls:
  assumes inv: "rt_inv enc r" and ob: "heap r i = Some ob"
  shows "let (res, r1) = runtime_stop_poll enc i unload r in
    (\<exists>v. res = Done (Inr v) \<and> released i r1) \<or>
    (res = Pending \<and> (\<exists>v r2. runtime_stop_poll enc i unload (task_poll enc i x r1) =
       (Done (Inr v), r2) \<and> released i r2))"
proof -
  have ok: "coherent ob" using rt_inv_objectD [OF inv ob] by (simp add: object_ok_def)
  show ?thesis
  proof (cases "ob_state ob \<in> {Starting, Running, Stopping}")
    case False
    then have "fst (object_stop_poll i r)"
      using ob ok by (cases "ob_phase ob")
        (auto simp: object_stop_poll_def Let_def coherent_def terminal_def)
    then obtain r1 where "object_stop_poll i r = (True, r1)" by (metis prod.collapse)
    from stop_poll_done [OF this ob, of enc unload] show ?thesis by (auto simp: Let_def)
  next
    case True
    let ?ob = "ob\<lparr>ob_state := Stopping, ob_cancel := True\<rparr>"
    have live: "ob_phase ob \<in> {Spawned, Active}"
      using ok True by (cases "ob_phase ob") (auto simp: coherent_def terminal_def)
    have r1: "runtime_stop_poll enc i unload r = (Pending, put i ?ob r)"
      using ob True by (auto simp: runtime_stop_poll_def object_stop_poll_def Let_def)
    have cancel: "ob_cancel (task_started ?ob)" by (simp add: task_started_def)
    have t: "task_poll enc i x (put i ?ob r) = task_end enc i None (task_started ?ob) (put i ?ob r)"
      using live cancel by (auto simp: task_poll_def Let_def)
    obtain ob2 where ob2: "heap (task_end enc i None (task_started ?ob) (put i ?ob r)) i = Some ob2"
      "ob_state ob2 = Stopped" "ob_phase ob2 = Ended"
      using task_end_eq [of enc i None "task_started ?ob" "put i ?ob r"]
      by (auto simp: ended_object_def)
    then have "fst (object_stop_poll i (task_end enc i None (task_started ?ob) (put i ?ob r)))"
      by (simp add: object_stop_poll_def Let_def)
    then obtain r2 where
      "object_stop_poll i (task_end enc i None (task_started ?ob) (put i ?ob r)) = (True, r2)"
      by (metis prod.collapse)
    from stop_poll_done [OF this ob2(1), of enc unload] r1 t show ?thesis by (simp add: Let_def)
  qed
qed

lemma stop_done:
  assumes "rt_inv enc r"
  obtains v where "fst (runtime_stop_poll enc i unload r) = Done v"
  | v where "fst (runtime_stop_poll enc i unload r) = Pending"
      "fst (runtime_stop_poll enc i unload (task_poll enc i x (snd (runtime_stop_poll enc i unload r)))) = Done v"
proof (cases "heap r i")
  case None
  then have "\<exists>v. fst (runtime_stop_poll enc i unload r) = Done v"
    by (cases unload) (simp_all add: runtime_stop_poll_def object_stop_poll_def Let_def del: host_exec.simps)
  with that(1) show thesis by blast
next
  case (Some ob)
  from stop_polls [OF assms this, of unload x] that show thesis
    by (cases "runtime_stop_poll enc i unload r") auto
qed

text \<open>
  C12: a stop completes. Its first pass either finishes, or it waits, and then one poll of
  the object's task, whatever the program would do, is enough for the next pass to finish.
  In both cases the answer is a success and the object is in a terminal state with program,
  configuration and mailbox released.
\<close>

theorem stop_completes:
  assumes "heap (rrun e enc s ops) i = Some ob"
  shows "let r = rrun e enc s ops; (res, r1) = runtime_stop_poll enc i unload r in
    (\<exists>v. res = Done (Inr v) \<and> released i r1) \<or>
    (res = Pending \<and> (\<exists>v r2. runtime_stop_poll enc i unload (task_poll enc i x r1) =
       (Done (Inr v), r2) \<and> released i r2))"
  unfolding Let_def by (rule stop_polls [unfolded Let_def, OF rrun_inv assms])

text \<open>
  A load that succeeds makes a new object: its identifier was never in use, it is
  loaded, registered and reported with its digest, and no other object changes; a load that
  fails leaves the objects alone.
\<close>

lemma load_makes_new_object:
  assumes "k < length (loading (rrun e enc s ops))"
  shows "let r = rrun e enc s ops; (res, r') = load_finish e k r in
    (case res of
       Inl err \<Rightarrow> heap r' = heap r \<and> registered r' = registered r
     | Inr v \<Rightarrow> \<exists>i ob. heap r i = None \<and> heap r' = (heap r)(i \<mapsto> ob) \<and>
         ob_id ob = i \<and> ob_state ob = Loaded \<and> v = object_status ob \<and>
         set (registered r') = insert i (set (registered r)) \<and> sorted (registered r'))"
proof -
  let ?r = "rrun e enc s ops"
  obtain serial elf config caps where l: "loading ?r ! k = (serial, elf, config, caps)"
    by (cases "loading ?r ! k")
  have fresh: "heap ?r (object_id serial) = None"
    using load_finish_fresh(1) [OF rrun_inv assms] l by simp
  have sorted: "sorted (registered ?r)"
    using rrun_inv [of enc e ops s] by (simp add: rt_inv_def ids_ok_def)
  have keep: "heap (load_remove k ?r) = heap ?r" "registered (load_remove k ?r) = registered ?r"
    by (simp_all add: load_remove_def)
  show ?thesis
  proof (cases "loader e elf")
    case (Inl msg)
    then show ?thesis by (simp add: load_finish_def l keep Let_def)
  next
    case (Inr program)
    let ?ob = "object_new (object_id serial) (sha256 (sha2_digest e) elf) program config caps"
    have ob: "ob_id ?ob = object_id serial" "ob_state ?ob = Loaded"
      by (simp_all add: object_new_def)
    show ?thesis
    proof (cases "has_section e program ''spinfoam.main''")
      case True
      with Inr have "load_finish e k ?r = (Inr (object_status ?ob),
          (put (object_id serial) ?ob (load_remove k ?r))
            \<lparr>registered := insort (object_id serial) (registered ?r)\<rparr>)"
        unfolding load_finish_def l Let_def prod.case keep by simp
      with fresh sorted ob show ?thesis
        by (auto simp: keep Let_def set_insort_key sorted_insort
            intro!: exI [of _ "object_id serial"] exI [of _ ?ob])
    next
      case False
      with Inr show ?thesis by (simp add: load_finish_def l keep Let_def)
    qed
  qed
qed

section \<open>A run for examples\<close>

text \<open>Every program loads; the first object starts, gets an event, calls the host and exits.\<close>

definition demo_engine :: "unit engine" where
  "demo_engine = \<lparr>loader = (\<lambda>_. Inr ()), has_section = (\<lambda>_ _. True), sha2_digest = (\<lambda>_. [CHR 0x00])\<rparr>"

definition demo_load :: "rt_op list" where
  "demo_load = [LoadBegin ''elf'' Null [], LoadFinish 0]"

definition demo_start :: "rt_op list" where
  "demo_start = demo_load @ [Start ''o1'', Poll ''o1'' RunMore]"

definition demo_exit :: "rt_op list" where
  "demo_exit = demo_start @ [Poll ''o1'' (RunCode 3)]"

lemma valid_Null: "valid_value tiny_enc Null"
  by (simp add: valid_value_iff tiny_enc_def MAX_VALUE_BYTES_def)

lemma demo_object_id: "object_id 1 = ''o1''"
  by (simp add: object_id_def show_nat.simps digit_def)

abbreviation demo_object :: "unit object" where
  "demo_object \<equiv> object_new ''o1'' ''00'' () Null []"

lemma demo_hash [simp]: "sha256 (\<lambda>_. [CHR 0x00]) b = ''00''"
  by (simp add: sha256_def hex_byte_def hex_digit_def)

lemma demo_begun: "rrun demo_engine tiny_enc ''s'' [LoadBegin ''elf'' Null []] =
    (runtime_new ''s'')\<lparr>rnext := 1, loading := [(1, ''elf'', Null, [])]\<rparr>"
  by (simp add: load_begin_def runtime_new_def valid_Null checked_inc_def)

lemma demo_load_run: "rrun demo_engine tiny_enc ''s'' demo_load =
    (runtime_new ''s'')\<lparr>heap := [''o1'' \<mapsto> demo_object], registered := [''o1''], rnext := 1\<rparr>"
proof -
  have "rrun demo_engine tiny_enc ''s'' demo_load =
      rt_exec demo_engine tiny_enc (LoadFinish 0) (rrun demo_engine tiny_enc ''s'' [LoadBegin ''elf'' Null []])"
    by (simp add: demo_load_def)
  also have "\<dots> = (runtime_new ''s'')\<lparr>heap := [''o1'' \<mapsto> demo_object], registered := [''o1''], rnext := 1\<rparr>"
    unfolding demo_begun
    by (simp add: load_finish_def load_remove_def demo_engine_def demo_object_id Let_def runtime_new_def)
  finally show ?thesis .
qed

lemma demo_start_run: "heap (rrun demo_engine tiny_enc ''s'' demo_start) ''o1'' =
    Some (demo_object\<lparr>ob_config := Null, ob_state := Running, ob_phase := Active, ob_task := True\<rparr>)"
proof -
  have "rrun demo_engine tiny_enc ''s'' demo_start =
      fold (rt_exec demo_engine tiny_enc) [Start ''o1'', Poll ''o1'' RunMore]
        (rrun demo_engine tiny_enc ''s'' demo_load)"
    by (simp add: demo_start_def)
  then show ?thesis unfolding demo_load_run
    by (simp add: runtime_start_def runtime_get_def task_poll_def task_started_def
        object_new_def Let_def)
qed

lemma demo_exit_run: "\<exists>ob. heap (rrun demo_engine tiny_enc ''s'' demo_exit) ''o1'' = Some ob \<and>
    ob_state ob = Exited"
proof -
  have "rrun demo_engine tiny_enc ''s'' demo_exit =
      task_poll tiny_enc ''o1'' (RunCode 3) (rrun demo_engine tiny_enc ''s'' demo_start)"
    by (simp add: demo_exit_def)
  then show ?thesis
    using task_end_eq [of tiny_enc "''o1''" "Some (RunCode 3)"
        "demo_object\<lparr>ob_config := Null, ob_state := Running, ob_phase := Active, ob_task := True\<rparr>"
        "rrun demo_engine tiny_enc ''s'' demo_start"]
    by (auto simp: task_poll_def demo_start_run task_started_def object_new_def ended_object_def)
qed

lemma object_follows_diagram_witness:
  "\<exists>ob'. heap (rrun demo_engine tiny_enc ''s'' (demo_start @ [Stop ''o1'' False])) ''o1'' = Some ob' \<and>
     moves Running (ob_state ob')"
  using object_follows_diagram [OF demo_start_run, of "Stop ''o1'' False"] by simp

lemma terminal_states_final_witness:
  "\<exists>ob'. heap (rrun demo_engine tiny_enc ''s'' (demo_exit @ [Stop ''o1'' True, Poll ''o1'' RunMore]))
     ''o1'' = Some ob' \<and> ob_state ob' = Exited"
proof -
  obtain ob where ob: "heap (rrun demo_engine tiny_enc ''s'' demo_exit) ''o1'' = Some ob"
    "ob_state ob = Exited"
    using demo_exit_run by blast
  then have "terminal (ob_state ob)" by (simp add: terminal_def)
  from terminal_states_final [OF ob(1) this, of "[Stop ''o1'' True, Poll ''o1'' RunMore]"] ob(2)
  show ?thesis by metis
qed

lemma ended_objects_hold_nothing_witness:
  "queued (wout (rworld (rrun demo_engine tiny_enc ''s'' demo_exit))) ''o1'' = []"
proof -
  obtain ob where ob: "heap (rrun demo_engine tiny_enc ''s'' demo_exit) ''o1'' = Some ob"
    "ob_state ob = Exited"
    using demo_exit_run by blast
  then have "terminal (ob_state ob)" by (simp add: terminal_def)
  from ended_objects_hold_nothing [OF ob(1) this] show ?thesis by (simp add: holds_nothing_def)
qed

lemma object_starts_once_witness:
  "\<exists>v r1. runtime_start ''o1'' (rrun demo_engine tiny_enc ''s'' demo_load) = (Some (Inr v), r1) \<and>
     (\<forall>v'. fst (runtime_start ''o1'' (rt_exec demo_engine tiny_enc (Poll ''o1'' RunMore) r1)) \<noteq>
        Some (Inr v'))"
proof -
  obtain v r1 where s: "runtime_start ''o1'' (rrun demo_engine tiny_enc ''s'' demo_load) =
      (Some (Inr v), r1)"
    unfolding demo_load_run by (simp add: runtime_start_def runtime_get_def object_new_def Let_def)
  have "fst (runtime_start ''o1'' (fold (rt_exec demo_engine tiny_enc) [Poll ''o1'' RunMore] r1)) \<noteq>
      Some (Inr v')" for v'
  proof -
    have "\<forall>v' later. fst (runtime_start ''o1'' (fold (rt_exec demo_engine tiny_enc) later r1)) \<noteq>
        Some (Inr v')"
      using object_starts_once [of "''o1''" demo_engine tiny_enc demo_load "''s''"]
      unfolding s by (simp del: fold_simps)
    then show ?thesis by blast
  qed
  with s show ?thesis by auto
qed

theorem stop_completes_witness:
  "\<exists>v r2. runtime_stop_poll tiny_enc ''o1'' True (task_poll tiny_enc ''o1'' RunMore
     (snd (runtime_stop_poll tiny_enc ''o1'' True (rrun demo_engine tiny_enc ''s'' demo_start)))) =
   (Done (Inr v), r2) \<and> released ''o1'' r2"
proof -
  have "fst (runtime_stop_poll tiny_enc ''o1'' True (rrun demo_engine tiny_enc ''s'' demo_start)) = Pending"
    by (simp add: runtime_stop_poll_def object_stop_poll_def demo_start_run Let_def object_new_def)
  then obtain r1 where
    "runtime_stop_poll tiny_enc ''o1'' True (rrun demo_engine tiny_enc ''s'' demo_start) = (Pending, r1)"
    by (metis prod.collapse)
  with stop_completes [OF demo_start_run, of True RunMore] show ?thesis by (auto simp: Let_def)
qed

lemma load_makes_new_object_witness:
  "\<exists>i ob. heap (snd (load_finish demo_engine 0
       (rrun demo_engine tiny_enc ''s'' [LoadBegin ''elf'' Null []]))) i = Some ob \<and>
     ob_state ob = Loaded"
proof -
  have k: "0 < length (loading (rrun demo_engine tiny_enc ''s'' [LoadBegin ''elf'' Null []]))"
    unfolding demo_begun by simp
  obtain v r' where l: "load_finish demo_engine 0
      (rrun demo_engine tiny_enc ''s'' [LoadBegin ''elf'' Null []]) = (Inr v, r')"
    unfolding demo_begun by (simp add: load_finish_def demo_engine_def Let_def)
  from load_makes_new_object [OF k] show ?thesis unfolding l Let_def by auto
qed

end
