(* ===== verification/Framing.thy ===== *)
theory Framing
  imports Outbox
begin

text \<open>
  Splitting the input into frames (\<^verbatim>\<open>frame\<close> of \<^verbatim>\<open>src/protocol.rs\<close>). The buffered reader is a
  list of what its \<^verbatim>\<open>fill_buf\<close> will give: an error or a buffer, the empty list and an empty
  buffer being the end of the input. \<^verbatim>\<open>consume\<close> takes bytes off the first buffer. The
  abstract specification \<open>next_frame\<close> looks at the bytes only, not at how they arrive.
\<close>

type_synonym reader = "(string + bytes) list"

datatype frame_result = FrameBytes bytes | EndOfInput | FrameError string

text \<open>\<^verbatim>\<open>iter().position(|b| *b == b'\n')\<close>.\<close>

fun position_newline :: "bytes \<Rightarrow> nat option" where
  "position_newline [] = None"
| "position_newline (c # cs) =
     (if c = newline then Some 0 else map_option Suc (position_newline cs))"

text \<open>
  When the buffer has no newline all of it is consumed, so the loop goes on with the rest
  of the reader.
\<close>

fun read_frame :: "bytes \<Rightarrow> reader \<Rightarrow> frame_result \<times> reader" where
  "read_frame frame [] =
     (if frame = [] then EndOfInput else FrameError ''EOF inside JSON frame'', [])"
| "read_frame frame (Inl e # r) = (FrameError e, r)"
| "read_frame frame (Inr b # r) =
     (if b = [] then
        (if frame = [] then EndOfInput else FrameError ''EOF inside JSON frame'', Inr b # r)
      else
        let end' = map_option Suc (position_newline b);
            count = (case end' of Some i \<Rightarrow> i | None \<Rightarrow> length b)
        in if MAX_FRAME < length frame + count then (FrameError ''frame exceeds limit'', Inr b # r)
           else case end' of
               Some i \<Rightarrow> (FrameBytes (frame @ take count b),
                          if count = length b then r else Inr (drop count b) # r)
             | None \<Rightarrow> read_frame (frame @ take count b) r)"

text \<open>What remains to be read of a reader without errors.\<close>

definition chunks_ok :: "reader \<Rightarrow> bool" where
  "chunks_ok r \<longleftrightarrow> (\<forall>x \<in> set r. \<exists>b. x = Inr b \<and> b \<noteq> [])"

definition remaining :: "reader \<Rightarrow> bytes" where
  "remaining r = concat (map (\<lambda>x. case x of Inl _ \<Rightarrow> [] | Inr b \<Rightarrow> b) r)"

definition next_frame :: "bytes \<Rightarrow> frame_result \<times> bytes" where
  "next_frame s =
     (case position_newline s of
        Some i \<Rightarrow> if MAX_FRAME < Suc i then (FrameError ''frame exceeds limit'', s)
                  else (FrameBytes (take (Suc i) s), drop (Suc i) s)
      | None \<Rightarrow> if s = [] then (EndOfInput, [])
                else if MAX_FRAME < length s then (FrameError ''frame exceeds limit'', s)
                else (FrameError ''EOF inside JSON frame'', []))"

section \<open>Newlines\<close>

lemma newline_append:
  "position_newline (s @ t) =
     (case position_newline s of Some i \<Rightarrow> Some i
      | None \<Rightarrow> map_option ((+) (length s)) (position_newline t))"
  by (induction s; cases "position_newline t") (auto split: option.splits)

lemma position_None: "position_newline s = None \<longleftrightarrow> newline \<notin> set s"
  by (induction s) auto

lemma position_less: "position_newline s = Some i \<Longrightarrow> i < length s"
  by (induction s arbitrary: i) (auto split: if_splits)

lemma position_text: "newline \<notin> set s \<Longrightarrow> position_newline (s @ newline # t) = Some (length s)"
  by (simp add: newline_append position_None [symmetric])

text \<open>The limit can be reached with an unfinished frame only from below.\<close>

lemma read_frame_spec:
  assumes "chunks_ok r" and "newline \<notin> set frame" and "length frame \<le> MAX_FRAME"
  shows "case next_frame (frame @ remaining r) of
      (FrameBytes b, rest) \<Rightarrow> \<exists>r'. read_frame frame r = (FrameBytes b, r') \<and> remaining r' = rest \<and> chunks_ok r'
    | (x, rest) \<Rightarrow> fst (read_frame frame r) = x"
  using assms
proof (induction frame r rule: read_frame.induct)
  case (1 frame)
  then show ?case
    by (auto simp: next_frame_def remaining_def position_None split: option.splits)
       (metis option.distinct(1) position_None)
next
  case (2 frame e r)
  then show ?case by (simp add: chunks_ok_def)
next
  case (3 frame b r)
  have b: "b \<noteq> []" and ok: "chunks_ok r" using "3.prems"(1) by (auto simp: chunks_ok_def)
  have rem: "remaining (Inr b # r) = b @ remaining r" by (simp add: remaining_def)
  have none: "position_newline frame = None" using "3.prems"(2) by (simp add: position_None)
  show ?case
  proof (cases "position_newline b")
    case (Some i)
    then have i: "i < length b" by (rule position_less)
    have pos: "position_newline (frame @ remaining (Inr b # r)) = Some (length frame + i)"
      using none Some by (simp add: rem newline_append)
    have tail: "remaining (if Suc i = length b then r else Inr (drop (Suc i) b) # r) =
        drop (Suc i) b @ remaining r"
      "chunks_ok (if Suc i = length b then r else Inr (drop (Suc i) b) # r)"
      using i ok by (auto simp: remaining_def chunks_ok_def)
    show ?thesis
    proof (cases "MAX_FRAME < length frame + Suc i")
      case True
      with b Some pos show ?thesis by (simp add: next_frame_def Let_def)
    next
      case False
      with b Some pos i tail show ?thesis
        by (cases "Suc i = length b") (simp_all add: next_frame_def Let_def rem)
    qed
  next
    case None
    then have nb: "newline \<notin> set b" by (simp add: position_None)
    show ?thesis
    proof (cases "MAX_FRAME < length frame + length b")
      case True
      have "fst (next_frame (frame @ remaining (Inr b # r))) = FrameError ''frame exceeds limit''"
        using True none None b
        by (auto simp: next_frame_def rem newline_append split: option.splits)
      with True b None show ?thesis by (auto simp: Let_def split: prod.splits frame_result.splits)
    next
      case False
      have "case next_frame ((frame @ b) @ remaining r) of
          (FrameBytes b', rest) \<Rightarrow> \<exists>r'. read_frame (frame @ b) r = (FrameBytes b', r') \<and>
            remaining r' = rest \<and> chunks_ok r'
        | (x, rest) \<Rightarrow> fst (read_frame (frame @ b) r) = x"
        using "3.IH" [OF b refl refl, unfolded None option.map(1) option.case(1) take_all [OF order_refl]]
          False nb ok "3.prems"(2) by simp
      moreover have "read_frame frame (Inr b # r) = read_frame (frame @ b) r"
        using False b None by (simp add: Let_def)
      ultimately show ?thesis by (simp only: rem append_assoc)
    qed
  qed
qed


section \<open>The frames of an input\<close>

text \<open>\<^verbatim>\<open>frame\<close> called until it gives no frame; each frame takes at least its newline.\<close>

fun all_frames :: "nat \<Rightarrow> reader \<Rightarrow> bytes list \<times> frame_result" where
  "all_frames 0 r = ([], fst (read_frame [] r))"
| "all_frames (Suc n) r =
     (case read_frame [] r of
        (FrameBytes b, r') \<Rightarrow> (case all_frames n r' of (bs, x) \<Rightarrow> (b # bs, x))
      | (x, _) \<Rightarrow> ([], x))"

definition wire :: "encoder \<Rightarrow> json list \<Rightarrow> bytes list" where
  "wire enc vs = map (\<lambda>v. the (encode enc v)) vs"

text \<open>The printer puts no newline into a value, and every value fits a frame.\<close>

definition printable :: "encoder \<Rightarrow> json \<Rightarrow> bool" where
  "printable enc v \<longleftrightarrow> (\<exists>s. enc v = Inr s \<and> newline \<notin> set s \<and> length s < MAX_FRAME)"

lemma next_frame_wire:
  assumes "printable enc v"
  shows "next_frame (the (encode enc v) @ rest) = (FrameBytes (the (encode enc v)), rest)"
proof -
  from assms obtain s where s: "enc v = Inr s" "newline \<notin> set s" "length s < MAX_FRAME"
    unfolding printable_def by blast
  then have e: "the (encode enc v) = s @ [newline]" by (simp add: encode_def)
  show ?thesis using s(3) position_text [OF s(2), of rest]
    by (simp add: next_frame_def e)
qed

lemma all_frames_wire:
  assumes "chunks_ok r" "remaining r = concat (wire enc vs)" "\<forall>v \<in> set vs. printable enc v"
  shows "all_frames (length vs) r = (wire enc vs, EndOfInput)"
  using assms
proof (induction vs arbitrary: r)
  case Nil
  with read_frame_spec [of r "[]"] show ?case
    by (simp add: wire_def next_frame_def)
next
  case (Cons v vs)
  let ?b = "the (encode enc v)"
  have nf: "next_frame (remaining r) = (FrameBytes ?b, concat (wire enc vs))"
    using next_frame_wire [of enc v "concat (wire enc vs)"] Cons.prems(2,3) by (simp add: wire_def)
  with read_frame_spec [of r "[]"] Cons.prems(1) obtain r' where
    r': "read_frame [] r = (FrameBytes ?b, r')" "remaining r' = concat (wire enc vs)" "chunks_ok r'"
    by auto
  have "all_frames (length vs) r' = (wire enc vs, EndOfInput)"
    using Cons.IH [OF r'(3,2)] Cons.prems(3) by simp
  with r'(1) show ?case by (simp add: wire_def)
qed

section \<open>Properties\<close>

text \<open>
  How the input is cut into buffers does not matter. What \<^verbatim>\<open>frame\<close> returns is a
  function of the bytes not yet read: the bytes up to and including the first newline when
  that is at most 256 KiB, with exactly the rest left over; an error when the limit is
  exceeded or the input ends inside a frame; and the end of the input otherwise.
\<close>

lemma frame_chunk_independent:
  assumes "chunks_ok r"
  shows "case next_frame (remaining r) of
      (FrameBytes b, rest) \<Rightarrow> \<exists>r'. read_frame [] r = (FrameBytes b, r') \<and> remaining r' = rest
    | (x, rest) \<Rightarrow> fst (read_frame [] r) = x"
  using read_frame_spec [OF assms, of "[]"] by (auto split: prod.splits frame_result.splits)

lemma frame_chunk_independent_witness:
  "\<exists>r'. read_frame [] [Inr ''{'', Inr [CHR ''}'', newline, CHR ''x''], Inr ''y''] =
     (FrameBytes [CHR ''{'', CHR ''}'', newline], r') \<and> remaining r' = ''xy''"
  using frame_chunk_independent
    [of "[Inr ''{'', Inr [CHR ''}'', newline, CHR ''x''], Inr ''y'']"]
  by (simp add: chunks_ok_def remaining_def next_frame_def newline_def MAX_FRAME_def)

lemma read_frame_result:
  "read_frame frame r = (FrameBytes b, r') \<Longrightarrow> newline \<notin> set frame \<Longrightarrow> length frame \<le> MAX_FRAME \<Longrightarrow>
   \<exists>s. b = s @ [newline] \<and> newline \<notin> set s \<and> length b \<le> MAX_FRAME"
proof (induction frame r rule: read_frame.induct)
  case (3 frame c r)
  have c: "c \<noteq> []" using "3.prems"(1) by (auto split: if_splits)
  show ?case
  proof (cases "position_newline c")
    case (Some i)
    then have i: "i < length c" by (rule position_less)
    from Some have "c ! i = newline" "newline \<notin> set (take i c)"
      by (induction c arbitrary: i) (auto split: if_splits simp: nth_Cons' take_Cons')
    then have "take (Suc i) c = take i c @ [newline]" using i by (simp add: take_Suc_conv_app_nth)
    with "3.prems"(1) Some c i have "b = (frame @ take i c) @ [newline]" "length b \<le> MAX_FRAME"
      by (auto simp: Let_def split: if_splits)
    with \<open>newline \<notin> set (take i c)\<close> "3.prems"(2) show ?thesis
      by (intro exI [of _ "frame @ take i c"]) simp
  next
    case None
    with "3.prems"(1) c have le: "length frame + length c \<le> MAX_FRAME"
      "read_frame (frame @ c) r = (FrameBytes b, r')"
      by (auto simp: Let_def split: if_splits)
    with "3.IH" [OF c refl refl, unfolded None option.map(1) option.case(1) take_all [OF order_refl]] None "3.prems"(2)
    show ?thesis by (simp add: position_None)
  qed
qed (auto split: if_splits)

text \<open>
  The frame that is returned never exceeds 256 KiB and holds exactly one newline, its
  last byte, whatever the input is, errors and empty buffers included.
\<close>

lemma frame_bounded:
  assumes "read_frame [] r = (FrameBytes b, r')"
  shows "\<exists>s. b = s @ [newline] \<and> newline \<notin> set s \<and> length b \<le> MAX_FRAME"
  using read_frame_result [OF assms] by simp

text \<open>
  What a writer frames, a reader gets back. The frames that \<^verbatim>\<open>encode\<close> makes of any
  sequence of values, concatenated and delivered in any cut, are read as exactly these
  frames in their order, followed by the end of the input.
\<close>

lemma frames_roundtrip:
  assumes "chunks_ok r" "remaining r = concat (wire enc vs)" "\<forall>v \<in> set vs. printable enc v"
  shows "all_frames (length vs) r = (wire enc vs, EndOfInput)"
  by (rule all_frames_wire [OF assms])

lemma frames_roundtrip_witness:
  "all_frames 2 [Inr ''{'', Inr [CHR ''}'', newline, CHR ''{''], Inr [CHR ''}'', newline]] =
     (wire tiny_enc [Null, Bool True], EndOfInput)"
proof -
  have "all_frames (length [Null, Bool True])
      [Inr ''{'', Inr [CHR ''}'', newline, CHR ''{''], Inr [CHR ''}'', newline]] =
      (wire tiny_enc [Null, Bool True], EndOfInput)"
    by (rule frames_roundtrip)
      (simp_all add: chunks_ok_def remaining_def wire_def encode_def tiny_enc_def MAX_FRAME_def
        printable_def newline_def)
  moreover have "length [Null, Bool True] = 2" by simp
  ultimately show ?thesis by metis
qed

end
