(* ===== verification/Service.thy ===== *)
theory Service
  imports LifecycleSafe Framing
begin

text \<open>
  The service (\<^verbatim>\<open>src/protocol.rs\<close>): the methods of \<^verbatim>\<open>Service::handle\<close>, and the part of
  \<^verbatim>\<open>serve_with_config\<close> that turns an input frame into an answer, a host response or a request
  task; the loop around it is in \<open>Serving\<close>. Decoding parameters into the method's struct is serde's work and the parameter
  \<open>decoders\<close>; so are base64 and the values that describe the build. A method that awaits
  (load, stop, unload, compile) leaves the request in the state \<open>Wait\<dots>\<close>, from which
  \<open>load_finish\<close>, \<open>runtime_stop_poll\<close> and the build continue it.
\<close>

section \<open>State\<close>

record decoders =
  d_init :: "json \<Rightarrow> string + nat"
  d_load :: "json \<Rightarrow> string + string \<times> json \<times> capability list"
  d_base64 :: "string \<Rightarrow> string + bytes"
  d_id :: "json \<Rightarrow> string + string"
  d_list :: "json \<Rightarrow> string + string option \<times> nat"
  d_event :: "json \<Rightarrow> string + string \<times> string \<times> string \<times> json"

text \<open>What the environment reports: target triple, revision, compiler information, clock.\<close>

record surroundings =
  target_name :: string
  ebpf_revision :: string
  build_info :: json
  uptime_ms :: nat

record request =
  rq_id :: string
  rq_method :: string
  rq_params :: json
  rq_permit :: bool

record 'p service =
  sv_runtime :: "'p runtime"
  sv_initialized :: bool
  sv_shutdown :: bool
  sv_ids :: "string list"
  sv_slots :: nat
  sv_tasks :: "request list"

definition REQUEST_SLOTS :: nat where
  "REQUEST_SLOTS = 48"

definition service_new :: "string \<Rightarrow> 'p service" where
  "service_new s =
     \<lparr>sv_runtime = runtime_new s, sv_initialized = False, sv_shutdown = False, sv_ids = [],
      sv_slots = REQUEST_SLOTS, sv_tasks = []\<rparr>"

section \<open>Methods\<close>

definition decode :: "(json \<Rightarrow> string + 'a) \<Rightarrow> json \<Rightarrow> rpc_error + 'a" where
  "decode d v = (case d v of Inl msg \<Rightarrow> Inl (rpc_params msg) | Inr x \<Rightarrow> Inr x)"

definition empty_params :: "json \<Rightarrow> rpc_error + unit" where
  "empty_params v =
     (if v = Object [] then Inr () else Inl (rpc_params ''expected empty parameters''))"

definition page_size :: nat where
  "page_size = 100"

definition init_reply :: "surroundings \<Rightarrow> string \<Rightarrow> json" where
  "init_reply env session_id =
     jobj [(''protocol_version'', jint 1), (''sdk_version'', jint 1),
       (''session_id'', String session_id), (''target'', String (target_name env)),
       (''async_ebpf_revision'', String (ebpf_revision env)), (''compiler'', build_info env),
       (''limits'', jobj [(''frame_bytes'', jnat MAX_FRAME), (''value_bytes'', jnat MAX_VALUE_BYTES),
          (''mailbox_entries'', jint 32), (''mailbox_bytes'', jint 32768), (''handles'', jint 128)]),
       (''memory_target_bytes'', jint 1000000), (''memory_target_enforced'', Bool False)]"

text \<open>One page of the objects in key order, and the cursor when more follow.\<close>

definition list_objects :: "string option \<Rightarrow> nat \<Rightarrow> 'p runtime \<Rightarrow> json" where
  "list_objects after limit r =
     (let ids = filter (\<lambda>i. case after of None \<Rightarrow> True | Some a \<Rightarrow> a < i) (registered r);
          items = map (\<lambda>i. object_status (the (heap r i))) ids;
          page = take limit items;
          next' = (if limit < length items \<and> page \<noteq> [] then vindex (last page) ''object_id'' else Null)
      in jobj [(''objects'', Array page), (''next'', next')])"

definition event_value :: "string \<Rightarrow> string \<Rightarrow> json \<Rightarrow> json" where
  "event_value eid topic payload =
     jobj [(''event_id'', String eid), (''topic'', String topic), (''payload'', payload)]"

datatype method_step =
    Answer rpc_result
  | WaitLoad u64
  | WaitStop string bool
  | WaitBuild json
  | MethodPanic

definition runtime_stats :: "surroundings \<Rightarrow> 'p runtime \<Rightarrow> json" where
  "runtime_stats env r =
     jobj [(''objects'', jnat (length (registered r))), (''host'', host_stats (whost (rworld r))),
       (''output'', outbox_stats (wout (rworld r))), (''uptime_ms'', jnat (uptime_ms env)),
       (''execution_threads'', jint 1)]"

text \<open>The methods behind the initialization check, on the runtime.\<close>

abbreviation object_id_of :: "decoders \<Rightarrow> json \<Rightarrow> rpc_error + string" where
  "object_id_of d params \<equiv> decode (d_id d) params"

definition method_load :: "decoders \<Rightarrow> encoder \<Rightarrow> json \<Rightarrow> 'p runtime \<Rightarrow> method_step \<times> 'p runtime" where
  "method_load d enc params r =
     (case decode (d_load d) params of
        Inl e \<Rightarrow> (Answer (Inl e), r)
      | Inr (elf, config, caps) \<Rightarrow>
          (case d_base64 d elf of
             Inl msg \<Rightarrow> (Answer (Inl (rpc_params msg)), r)
           | Inr b \<Rightarrow>
               (case load_begin enc b config caps r of
                  (Inl e, r) \<Rightarrow> (Answer (Inl e), r)
                | (Inr serial, r) \<Rightarrow> (WaitLoad serial, r))))"

definition method_start :: "decoders \<Rightarrow> json \<Rightarrow> 'p runtime \<Rightarrow> method_step \<times> 'p runtime" where
  "method_start d params r =
     (case object_id_of d params of
        Inl e \<Rightarrow> (Answer (Inl e), r)
      | Inr i \<Rightarrow>
          (case runtime_start i r of
             (None, r) \<Rightarrow> (MethodPanic, r)
           | (Some res, r) \<Rightarrow> (Answer res, r)))"

definition method_stop ::
    "decoders \<Rightarrow> encoder \<Rightarrow> bool \<Rightarrow> json \<Rightarrow> 'p runtime \<Rightarrow> method_step \<times> 'p runtime" where
  "method_stop d enc unload params r =
     (case object_id_of d params of
        Inl e \<Rightarrow> (Answer (Inl e), r)
      | Inr i \<Rightarrow>
          (case runtime_stop enc i unload r of
             (Pending, r) \<Rightarrow> (WaitStop i unload, r)
           | (Done res, r) \<Rightarrow> (Answer res, r)))"

definition method_get :: "decoders \<Rightarrow> json \<Rightarrow> 'p runtime \<Rightarrow> method_step \<times> 'p runtime" where
  "method_get d params r =
     (case object_id_of d params of
        Inl e \<Rightarrow> (Answer (Inl e), r)
      | Inr i \<Rightarrow>
          (case runtime_get i r of
             Inl e \<Rightarrow> (Answer (Inl e), r)
           | Inr ob \<Rightarrow> (Answer (Inr (object_status ob)), r)))"

definition method_list :: "decoders \<Rightarrow> json \<Rightarrow> 'p runtime \<Rightarrow> method_step \<times> 'p runtime" where
  "method_list d params r =
     (case decode (d_list d) params of
        Inl e \<Rightarrow> (Answer (Inl e), r)
      | Inr (after, limit) \<Rightarrow>
          if limit = 0 \<or> 256 < limit then (Answer (Inl (rpc_params ''limit must be 1..256'')), r)
          else (Answer (Inr (list_objects after limit r)), r))"

definition method_deliver ::
    "decoders \<Rightarrow> encoder \<Rightarrow> json \<Rightarrow> 'p runtime \<Rightarrow> method_step \<times> 'p runtime" where
  "method_deliver d enc params r =
     (case decode (d_event d) params of
        Inl e \<Rightarrow> (Answer (Inl e), r)
      | Inr (obj, eid, topic, payload) \<Rightarrow>
          if 128 < length topic \<or> \<not> valid_value enc payload
          then (Answer (Inl (rpc_params ''event exceeds limits'')), r)
          else (case runtime_deliver enc obj (event_value eid topic payload) r of
              (res, r) \<Rightarrow> (Answer res, r)))"

definition dispatch ::
    "decoders \<Rightarrow> surroundings \<Rightarrow> encoder \<Rightarrow> string \<Rightarrow> json \<Rightarrow> 'p runtime \<Rightarrow> method_step \<times> 'p runtime" where
  "dispatch d env enc method params r =
     (if method = ''sf.object.load'' then method_load d enc params r
      else if method = ''sf.object.start'' then method_start d params r
      else if method = ''sf.object.stop'' then method_stop d enc False params r
      else if method = ''sf.object.unload'' then method_stop d enc True params r
      else if method = ''sf.object.get'' then method_get d params r
      else if method = ''sf.object.list'' then method_list d params r
      else if method = ''sf.event.deliver'' then method_deliver d enc params r
      else if method = ''sf.stats'' then
        (case empty_params params of
           Inl e \<Rightarrow> (Answer (Inl e), r)
         | Inr _ \<Rightarrow> (Answer (Inr (runtime_stats env r)), r))
      else if method = ''sf.shutdown'' then
        (case empty_params params of
           Inl e \<Rightarrow> (Answer (Inl e), r)
         | Inr _ \<Rightarrow> (Answer (Inr (jobj [(''shutdown'', Bool True)])), r))
      else if method = ''sf.build.compile'' then (WaitBuild params, r)
      else (Answer (Inl (rpc_error_new (- 32601) ''METHOD_NOT_FOUND'' ''unknown method'')), r))"

definition not_initialized :: rpc_error where
  "not_initialized = rpc_error_new (- 32000) ''NOT_INITIALIZED'' ''call sf.initialize first''"

definition service_handle ::
    "decoders \<Rightarrow> surroundings \<Rightarrow> encoder \<Rightarrow> string \<Rightarrow> json \<Rightarrow> 'p service \<Rightarrow> method_step \<times> 'p service" where
  "service_handle d env enc method params sv =
     (if method = ''sf.initialize'' then
        (case decode (d_init d) params of
           Inl e \<Rightarrow> (Answer (Inl e), sv)
         | Inr version \<Rightarrow>
             if version \<noteq> 1
             then (Answer (Inl (rpc_params ''supported protocol_version is 1'')), sv)
             else if sv_initialized sv
             then (Answer (Inl (rpc_busy ''already initialized'')), sv)
             else (Answer (Inr (init_reply env (session (whost (rworld (sv_runtime sv)))))),
                   sv\<lparr>sv_initialized := True\<rparr>))
      else if \<not> sv_initialized sv then (Answer (Inl not_initialized), sv)
      else case dispatch d env enc method params (sv_runtime sv) of
          (res, r) \<Rightarrow> (res, sv\<lparr>sv_runtime := r\<rparr>))"

section \<open>The request loop\<close>

definition error_value :: "rpc_error \<Rightarrow> json" where
  "error_value e =
     jobj [(''code'', jint (ecode e)), (''message'', String (emessage e)), (''data'', edata e)]"

definition response :: "json \<Rightarrow> rpc_result \<Rightarrow> json" where
  "response i res =
     (case res of
        Inr v \<Rightarrow> jobj [(''jsonrpc'', String ''2.0''), (''id'', i), (''result'', v)]
      | Inl e \<Rightarrow> jobj [(''jsonrpc'', String ''2.0''), (''id'', i), (''error'', error_value e)])"

abbreviation sv_world :: "'p service \<Rightarrow> world" where
  "sv_world sv \<equiv> rworld (sv_runtime sv)"

abbreviation with_world :: "world \<Rightarrow> 'p service \<Rightarrow> 'p service" where
  "with_world w sv \<equiv> sv\<lparr>sv_runtime := (sv_runtime sv)\<lparr>rworld := w\<rparr>\<rparr>"

text \<open>An immediate error answer; the loop ends when the control queue has no room.\<close>

definition refuse :: "encoder \<Rightarrow> json \<Rightarrow> rpc_error \<Rightarrow> 'p service \<Rightarrow> bool \<times> 'p service" where
  "refuse enc i e sv =
     (case try_control enc (response i (Inl e)) (wout (sv_world sv)) of
        (ok, q) \<Rightarrow> (ok, with_world ((sv_world sv)\<lparr>wout := q\<rparr>) sv))"

definition invalid_request :: "string \<Rightarrow> rpc_error" where
  "invalid_request msg = rpc_error_new (- 32600) ''INVALID_REQUEST'' msg"

text \<open>
  One input frame. \<open>False\<close> leaves the loop, \<open>True\<close> goes on with the next frame.
  \<open>accept_request\<close> is the part for a frame with a method.
\<close>

definition accept_request :: "encoder \<Rightarrow> string \<Rightarrow> json \<Rightarrow> 'p service \<Rightarrow> bool \<times> 'p service" where
  "accept_request enc method v sv =
     (let params = (case vget v ''params'' of Some p \<Rightarrow> p | None \<Rightarrow> Object []) in
      case vget v ''id'' of
        None \<Rightarrow> (True, sv)
      | Some i \<Rightarrow>
          (case as_str i of
             None \<Rightarrow> refuse enc Null (invalid_request ''IDs must be strings up to 128 bytes'') sv
           | Some s \<Rightarrow>
               if 128 < length s
               then refuse enc Null (invalid_request ''IDs must be strings up to 128 bytes'') sv
               else if s \<in> set (sv_ids sv)
               then refuse enc i
                 (rpc_error_new (- 32600) ''DUPLICATE_ID'' ''request ID already outstanding'') sv
               else
                 let compile = (method = ''sf.build.compile'') in
                 if \<not> compile \<and> sv_slots sv = 0 then refuse enc i (rpc_busy ''too many requests'') sv
                 else (True, sv\<lparr>
                   sv_slots := (if compile then sv_slots sv else sv_slots sv - 1),
                   sv_ids := s # sv_ids sv,
                   sv_tasks := sv_tasks sv @
                     [\<lparr>rq_id = s, rq_method = method, rq_params = params, rq_permit = \<not> compile\<rparr>]\<rparr>)))"

definition route :: "encoder \<Rightarrow> parser \<Rightarrow> bytes \<Rightarrow> 'p service \<Rightarrow> bool \<times> 'p service" where
  "route enc parse b sv =
     (case parse b of
        Inl e \<Rightarrow> refuse enc Null (rpc_error_new (- 32700) ''PARSE_ERROR'' e) sv
      | Inr v \<Rightarrow>
          if \<not> is_object v \<or> Option.bind (vget v ''jsonrpc'') as_str \<noteq> Some ''2.0''
          then refuse enc Null (invalid_request ''expected JSON-RPC 2.0 object'') sv
          else if vget v ''method'' = None \<and> vget v ''id'' \<noteq> None \<and>
              (vget v ''result'' \<noteq> None \<or> vget v ''error'' \<noteq> None)
          then (True, with_world (host_exec enc (HResponse v) (sv_world sv)) sv)
          else case Option.bind (vget v ''method'') as_str of
              None \<Rightarrow> refuse enc Null (invalid_request ''method must be a string'') sv
            | Some method \<Rightarrow> accept_request enc method v sv)"

text \<open>A task ends, by completion or by abortion: its permit and its active identifier go.\<close>

definition request_drop :: "request \<Rightarrow> 'p service \<Rightarrow> 'p service" where
  "request_drop q sv = sv\<lparr>
     sv_slots := (if rq_permit q then sv_slots sv + 1 else sv_slots sv),
     sv_ids := removeAll (rq_id q) (sv_ids sv),
     sv_tasks := removeAll q (sv_tasks sv)\<rparr>"

text \<open>The method has its result: one pass of \<^verbatim>\<open>control\<close>, then the end of the task.\<close>

definition request_finish :: "encoder \<Rightarrow> request \<Rightarrow> rpc_result \<Rightarrow> 'p service \<Rightarrow> bool \<times> 'p service" where
  "request_finish enc q res sv =
     (case outbox_control enc (response (String (rq_id q)) res) (wout (sv_world sv)) of
        (Pending, out) \<Rightarrow> (False, with_world ((sv_world sv)\<lparr>wout := out\<rparr>) sv)
      | (Done _, out) \<Rightarrow>
          let sv = with_world ((sv_world sv)\<lparr>wout := out\<rparr>) sv;
              stop = (rq_method q = ''sf.shutdown'' \<and> \<not> isl res)
          in (True, request_drop q (sv\<lparr>sv_shutdown := sv_shutdown sv \<or> stop\<rparr>)))"


section \<open>The service as a machine\<close>

datatype sv_op =
    FrameIn bytes
  | Invoke string
  | Finish string rpc_result
  | Abort string
  | Internal rt_op

definition task_of :: "string \<Rightarrow> 'p service \<Rightarrow> request option" where
  "task_of i sv = find (\<lambda>q. rq_id q = i) (sv_tasks sv)"

fun sv_exec ::
    "'p engine \<Rightarrow> decoders \<Rightarrow> surroundings \<Rightarrow> encoder \<Rightarrow> parser \<Rightarrow> sv_op \<Rightarrow> 'p service \<Rightarrow> 'p service" where
  "sv_exec e d env enc parse (FrameIn b) sv = snd (route enc parse b sv)"
| "sv_exec e d env enc parse (Invoke i) sv =
     (case task_of i sv of
        None \<Rightarrow> sv
      | Some q \<Rightarrow> snd (service_handle d env enc (rq_method q) (rq_params q) sv))"
| "sv_exec e d env enc parse (Finish i res) sv =
     (case task_of i sv of None \<Rightarrow> sv | Some q \<Rightarrow> snd (request_finish enc q res sv))"
| "sv_exec e d env enc parse (Abort i) sv =
     (case task_of i sv of None \<Rightarrow> sv | Some q \<Rightarrow> request_drop q sv)"
| "sv_exec e d env enc parse (Internal op) sv = sv\<lparr>sv_runtime := rt_exec e enc op (sv_runtime sv)\<rparr>"

text \<open>
  Outstanding identifiers are those of the tasks, each once; a task holds a permit unless
  it compiles; permits held and permits free add up.
\<close>

definition tasks_ok :: "'p service \<Rightarrow> bool" where
  "tasks_ok sv \<longleftrightarrow>
     distinct (map rq_id (sv_tasks sv)) \<and> set (sv_ids sv) = set (map rq_id (sv_tasks sv)) \<and>
     (\<forall>q \<in> set (sv_tasks sv). rq_permit q \<longleftrightarrow> rq_method q \<noteq> ''sf.build.compile'') \<and>
     sv_slots sv + length (filter rq_permit (sv_tasks sv)) = REQUEST_SLOTS"

definition sv_inv :: "encoder \<Rightarrow> 'p service \<Rightarrow> bool" where
  "sv_inv enc sv \<longleftrightarrow> tasks_ok sv \<and> rt_inv enc (sv_runtime sv)"

lemma tasks_ok_runtime [simp]: "tasks_ok (sv\<lparr>sv_runtime := r\<rparr>) = tasks_ok sv"
  "tasks_ok (sv\<lparr>sv_initialized := b\<rparr>) = tasks_ok sv"
  "tasks_ok (sv\<lparr>sv_shutdown := b\<rparr>) = tasks_ok sv"
  by (simp_all add: tasks_ok_def)

lemma task_ofD: "task_of i sv = Some q \<Longrightarrow> q \<in> set (sv_tasks sv) \<and> rq_id q = i"
  unfolding task_of_def by (auto simp: find_Some_iff)

lemma filter_removeAll: "filter P (removeAll x xs) = removeAll x (filter P xs)"
  by (induction xs) auto

lemma length_removeAll_distinct:
  "distinct xs \<Longrightarrow> x \<in> set xs \<Longrightarrow> Suc (length (removeAll x xs)) = length xs"
  by (induction xs) auto

lemma request_drop_ok:
  assumes "tasks_ok sv" "q \<in> set (sv_tasks sv)"
  shows "tasks_ok (request_drop q sv)"
proof -
  have d: "distinct (sv_tasks sv)" "inj_on rq_id (set (sv_tasks sv))"
    using assms(1) by (auto simp: tasks_ok_def distinct_map)
  have ids: "rq_id ` (set (sv_tasks sv) - {q}) = rq_id ` set (sv_tasks sv) - {rq_id q}"
    using d(2) assms(2) by (auto dest: inj_onD)
  have "length (filter rq_permit (removeAll q (sv_tasks sv))) + of_bool (rq_permit q) =
      length (filter rq_permit (sv_tasks sv))"
  proof (cases "rq_permit q")
    case True
    with length_removeAll_distinct [of "filter rq_permit (sv_tasks sv)" q] d(1) assms(2)
    show ?thesis by (simp add: filter_removeAll)
  next
    case False
    then have "q \<notin> set (filter rq_permit (sv_tasks sv))" by simp
    with False show ?thesis by (simp add: filter_removeAll)
  qed
  with assms(1) ids d show ?thesis
    unfolding tasks_ok_def request_drop_def
    by (auto simp: distinct_map removeAll_filter_not_eq intro: inj_on_subset)
qed

lemma rt_inv_out:
  assumes "rt_inv enc r" "router_op op"
  shows "rt_inv enc (r\<lparr>rworld := host_exec enc op (rworld r)\<rparr>)"
  using rt_inv_exec [OF assms(1), of undefined "Router op"] assms(2) by simp

lemma refuse_inv:
  assumes "sv_inv enc sv"
  shows "sv_inv enc (snd (refuse enc i e sv))"
proof -
  have "rt_inv enc ((sv_runtime sv)\<lparr>rworld :=
      host_exec enc (HOut (OpTryControl (response i (Inl e)))) (sv_world sv)\<rparr>)"
    using assms by (intro rt_inv_out) (simp_all add: sv_inv_def)
  moreover obtain ok out where "try_control enc (response i (Inl e)) (wout (sv_world sv)) = (ok, out)"
    by fastforce
  ultimately show ?thesis using assms by (simp add: refuse_def sv_inv_def)
qed

lemma finish_inv:
  assumes inv: "sv_inv enc sv" and q: "q \<in> set (sv_tasks sv)"
  shows "sv_inv enc (snd (request_finish enc q res sv))"
proof -
  obtain x out where o: "outbox_control enc (response (String (rq_id q)) res) (wout (sv_world sv)) = (x, out)"
    by fastforce
  have "rt_inv enc ((sv_runtime sv)\<lparr>rworld :=
      host_exec enc (HOut (OpControl (response (String (rq_id q)) res))) (sv_world sv)\<rparr>)"
    using inv by (intro rt_inv_out) (simp_all add: sv_inv_def)
  then have rt: "rt_inv enc ((sv_runtime sv)\<lparr>rworld := (sv_world sv)\<lparr>wout := out\<rparr>\<rparr>)"
    using o by simp
  have "tasks_ok (request_drop q
      (sv\<lparr>sv_runtime := r, sv_shutdown := b\<rparr>))" for r b
    using inv q by (intro request_drop_ok) (simp_all add: sv_inv_def)
  moreover have "sv_runtime (request_drop q sv') = sv_runtime sv'" for sv' :: "'a service"
    by (simp add: request_drop_def)
  ultimately show ?thesis
    using inv o rt by (cases x) (simp_all add: request_finish_def sv_inv_def Let_def)
qed

lemma method_inv:
  assumes "rt_inv enc r"
  shows "rt_inv enc (snd (method_load d enc params r))" "rt_inv enc (snd (method_start d params r))"
    "rt_inv enc (snd (method_stop d enc unload params r))" "rt_inv enc (snd (method_get d params r))"
    "rt_inv enc (snd (method_list d params r))" "rt_inv enc (snd (method_deliver d enc params r))"
proof -
  show "rt_inv enc (snd (method_load d enc params r))"
    using assms load_begin_inv [OF assms]
    by (auto simp: method_load_def split: sum.splits prod.splits) (metis snd_conv)+
  show "rt_inv enc (snd (method_start d params r))"
    using assms start_inv [OF assms]
    by (auto simp: method_start_def split: sum.splits prod.splits option.splits) (metis snd_conv)+
  show "rt_inv enc (snd (method_stop d enc unload params r))"
    using assms stop_inv [OF assms]
    by (auto simp: method_stop_def split: sum.splits prod.splits poll.splits) (metis snd_conv)+
  show "rt_inv enc (snd (method_get d params r))"
    using assms by (auto simp: method_get_def split: sum.splits)
  show "rt_inv enc (snd (method_list d params r))"
    using assms by (auto simp: method_list_def split: sum.splits)
  show "rt_inv enc (snd (method_deliver d enc params r))"
    using assms deliver_inv [OF assms]
    by (auto simp: method_deliver_def split: sum.splits prod.splits) (metis snd_conv)+
qed


lemma dispatch_inv: "rt_inv enc r \<Longrightarrow> rt_inv enc (snd (dispatch d env enc method params r))"
  by (simp add: dispatch_def method_inv split: sum.split)

lemma handle_inv:
  assumes "sv_inv enc sv"
  shows "sv_inv enc (snd (service_handle d env enc method params sv))"
proof -
  obtain res r where dis: "dispatch d env enc method params (sv_runtime sv) = (res, r)" by fastforce
  with dispatch_inv [of enc "sv_runtime sv" d env "method" params] assms
  have "sv_inv enc (sv\<lparr>sv_runtime := r\<rparr>)" by (simp add: sv_inv_def)
  with assms dis show ?thesis
    by (auto simp: service_handle_def sv_inv_def split: sum.split)
qed

text \<open>The four things a frame can lead to.\<close>

definition accepted :: "request \<Rightarrow> 'p service \<Rightarrow> 'p service" where
  "accepted q sv = sv\<lparr>
     sv_slots := (if rq_permit q then sv_slots sv - 1 else sv_slots sv),
     sv_ids := rq_id q # sv_ids sv, sv_tasks := sv_tasks sv @ [q]\<rparr>"

definition admissible :: "request \<Rightarrow> 'p service \<Rightarrow> bool" where
  "admissible q sv \<longleftrightarrow> rq_id q \<notin> set (sv_ids sv) \<and> length (rq_id q) \<le> 128 \<and>
     (rq_permit q \<longleftrightarrow> rq_method q \<noteq> ''sf.build.compile'') \<and> (rq_permit q \<longrightarrow> 0 < sv_slots sv)"

lemma accept_cases:
  "accept_request enc method v sv = (True, sv) \<and> vget v ''id'' = None \<or>
   (\<exists>i e. accept_request enc method v sv = refuse enc i e sv) \<or>
   (\<exists>q. accept_request enc method v sv = (True, accepted q sv) \<and> admissible q sv \<and>
      rq_method q = method \<and> vget v ''id'' = Some (String (rq_id q)))"
proof (cases "vget v ''id''")
  case None
  then show ?thesis by (simp add: accept_request_def Let_def)
next
  case (Some i)
  show ?thesis
  proof (cases i)
    case (String s)
    let ?q = "\<lparr>rq_id = s, rq_method = method,
      rq_params = (case vget v ''params'' of Some p \<Rightarrow> p | None \<Rightarrow> Object []),
      rq_permit = method \<noteq> ''sf.build.compile''\<rparr>"
    show ?thesis
    proof (cases "128 < length s \<or> s \<in> set (sv_ids sv) \<or>
        method \<noteq> ''sf.build.compile'' \<and> sv_slots sv = 0")
      case True
      then have "\<exists>i e. accept_request enc method v sv = refuse enc i e sv"
        using Some String by (auto simp: accept_request_def Let_def)
      then show ?thesis by blast
    next
      case False
      then have "accept_request enc method v sv = (True, accepted ?q sv)"
        using Some String by (auto simp: accept_request_def Let_def accepted_def)
      moreover have "admissible ?q sv" using False by (auto simp: admissible_def)
      moreover have "rq_method ?q = method" "vget v ''id'' = Some (String (rq_id ?q))"
        using Some String by simp_all
      ultimately show ?thesis by blast
    qed
  qed (use Some in \<open>auto simp: accept_request_def Let_def\<close>)
qed

lemma route_cases:
  obtains (refused) i e where "route enc parse b sv = refuse enc i e sv"
  | (answered) v where
      "route enc parse b sv = (True, with_world (host_exec enc (HResponse v) (sv_world sv)) sv)"
  | (ignored) "route enc parse b sv = (True, sv)"
  | (accepted) q where "route enc parse b sv = (True, accepted q sv)" "admissible q sv"
proof -
  have "(\<exists>i e. route enc parse b sv = refuse enc i e sv) \<or>
    (\<exists>v. route enc parse b sv = (True, with_world (host_exec enc (HResponse v) (sv_world sv)) sv)) \<or>
    (\<exists>method v. route enc parse b sv = accept_request enc method v sv)"
    unfolding route_def by (simp split: sum.split option.split del: host_exec.simps) blast
  with accept_cases that show thesis by metis
qed

lemma route_inv:
  assumes inv: "sv_inv enc sv"
  shows "sv_inv enc (snd (route enc parse b sv))"
proof (cases rule: route_cases [of enc parse b sv])
  case (refused i e)
  with refuse_inv [OF inv] show ?thesis by simp
next
  case (answered v)
  have "rt_inv enc ((sv_runtime sv)\<lparr>rworld := host_exec enc (HResponse v) (sv_world sv)\<rparr>)"
    using inv by (intro rt_inv_out) (simp_all add: sv_inv_def)
  with inv answered show ?thesis by (simp add: sv_inv_def del: host_exec.simps)
next
  case ignored
  with inv show ?thesis by simp
next
  case (accepted q)
  with inv show ?thesis
    by (auto simp: sv_inv_def tasks_ok_def accepted_def admissible_def)
qed

lemma sv_inv_new: "sv_inv enc (service_new s)"
  by (simp add: sv_inv_def tasks_ok_def service_new_def rt_inv_new)

lemma sv_inv_exec: "sv_inv enc sv \<Longrightarrow> sv_inv enc (sv_exec e d env enc parse op sv)"
proof (cases op)
  case (Abort i)
  assume inv: "sv_inv enc sv"
  show ?thesis
  proof (cases "task_of i sv")
    case (Some q)
    with inv task_ofD [OF Some] Abort request_drop_ok [of sv q] show ?thesis
      by (simp add: sv_inv_def) (simp add: request_drop_def)
  qed (use inv Abort in simp)
qed (auto simp: route_inv handle_inv finish_inv task_ofD split: option.splits;
     simp add: sv_inv_def rt_inv_exec)+

interpretation sv: machine "\<lambda>x. x = service_new s" "sv_exec e d env enc parse" "sv_inv enc"
  for s e d env enc parse
  by unfold_locales (simp_all only: sv_inv_new sv_inv_exec)


section \<open>Initialization\<close>

text \<open>Several requests, one after the other, and their first segments' results.\<close>

fun run_methods :: "decoders \<Rightarrow> surroundings \<Rightarrow> encoder \<Rightarrow> (string \<times> json) list \<Rightarrow> 'p service \<Rightarrow>
    method_step list \<times> 'p service" where
  "run_methods d env enc [] sv = ([], sv)"
| "run_methods d env enc ((method, params) # reqs) sv =
     (case service_handle d env enc method params sv of
        (x, sv1) \<Rightarrow> (case run_methods d env enc reqs sv1 of (xs, sv2) \<Rightarrow> (x # xs, sv2)))"

fun is_init_ok :: "(string \<times> json) \<times> method_step \<Rightarrow> bool" where
  "is_init_ok ((method, params), Answer (Inr v)) = (method = ''sf.initialize'')"
| "is_init_ok _ = False"

fun is_error :: "method_step \<Rightarrow> bool" where
  "is_error (Answer (Inl e)) = True"
| "is_error _ = False"

lemma handle_initialized:
  "sv_initialized sv \<Longrightarrow> service_handle d env enc method params sv = (x, sv') \<Longrightarrow>
   sv_initialized sv' \<and> \<not> is_init_ok ((method, params), x)"
  by (cases "method = ''sf.initialize''")
    (auto simp: service_handle_def decode_def split: sum.splits if_splits prod.splits elim!: is_init_ok.elims)

lemma run_methods_initialized:
  "sv_initialized sv \<Longrightarrow> run_methods d env enc reqs sv = (xs, sv') \<Longrightarrow>
   filter is_init_ok (zip reqs xs) = []"
proof (induction reqs arbitrary: sv xs sv')
  case (Cons req reqs)
  obtain meth params where req: "req = (meth, params)" by fastforce
  obtain x sv1 where h: "service_handle d env enc meth params sv = (x, sv1)" by fastforce
  obtain ys sv2 where hs: "run_methods d env enc reqs sv1 = (ys, sv2)" by fastforce
  from handle_initialized [OF Cons.prems(1) h] Cons.IH [OF _ hs] Cons.prems(2) req h hs
  show ?case by auto
qed simp

lemma handle_uninitialized:
  assumes "\<not> sv_initialized sv" "service_handle d env enc method params sv = (x, sv')"
  shows "is_error x \<and> sv' = sv \<or> is_init_ok ((method, params), x) \<and> sv_initialized sv'"
  using assms
  by (cases "method = ''sf.initialize''")
    (auto simp: service_handle_def decode_def split: sum.splits if_splits)

text \<open>
  C32: until \<^verbatim>\<open>sf.initialize\<close> has succeeded every request is answered with an error and changes
  nothing, and it succeeds at most once: in any sequence of requests on a new service, the
  requests before the first success are errors that leave the service as it was, and there
  is no second success.
\<close>

theorem initialize_gate:
  "let (xs, sv) = run_methods d env enc reqs (service_new s) in
     length (filter is_init_ok (zip reqs xs)) \<le> 1 \<and>
     (filter is_init_ok (zip reqs xs) = [] \<longrightarrow> sv = service_new s \<and> list_all is_error xs)"
proof -
  have "case run_methods d env enc reqs sv of (xs, sv') \<Rightarrow>
      length (filter is_init_ok (zip reqs xs)) \<le> 1 \<and>
      (filter is_init_ok (zip reqs xs) = [] \<longrightarrow> sv' = sv \<and> list_all is_error xs)"
    if "\<not> sv_initialized sv" for sv :: "'a service"
    using that
  proof (induction reqs arbitrary: sv)
    case (Cons req reqs)
    obtain meth params where req: "req = (meth, params)" by fastforce
    obtain x sv1 where h: "service_handle d env enc meth params sv = (x, sv1)" by fastforce
    obtain ys sv2 where hs: "run_methods d env enc reqs sv1 = (ys, sv2)" by fastforce
    from handle_uninitialized [OF Cons.prems h] show ?case
    proof
      assume err: "is_error x \<and> sv1 = sv"
      then have "\<not> is_init_ok ((meth, params), x)" by (cases x rule: is_error.cases) auto
      with err Cons.IH [OF Cons.prems] req h hs show ?thesis by auto
    next
      assume ok: "is_init_ok ((meth, params), x) \<and> sv_initialized sv1"
      with run_methods_initialized [OF _ hs] req h hs show ?thesis by auto
    qed
  qed simp
  from this [of "service_new s"] show ?thesis
    by (simp add: service_new_def Let_def)
qed

text \<open>
  C16: request bookkeeping never drifts: in every state the loop can reach, outstanding
  identifiers are exactly those of the running tasks, no identifier is used by two tasks, at
  most 48 tasks other than compilations run at a time, and every permit is either held by
  one of them or free.
\<close>

theorem requests_bounded_and_unique:
  "let x = fold (sv_exec e d env enc parse) ops (service_new s) in
     distinct (map rq_id (sv_tasks x)) \<and> set (sv_ids x) = set (map rq_id (sv_tasks x)) \<and>
     length (filter (\<lambda>q. rq_method q \<noteq> ''sf.build.compile'') (sv_tasks x)) + sv_slots x = 48"
proof -
  let ?x = "fold (sv_exec e d env enc parse) ops (service_new s)"
  have "sv_inv enc ?x" by (rule sv.reach_inv) (rule refl)
  then have ok: "tasks_ok ?x" by (simp add: sv_inv_def)
  then have "filter (\<lambda>q. rq_method q \<noteq> ''sf.build.compile'') (sv_tasks ?x) = filter rq_permit (sv_tasks ?x)"
    unfolding tasks_ok_def by (intro filter_cong) auto
  with ok show ?thesis by (simp add: tasks_ok_def REQUEST_SLOTS_def)
qed

text \<open>
  An input frame does one thing. It is refused with an error answer, or it is the
  answer to a host call, or it is a notification and ignored, or it starts exactly one task
  whose identifier no other task has; when the loop goes on, a refusal has queued exactly
  one control frame, and objects and other tasks are untouched in every case.
\<close>

lemma route_exact:
  "let (go, x) = route enc parse b sv in
     heap (sv_runtime x) = heap (sv_runtime sv) \<and>
     (sv_tasks x = sv_tasks sv \<and> sv_ids x = sv_ids sv \<and>
        length (control (wout (sv_world x))) \<le> Suc (length (control (wout (sv_world sv)))) \<or>
      (\<exists>q. go = True \<and> sv_tasks x = sv_tasks sv @ [q] \<and> rq_id q \<notin> set (sv_ids sv) \<and>
        length (rq_id q) \<le> 128 \<and> sv_runtime x = sv_runtime sv)) \<and>
     (go = False \<longrightarrow> x = sv)"
proof (cases rule: route_cases [of enc parse b sv])
  case (refused i e)
  have "control (snd (try_control enc v q)) = control q \<or>
      (\<exists>f. control (snd (try_control enc v q)) = control q @ [f])"
    "fst (try_control enc v q) = False \<longrightarrow> snd (try_control enc v q) = q" for v q
    by (simp_all add: try_control_def try_push_control_def push_control_def split: option.splits)
  from this [of "response i (Inl e)" "wout (sv_world sv)"] show ?thesis
    unfolding refused refuse_def
    by (cases "try_control enc (response i (Inl e)) (wout (sv_world sv))") (auto simp: Let_def)
next
  case (answered v)
  then show ?thesis by simp
next
  case ignored
  then show ?thesis by simp
next
  case (accepted q)
  then show ?thesis by (simp add: accepted_def admissible_def)
qed


text \<open>One successful initialization, framed by two errors.\<close>

definition demo_decoders :: decoders where
  "demo_decoders = \<lparr>d_init = (\<lambda>v. if v = Bool True then Inr 1 else Inl ''no''),
     d_load = (\<lambda>_. Inl ''no''), d_base64 = (\<lambda>_. Inl ''no''), d_id = (\<lambda>_. Inl ''no''),
     d_list = (\<lambda>_. Inl ''no''), d_event = (\<lambda>_. Inl ''no'')\<rparr>"

definition demo_surroundings :: surroundings where
  "demo_surroundings = \<lparr>target_name = ''t'', ebpf_revision = ''r'', build_info = Null, uptime_ms = 0\<rparr>"

theorem initialize_gate_witness:
  "snd (run_methods demo_decoders demo_surroundings tiny_enc
     [(''sf.stats'', Object []), (''sf.initialize'', Null)] (service_new ''s'' :: unit service)) =
   service_new ''s''"
proof -
  let ?reqs = "[(''sf.stats'', Object []), (''sf.initialize'', Null)]"
  obtain xs sv where run: "run_methods demo_decoders demo_surroundings tiny_enc ?reqs
      (service_new ''s'' :: unit service) = (xs, sv)"
    by fastforce
  then have "filter is_init_ok (zip ?reqs xs) = []"
    by (auto simp: service_handle_def service_new_def decode_def demo_decoders_def)
  with initialize_gate [of demo_decoders demo_surroundings tiny_enc ?reqs "''s''", where 'a = unit]
  show ?thesis unfolding run by simp
qed

definition demo_request :: json where
  "demo_request = jobj [(''jsonrpc'', String ''2.0''), (''id'', String ''1''),
     (''method'', String ''sf.stats'')]"

lemma route_exact_witness:
  "\<exists>q. sv_tasks (snd (route tiny_enc (\<lambda>_. Inr demo_request) ''x''
     (service_new ''s'' :: unit service))) = [q] \<and> length (rq_id q) \<le> 128"
proof -
  let ?sv = "service_new ''s'' :: unit service"
  have "sv_tasks (snd (route tiny_enc (\<lambda>_. Inr demo_request) ''x'' ?sv)) \<noteq> sv_tasks ?sv"
    by (simp add: route_def accept_request_def demo_request_def vget_jobj service_new_def
        REQUEST_SLOTS_def Let_def jobj_def)
  moreover obtain go x where "route tiny_enc (\<lambda>_. Inr demo_request) ''x'' ?sv = (go, x)" by fastforce
  ultimately show ?thesis
    using route_exact [of tiny_enc "\<lambda>_. Inr demo_request" "''x''" ?sv]
    by (auto simp: service_new_def)
qed

section \<open>Listing\<close>

definition reply_ids :: "json \<Rightarrow> json list" where
  "reply_ids reply =
     (case vget reply ''objects'' of
        Some (Array vs) \<Rightarrow> map (\<lambda>v. vindex v ''object_id'') vs
      | _ \<Rightarrow> [])"

text \<open>A client that follows the cursor from page to page.\<close>

fun walk :: "nat \<Rightarrow> string option \<Rightarrow> nat \<Rightarrow> 'p runtime \<Rightarrow> json list" where
  "walk 0 after limit r = []"
| "walk (Suc n) after limit r =
     (let reply = list_objects after limit r in
      reply_ids reply @
      (case vget reply ''next'' of Some (String s) \<Rightarrow> walk n (Some s) limit r | _ \<Rightarrow> []))"

definition after_ids :: "string option \<Rightarrow> 'p runtime \<Rightarrow> string list" where
  "after_ids after r = filter (\<lambda>i. case after of None \<Rightarrow> True | Some a \<Rightarrow> a < i) (registered r)"

lemma status_id: "vindex (object_status ob) ''object_id'' = String (ob_id ob)"
  by (simp add: object_status_def vindex_def vget_jobj)

lemma list_objects_reply:
  assumes inv: "rt_inv enc r"
  shows "reply_ids (list_objects after limit r) = map String (take limit (after_ids after r))"
    and "vget (list_objects after limit r) ''next'' = Some
      (if limit < length (after_ids after r) \<and> 0 < limit
       then String (last (take limit (after_ids after r))) else Null)"
proof -
  have id: "ob_id (the (heap r i)) = i" if i: "i \<in> set (registered r)" for i
  proof -
    from inv i obtain ob where "heap r i = Some ob" unfolding rt_inv_def ids_ok_def by blast
    with rt_inv_objectD [OF inv this] show ?thesis by (simp add: object_ok_def)
  qed
  let ?ids = "after_ids after r"
  have ids: "\<forall>i \<in> set (take limit ?ids). vindex (object_status (the (heap r i))) ''object_id'' = String i"
    by (auto simp: after_ids_def status_id id dest!: in_set_takeD)
  let ?page = "map (\<lambda>i. object_status (the (heap r i))) (take limit ?ids)"
  have eq: "list_objects after limit r = jobj [(''objects'', Array ?page),
      (''next'', if limit < length ?ids \<and> ?page \<noteq> [] then vindex (last ?page) ''object_id'' else Null)]"
    by (simp add: list_objects_def after_ids_def Let_def take_map)
  show "reply_ids (list_objects after limit r) = map String (take limit ?ids)"
    unfolding eq using ids by (simp add: reply_ids_def vget_jobj)
  have "vindex (last ?page) ''object_id'' = String (last (take limit ?ids))" if "take limit ?ids \<noteq> []"
  proof -
    have "last ?page = object_status (the (heap r (last (take limit ?ids))))"
      using that by (simp add: last_map)
    with ids that show ?thesis by (metis last_in_set)
  qed
  then show "vget (list_objects after limit r) ''next'' = Some
      (if limit < length ?ids \<and> 0 < limit then String (last (take limit ?ids)) else Null)"
    unfolding eq by (cases "limit = 0") (auto simp: vget_jobj)
qed

text \<open>The identifiers after the last one of a page are the rest of the list.\<close>

lemma after_last:
  assumes "sorted xs" "distinct xs" "0 < n" "n < length xs"
  shows "filter (\<lambda>i. last (take n xs) < i) xs = drop n xs"
proof -
  obtain ys a zs where xs: "xs = ys @ a # zs" "Suc (length ys) = n"
    using id_take_nth_drop [of "n - 1" xs] assms(3,4) by fastforce
  have last: "last (take n xs) = a" using xs by auto
  have "filter (\<lambda>i. a < i) ys = []"
    using assms(1) unfolding xs(1) by (auto simp: sorted_append filter_empty_conv leD)
  moreover have "filter (\<lambda>i. a < i) zs = zs"
    using assms(1,2) unfolding xs(1) by (auto simp: sorted_append filter_id_conv order_less_le)
  ultimately show ?thesis using xs last by auto
qed

lemma after_ids_next:
  assumes "rt_inv enc r" "0 < limit" "limit < length (after_ids after r)"
  shows "after_ids (Some (last (take limit (after_ids after r)))) r = drop limit (after_ids after r)"
proof -
  let ?ids = "after_ids after r"
  define a where "a = last (take limit ?ids)"
  have ok: "sorted (registered r)" "distinct (registered r)"
    using assms(1) by (simp_all add: rt_inv_def ids_ok_def)
  then have "sorted ?ids" "distinct ?ids" by (simp_all add: after_ids_def sorted_wrt_filter)
  from after_last [OF this assms(2,3)] have f: "filter (\<lambda>i. a < i) ?ids = drop limit ?ids" unfolding a_def .
  have "a \<in> set (take limit ?ids)" unfolding a_def using assms(2,3) by (intro last_in_set) auto
  then have "a \<in> set ?ids" by (rule in_set_takeD)
  then have "case after of None \<Rightarrow> True | Some b \<Rightarrow> b < a" by (simp add: after_ids_def)
  then have "a < i \<Longrightarrow> (case after of None \<Rightarrow> True | Some b \<Rightarrow> b < i)" for i
    by (cases after) (auto intro: less_trans)
  then have "after_ids (Some a) r = filter (\<lambda>i. a < i) ?ids"
    unfolding after_ids_def filter_filter option.case by (intro filter_cong) auto
  with f show ?thesis by (simp add: a_def)
qed

lemma walk_all:
  assumes "rt_inv enc r" "0 < limit" "length (after_ids after r) < n"
  shows "walk n after limit r = map String (after_ids after r)"
  using assms(3)
proof (induction n arbitrary: after)
  case (Suc n)
  let ?ids = "after_ids after r"
  note reply = list_objects_reply [OF assms(1), of after limit]
  show ?case
  proof (cases "limit < length ?ids")
    case True
    then have "length (after_ids (Some (last (take limit ?ids))) r) < n"
      using after_ids_next [OF assms(1,2) True] Suc.prems assms(2) by simp
    from Suc.IH [OF this] have "walk (Suc n) after limit r =
        map String (take limit ?ids) @ map String (drop limit ?ids)"
      using reply True assms(2) after_ids_next [OF assms(1,2) True] by (simp add: Let_def)
    then show ?thesis by (simp flip: map_append)
  next
    case False
    with reply show ?thesis by (simp add: Let_def)
  qed
qed simp

text \<open>
  C33: paging through the objects sees each of them exactly once, in the order of the
  identifiers: following the cursor with any page size gives all registered objects.
\<close>

theorem list_pages_complete:
  assumes "0 < limit" and "length (registered (rrun e enc s ops)) < n"
  shows "walk n None limit (rrun e enc s ops) = map String (registered (rrun e enc s ops))"
  using walk_all [where after = None and n = n, OF rrun_inv [of enc e ops s] assms(1)] assms(2)
  by (simp add: after_ids_def)

theorem list_pages_complete_witness:
  "walk 3 None 1 (rrun demo_engine tiny_enc ''s'' demo_load) = [String ''o1'']"
  using list_pages_complete [of 1 demo_engine tiny_enc demo_load "''s''" 3] demo_load_run by simp

end
