(* ===== verification/BuildRequest.thy ===== *)
theory BuildRequest
  imports Lifecycle
begin

text \<open>
  Build requests (\<^verbatim>\<open>src/build/mod.rs\<close>) and the path resolution of the compiler's file
  system (\<^verbatim>\<open>virtual_path\<close> of \<^verbatim>\<open>src/build/compiler.rs\<close>). Strings are byte lists, so the
  length and the slices are in bytes as in the code; \<^verbatim>\<open>split('/')\<close> and \<^verbatim>\<open>components()\<close> are
  the standard library's.
\<close>

section \<open>Splitting\<close>

definition slash :: char where
  "slash = CHR ''/''"

text \<open>\<^verbatim>\<open>split('/')\<close>: one part more than there are slashes.\<close>

fun split_slash :: "string \<Rightarrow> string list" where
  "split_slash [] = [[]]"
| "split_slash (c # s) =
     (if c = slash then [] # split_slash s
      else case split_slash s of p # ps \<Rightarrow> (c # p) # ps | [] \<Rightarrow> [[c]])"

text \<open>\<^verbatim>\<open>parts.join("/")\<close>.\<close>

fun join_slash :: "string list \<Rightarrow> string" where
  "join_slash [] = []"
| "join_slash [p] = p"
| "join_slash (p # q # ps) = p @ slash # join_slash (q # ps)"

datatype path_component = RootDir | CurDir | ParentDir | Normal string

text \<open>
  \<^verbatim>\<open>Path::components\<close> on Unix: empty parts and inner dots are skipped, a leading dot is
  \<^verbatim>\<open>CurDir\<close>.
\<close>

definition part_component :: "string \<Rightarrow> path_component list" where
  "part_component p =
     (if p = [] \<or> p = ''.'' then [] else if p = ''..'' then [ParentDir] else [Normal p])"

definition path_components :: "string \<Rightarrow> path_component list" where
  "path_components s =
     (case split_slash s of
        [] \<Rightarrow> []
      | p # ps \<Rightarrow>
          (if p = [] \<and> ps \<noteq> [] then [RootDir] else if p = ''.'' then [CurDir] else part_component p) @
          concat (map part_component ps))"

section \<open>Validation\<close>

definition path_byte :: "char \<Rightarrow> bool" where
  "path_byte c \<longleftrightarrow>
     within 0x30 0x39 c \<or> within 0x41 0x5A c \<or> within 0x61 0x7A c \<or> c \<in> set ''_./-''"

fun has_double_slash :: "string \<Rightarrow> bool" where
  "has_double_slash (a # b # s) = (a = slash \<and> b = slash \<or> has_double_slash (b # s))"
| "has_double_slash s = False"

definition valid_path :: "string \<Rightarrow> bool" where
  "valid_path name \<longleftrightarrow>
     name \<noteq> [] \<and> length name \<le> 200 \<and> hd name \<noteq> slash \<and> last name \<noteq> slash \<and>
     \<not> has_double_slash name \<and> list_all path_byte name \<and>
     list_all (\<lambda>p. p \<noteq> [] \<and> p \<noteq> ''.'' \<and> p \<noteq> ''..'' \<and> p \<noteq> ''spinfoam.h'') (split_slash name) \<and>
     list_all (\<lambda>c. case c of Normal p \<Rightarrow> True | _ \<Rightarrow> False) (path_components name)"

record build_request =
  sdk_version :: nat
  files :: "(string \<times> string) list"
  entry_file :: string

text \<open>The directories a name passes through: \<^verbatim>\<open>name[..i]\<close> for every slash at \<open>i\<close>.\<close>

definition parents :: "string \<Rightarrow> string list" where
  "parents name = map (\<lambda>i. take i name) (filter (\<lambda>i. name ! i = slash) [0..<length name])"

definition validate :: "build_request \<Rightarrow> rpc_error + unit" where
  "validate req =
     (if sdk_version req \<noteq> 1 then Inl (rpc_params ''sdk_version must be 1'')
      else if files req = [] \<or> 32 < length (files req) \<or>
        128 * 1024 < sum_list (map (length \<circ> snd) (files req))
      then Inl (rpc_params ''source bundle exceeds limits'')
      else if \<not> valid_path (entry_file req) \<or> entry_file req \<notin> set (map fst (files req)) \<or>
        list_ex (\<lambda>p. \<not> valid_path p) (map fst (files req))
      then Inl (rpc_params ''invalid source path or entry'')
      else if list_ex (\<lambda>name. list_ex (\<lambda>d. d \<in> set (map fst (files req))) (parents name))
        (map fst (files req))
      then Inl (rpc_params ''source file/directory conflict'')
      else Inr ())"

section \<open>Resolution\<close>

text \<open>The loop over the parts, the newest last; \<open>None\<close> is the early return.\<close>

fun resolve :: "string list \<Rightarrow> string list \<Rightarrow> string list option" where
  "resolve [] parts = Some parts"
| "resolve (p # ps) parts =
     (if p = [] \<or> p = ''.'' then resolve ps parts
      else if p = ''..'' then (if length parts \<le> 1 then None else resolve ps (butlast parts))
      else resolve ps (parts @ [p]))"

definition virtual_path :: "string \<Rightarrow> string option" where
  "virtual_path name =
     (if name = [] \<or> hd name \<noteq> slash then None
      else case resolve (split_slash name) [] of
          None \<Rightarrow> None
        | Some parts \<Rightarrow>
            if parts \<noteq> [] \<and> hd parts = ''src'' then Some (slash # join_slash parts) else None)"

section \<open>Compilation\<close>

record builds =
  unavailable :: "string option"
  fingerprint :: string
  cancelled :: bool

record compiler_output =
  out_elf :: bytes
  out_diagnostics :: string
  out_truncated :: bool

text \<open>
  \<^verbatim>\<open>Builds::new\<close>: \<open>parts\<close> are the compiler's object file, the SDK and the revision that the
  toolchain's fingerprint covers; \<open>enabled\<close> is the presence of a \<^verbatim>\<open>Config\<close>.
\<close>

definition builds_new :: "(bytes \<Rightarrow> bytes) \<Rightarrow> bytes list \<Rightarrow> bool \<Rightarrow> builds" where
  "builds_new sha2 parts enabled =
     \<lparr>unavailable = (if enabled then None else Some ''pass --enable-builds to enable compilation''),
      fingerprint = sha256 sha2 (concat parts), cancelled = False\<rparr>"

definition builds_shutdown :: "builds \<Rightarrow> builds" where
  "builds_shutdown b = b\<lparr>cancelled := True\<rparr>"

definition build_information :: "string \<Rightarrow> builds \<Rightarrow> json" where
  "build_information revision b =
     jobj [(''available'', Bool (unavailable b = None)),
       (''reason'', case unavailable b of None \<Rightarrow> Null | Some s \<Rightarrow> String s),
       (''fingerprint'', String (fingerprint b)), (''name'', String ''tinycc-in-ebpf''),
       (''revision'', String revision), (''target'', String ''bpfel''), (''embedded'', Bool True)]"

text \<open>\<^verbatim>\<open>compile\<close> before and after the compiler runs.\<close>

definition compile_begin ::
    "(json \<Rightarrow> string + build_request) \<Rightarrow> json \<Rightarrow> builds \<Rightarrow> rpc_error + build_request" where
  "compile_begin dec params b =
     (case dec params of
        Inl msg \<Rightarrow> Inl (rpc_params msg)
      | Inr req \<Rightarrow>
          (case validate req of
             Inl e \<Rightarrow> Inl e
           | Inr _ \<Rightarrow>
               (case unavailable b of
                  Some reason \<Rightarrow> Inl (rpc_error_new (- 32020) ''SANDBOX_UNAVAILABLE'' reason)
                | None \<Rightarrow> Inr req)))"

definition compile_end ::
    "(bytes \<Rightarrow> bytes) \<Rightarrow> (bytes \<Rightarrow> string) \<Rightarrow> string + compiler_output \<Rightarrow> builds \<Rightarrow> json" where
  "compile_end sha2 base64 res b =
     (if cancelled b then jobj [(''state'', String ''cancelled''), (''result'', Null)]
      else case res of
          Inr x \<Rightarrow> jobj [(''state'', String ''succeeded''), (''result'', jobj [
            (''sha256'', String (sha256 sha2 (out_elf x))), (''elf'', String (base64 (out_elf x))),
            (''sdk_version'', jint 1), (''toolchain'', String (fingerprint b)),
            (''diagnostics'', String (out_diagnostics x)),
            (''diagnostics_truncated'', Bool (out_truncated x))])]
        | Inl e \<Rightarrow> jobj [(''state'', String ''failed''), (''result'', jobj [
            (''kind'', String ''BUILD_FAILED''), (''error'', String (truncate_text e (16 * 1024)))])])"

section \<open>Parts\<close>

lemma split_ne [simp]: "split_slash s \<noteq> []"
  by (induction s) (auto split: list.splits)

lemma split_parts: "p \<in> set (split_slash s) \<Longrightarrow> slash \<notin> set p"
  by (induction s arbitrary: p) (auto split: list.splits if_splits)

lemma split_append: "split_slash (s @ slash # t) = split_slash s @ split_slash t"
  by (induction s) (auto split: list.splits)

lemma split_part: "slash \<notin> set p \<Longrightarrow> split_slash p = [p]"
  by (induction p) auto

lemma join_split: "join_slash (split_slash s) = s"
proof (induction s)
  case (Cons c s)
  obtain p ps where s: "split_slash s = p # ps" by (cases "split_slash s") auto
  with Cons show ?case by (cases ps) auto
qed simp

lemma split_join:
  "ps \<noteq> [] \<Longrightarrow> \<forall>p \<in> set ps. slash \<notin> set p \<Longrightarrow> split_slash (join_slash ps) = ps"
proof (induction ps rule: join_slash.induct)
  case (3 p q ps)
  then show ?case by (simp add: split_append split_part)
qed (simp_all add: split_part)

text \<open>A part that names something.\<close>

definition named :: "string \<Rightarrow> bool" where
  "named p \<longleftrightarrow> p \<noteq> [] \<and> p \<noteq> ''.'' \<and> p \<noteq> ''..'' \<and> slash \<notin> set p"

lemma resolve_named: "\<forall>p \<in> set ps. named p \<Longrightarrow> resolve ps parts = Some (parts @ ps)"
  by (induction ps arbitrary: parts) (auto simp: named_def)

lemma resolve_result:
  "resolve ps parts = Some qs \<Longrightarrow> \<forall>p \<in> set ps. slash \<notin> set p \<Longrightarrow> \<forall>p \<in> set parts. named p \<Longrightarrow>
   (\<forall>p \<in> set qs. named p)"
proof (induction ps arbitrary: parts)
  case (Cons p ps)
  consider "p = [] \<or> p = ''.''" | "p = ''..''" "\<not> length parts \<le> 1" | "named p"
    using Cons.prems by (auto simp: named_def split: if_splits)
  then show ?case
  proof cases
    case 1
    with Cons show ?thesis by auto
  next
    case 2
    with Cons.prems Cons.IH [of "butlast parts"] show ?thesis by (auto dest: in_set_butlastD)
  next
    case 3
    with Cons.prems Cons.IH [of "parts @ [p]"] show ?thesis by (auto simp: named_def)
  qed
qed simp

lemma virtual_path_parts:
  assumes "virtual_path name = Some q"
  obtains ps where "q = slash # join_slash (''src'' # ps)" "\<forall>p \<in> set ps. named p"
proof -
  obtain parts where parts: "resolve (split_slash name) [] = Some parts" "parts \<noteq> []"
    "hd parts = ''src''" "q = slash # join_slash parts"
    using assms by (auto simp: virtual_path_def split: option.splits if_splits)
  with resolve_result [OF parts(1)] have "\<forall>p \<in> set parts. named p" using split_parts by auto
  with parts(2-4) that show thesis by (cases parts) auto
qed

lemma virtual_path_join:
  assumes "\<forall>p \<in> set ps. named p"
  shows "virtual_path (slash # join_slash (''src'' # ps)) = Some (slash # join_slash (''src'' # ps))"
proof -
  have ps: "\<forall>p \<in> set (''src'' # ps). named p" using assms by (simp add: named_def slash_def)
  then have "split_slash (join_slash (''src'' # ps)) = ''src'' # ps"
    by (intro split_join) (auto simp: named_def)
  then have "split_slash (slash # join_slash (''src'' # ps)) = [] # ''src'' # ps" by simp
  with resolve_named [OF ps, of "[]"] show ?thesis by (simp add: virtual_path_def)
qed


lemma join_cons: "ps \<noteq> [] \<Longrightarrow> join_slash (p # ps) = p @ slash # join_slash ps"
  by (cases ps) auto

lemma valid_path_named: "valid_path f \<Longrightarrow> p \<in> set (split_slash f) \<Longrightarrow> named p \<and> p \<noteq> ''spinfoam.h''"
  using split_parts [of p f] by (auto simp: valid_path_def named_def list_all_iff)

lemma source_path: "''/src/'' @ f = slash # join_slash (''src'' # split_slash f)"
  by (simp add: join_cons join_split slash_def)

lemma parents_prefix: "d \<in> set (parents (d @ slash # t))"
proof -
  have "(d @ slash # t) ! length d = slash" "length d < length (d @ slash # t)" by simp_all
  then show ?thesis
    unfolding parents_def by (auto simp del: length_append intro!: image_eqI [of _ _ "length d"])
qed

section \<open>Properties\<close>

text \<open>
  C30: whatever a compiler asks for, the resolved path stays inside \<^verbatim>\<open>/src\<close>: it is \<^verbatim>\<open>/src\<close>
  followed by proper names, with no empty part, no dot and no parent reference left, and
  resolving it again changes nothing.
\<close>

theorem virtual_path_confined:
  assumes "virtual_path name = Some q"
  shows "\<exists>ps. q = slash # join_slash (''src'' # ps) \<and> (\<forall>p \<in> set ps. named p) \<and>
    split_slash q = [] # ''src'' # ps \<and> virtual_path q = Some q"
proof -
  obtain ps where ps: "q = slash # join_slash (''src'' # ps)" "\<forall>p \<in> set ps. named p"
    using virtual_path_parts [OF assms] .
  have "\<forall>p \<in> set (''src'' # ps). slash \<notin> set p" using ps(2) by (auto simp: named_def slash_def)
  then have "split_slash q = [] # ''src'' # ps" unfolding ps(1) using split_join [of "''src'' # ps"] by simp
  with ps virtual_path_join [OF ps(2)] show ?thesis by blast
qed

theorem virtual_path_confined_witness:
  "\<exists>ps. ''/src/b.h'' = slash # join_slash (''src'' # ps) \<and> virtual_path ''/src/b.h'' = Some ''/src/b.h''"
proof -
  have "virtual_path ''/src/a/.././b.h'' = Some ''/src/b.h''"
    by (simp add: virtual_path_def slash_def)
  from virtual_path_confined [OF this] show ?thesis by blast
qed

text \<open>
  C31: a request that passes validation is a file tree that the compiler's file system
  represents faithfully. Every file resolves to itself under \<^verbatim>\<open>/src\<close>, none is or shadows the
  SDK header, and none is also a directory of another; the entry is one of the files, and
  the bundle is within 32 files and 128 KiB.
\<close>

theorem validated_files_form_a_tree:
  assumes "validate req = Inr ()"
  shows "entry_file req \<in> set (map fst (files req)) \<and> length (files req) \<le> 32 \<and>
    sum_list (map (length \<circ> snd) (files req)) \<le> 128 * 1024 \<and>
    (\<forall>f \<in> set (map fst (files req)).
       virtual_path (''/src/'' @ f) = Some (''/src/'' @ f) \<and> length f \<le> 200 \<and>
       ''spinfoam.h'' \<notin> set (split_slash f) \<and>
       (\<forall>d \<in> set (map fst (files req)). \<forall>t. f \<noteq> d @ slash # t))"
proof -
  have ok: "entry_file req \<in> set (map fst (files req))" "length (files req) \<le> 32"
    "sum_list (map (length \<circ> snd) (files req)) \<le> 128 * 1024"
    "\<forall>f \<in> set (map fst (files req)). valid_path f"
    "\<forall>f \<in> set (map fst (files req)). \<forall>d \<in> set (parents f). d \<notin> set (map fst (files req))"
    using assms unfolding validate_def by (auto simp: list_ex_iff split: if_splits)
  have "virtual_path (''/src/'' @ f) = Some (''/src/'' @ f)" "length f \<le> 200"
      "''spinfoam.h'' \<notin> set (split_slash f)" if "valid_path f" for f
    using that valid_path_named [OF that] virtual_path_join [of "split_slash f"]
    unfolding source_path by (auto simp: valid_path_def)
  with ok parents_prefix show ?thesis by blast
qed

definition demo_build :: build_request where
  "demo_build = \<lparr>sdk_version = 1, files = [(''lib/a.h'', ''x''), (''main.c'', ''y'')],
     entry_file = ''main.c''\<rparr>"

lemma demo_path_bytes: "list_all path_byte ''lib/a.h''" "list_all path_byte ''main.c''"
  by (simp_all add: path_byte_def within_def)

lemma demo_paths: "valid_path ''lib/a.h''" "valid_path ''main.c''"
  using demo_path_bytes
  by (simp_all add: valid_path_def slash_def path_components_def part_component_def)

lemma demo_parents: "parents ''lib/a.h'' = [''lib'']" "parents ''main.c'' = []"
  by (simp_all add: parents_def slash_def upt_conv_Cons)

theorem validated_files_form_a_tree_witness:
  "virtual_path ''/src/lib/a.h'' = Some ''/src/lib/a.h'' \<and> entry_file demo_build = ''main.c''"
proof -
  have "validate demo_build = Inr ()"
    using demo_paths demo_parents by (simp add: validate_def demo_build_def)
  from validated_files_form_a_tree [OF this] show ?thesis by (simp add: demo_build_def)
qed

end
