(* ===== verification/Writer.thy ===== *)
theory Writer
  imports OutboxOrder "HOL-Library.Multiset"
begin

text \<open>
  The writer task of \<^verbatim>\<open>serve_with_config\<close> (\<^verbatim>\<open>src/protocol.rs\<close>) together with the waiting
  part of \<^verbatim>\<open>Outbox::next\<close> (\<^verbatim>\<open>src/outbox.rs\<close>): it takes frames, writes them with
  \<^verbatim>\<open>write_all\<close>, and flushes when \<^verbatim>\<open>next\<close> gives nothing more.

  Each step is one thing the task does between two points at which others may run. The
  output is a stream that takes some bytes, fails, or is not ready (\<open>io\<close>). The permit of
  the \<^verbatim>\<open>Notify\<close> is the difference between \<open>ochanged\<close>, the number of \<^verbatim>\<open>notify_one\<close> calls,
  and \<open>w_seen\<close>, the calls accounted for: a first poll consumes them all; a waiter that is
  woken consumes one and at most one is kept. \<^verbatim>\<open>select!\<close> polls its branches in random
  order; \<open>pick\<close> says that the branch for \<^verbatim>\<open>closed\<close> is looked at first.
\<close>

section \<open>The task\<close>

datatype write_state =
    WTake
  | WWait
  | WWrite bytes
  | WFlush
  | WEnd "string option"
  | WPanic

datatype io = IoPending | IoDone nat | IoFail string

record writer =
  w_state :: write_state
  w_seen :: nat
  w_sent :: bytes

definition writer_new :: writer where
  "writer_new = \<lparr>w_state = WTake, w_seen = 0, w_sent = []\<rparr>"

text \<open>A pass of the loop of \<^verbatim>\<open>next\<close>, up to its \<^verbatim>\<open>await\<close>.\<close>

definition take_step :: "writer \<Rightarrow> outbox \<Rightarrow> writer \<times> outbox" where
  "take_step w q =
     (case outbox_next q of
        (Frame b, q) \<Rightarrow> (w\<lparr>w_state := WWrite b\<rparr>, q)
      | (Finished, q) \<Rightarrow> (w\<lparr>w_state := WFlush\<rparr>, q)
      | (Panic, q) \<Rightarrow> (w\<lparr>w_state := WPanic\<rparr>, q)
      | (Await, q) \<Rightarrow>
          (if w_seen w < ochanged q then w\<lparr>w_seen := ochanged q\<rparr> else w\<lparr>w_state := WWait\<rparr>, q))"

text \<open>The suspended \<^verbatim>\<open>select!\<close> is polled again.\<close>

definition wake_step :: "bool \<Rightarrow> writer \<Rightarrow> outbox \<Rightarrow> writer \<times> outbox" where
  "wake_step pick w q =
     (if w_seen w < ochanged q \<and> \<not> (oclosed q \<and> pick)
      then (w\<lparr>w_state := WTake,
              w_seen := (if w_seen w + 1 < ochanged q then ochanged q - 1 else ochanged q)\<rparr>, q)
      else if oclosed q then (w\<lparr>w_state := WFlush\<rparr>, q)
      else (w, q))"

definition write_error :: "string \<Rightarrow> writer \<Rightarrow> outbox \<Rightarrow> writer \<times> outbox" where
  "write_error e w q = (w\<lparr>w_state := WEnd (Some e)\<rparr>, outbox_close q)"

text \<open>An iteration of \<^verbatim>\<open>write_all\<close>.\<close>

definition write_step :: "io \<Rightarrow> bytes \<Rightarrow> writer \<Rightarrow> outbox \<Rightarrow> writer \<times> outbox" where
  "write_step x b w q =
     (if b = [] then (w\<lparr>w_state := WTake\<rparr>, q)
      else case x of
          IoPending \<Rightarrow> (w, q)
        | IoFail e \<Rightarrow> write_error e w q
        | IoDone n \<Rightarrow>
            if n = 0 then write_error ''write zero'' w q
            else (w\<lparr>w_state := WWrite (drop n b), w_sent := w_sent w @ take n b\<rparr>, q))"

definition flush_step :: "io \<Rightarrow> writer \<Rightarrow> outbox \<Rightarrow> writer \<times> outbox" where
  "flush_step x w q =
     (case x of
        IoPending \<Rightarrow> (w, q)
      | IoFail e \<Rightarrow> (w\<lparr>w_state := WEnd (Some e)\<rparr>, q)
      | IoDone _ \<Rightarrow> (w\<lparr>w_state := WEnd None\<rparr>, q))"

definition writer_step :: "bool \<Rightarrow> io \<Rightarrow> writer \<Rightarrow> outbox \<Rightarrow> writer \<times> outbox" where
  "writer_step pick x w q =
     (case w_state w of
        WTake \<Rightarrow> take_step w q
      | WWait \<Rightarrow> wake_step pick w q
      | WWrite b \<Rightarrow> write_step x b w q
      | WFlush \<Rightarrow> flush_step x w q
      | _ \<Rightarrow> (w, q))"

text \<open>The frame a step takes from the outbox, and what is left to write of the current one.\<close>

definition takes :: "writer \<Rightarrow> outbox \<Rightarrow> bytes list" where
  "takes w q = (case (w_state w, fst (outbox_next q)) of (WTake, Frame b) \<Rightarrow> [b] | _ \<Rightarrow> [])"

definition unwritten :: "writer \<Rightarrow> bytes" where
  "unwritten w = (case w_state w of WWrite b \<Rightarrow> b | _ \<Rightarrow> [])"

section \<open>The frames in the outbox\<close>

definition pending_frames :: "outbox \<Rightarrow> bytes list" where
  "pending_frames q = control q @ concat (map (\<lambda>k. map fbytes (queued q k)) (ready q))"

lemma next_cases:
  assumes "outbox_inv q"
  obtains (frame) b where "outbox_next q = (Frame b, snd (outbox_next q))"
      "mset (pending_frames q) = add_mset b (mset (pending_frames (snd (outbox_next q))))"
  | (idle) "outbox_next q = (if oclosed q then Finished else Await, q)"
      "control q = []" "ready q = []"
proof (cases "serves_control q")
  case True
  then obtain b bs where b: "control q = b # bs" by (auto simp: serves_control_def neq_Nil_conv)
  show thesis
    by (rule frame [of b]) (simp_all add: next_control [OF True] b pending_frames_def queued_def)
next
  case ctl: False
  show thesis
  proof (cases "ready q")
    case Nil
    with ctl have "control q = []" by (simp add: serves_control_def)
    with next_idle [OF ctl Nil] Nil show thesis by (intro idle)
  next
    case (Cons k ks)
    with assms obtain f fs where k: "odata q k = Some (f # fs)" "k \<notin> set ks" by (rule ready_head)
    note eq = next_data [OF ctl Cons k(1)]
    define q' where "q' = snd (outbox_next q)"
    have eqs: "control q' = control q" "ready q' = (if fs = [] then ks else ks @ [k])"
      and qk: "queued q' k = fs" "queued q k = f # fs"
      and others: "j \<noteq> k \<Longrightarrow> queued q' j = queued q j" for j
      using k(1) by (auto simp: q'_def eq queued_def)
    have "map (\<lambda>j. map fbytes (queued q' j)) ks = map (\<lambda>j. map fbytes (queued q j)) ks"
      using k(2) others by (metis (no_types, lifting) map_eq_conv)
    then have "concat (map (\<lambda>j. map fbytes (queued q' j)) ks)
        = concat (map (\<lambda>j. map fbytes (queued q j)) ks)"
      by (rule arg_cong)
    then have "mset (pending_frames q) = add_mset (fbytes f) (mset (pending_frames q'))"
      using Cons by (simp add: pending_frames_def eqs qk del: map_eq_conv)
    then show thesis by (intro frame [of "fbytes f"]) (simp_all add: eq q'_def)
  qed
qed

lemma next_await:
  "outbox_inv q \<Longrightarrow> fst (outbox_next q) = Await \<longleftrightarrow> \<not> oclosed q \<and> control q = [] \<and> ready q = []"
proof -
  assume inv: "outbox_inv q"
  show ?thesis
  using inv proof (cases rule: next_cases)
    case (frame b)
    then have "pending_frames q \<noteq> []" by auto
    then have "control q \<noteq> [] \<or> ready q \<noteq> []" by (auto simp: pending_frames_def)
    moreover have "fst (outbox_next q) = Frame b" using frame(1) by (metis fst_conv)
    ultimately show ?thesis by auto
  qed simp
qed

section \<open>The writer beside the rest of the program\<close>

text \<open>Whatever else happens to the outbox, only the writer calls \<^verbatim>\<open>next\<close>.\<close>

datatype wr_op = WrStep bool io | WrOut outbox_op

fun wr_exec :: "encoder \<Rightarrow> wr_op \<Rightarrow> writer \<times> outbox \<Rightarrow> writer \<times> outbox" where
  "wr_exec enc (WrStep pick x) (w, q) = writer_step pick x w q"
| "wr_exec enc (WrOut op) (w, q) = (w, if op = OpNext then q else outbox_exec enc op q)"

text \<open>The frames taken in a run, in order.\<close>

fun op_takes :: "wr_op \<Rightarrow> writer \<times> outbox \<Rightarrow> bytes list" where
  "op_takes (WrStep _ _) (w, q) = takes w q"
| "op_takes (WrOut _) (w, q) = []"

fun wr_taken :: "encoder \<Rightarrow> wr_op list \<Rightarrow> writer \<times> outbox \<Rightarrow> bytes list" where
  "wr_taken enc [] s = []"
| "wr_taken enc (op # ops) s = op_takes op s @ wr_taken enc ops (wr_exec enc op s)"

text \<open>
  A step keeps the bytes written, the rest of the current frame and the frame it takes in
  line, unless it ends with an error; then what was written is a beginning of that line.
\<close>

definition in_line :: "writer \<Rightarrow> bytes \<Rightarrow> writer \<Rightarrow> bool" where
  "in_line w new w' \<longleftrightarrow>
     (if \<exists>e. w_state w' = WEnd (Some e) then \<exists>t. w_sent w' @ t = w_sent w @ unwritten w @ new
      else w_sent w' @ unwritten w' = w_sent w @ unwritten w @ new)"

lemma step_in_line: "in_line w (concat (takes w q)) (fst (writer_step pick x w q))"
proof (cases "w_state w")
  case WTake
  then show ?thesis
    by (simp add: writer_step_def take_step_def takes_def in_line_def unwritten_def
        split: next_result.split prod.split)
next
  case WWait
  then show ?thesis
    by (simp add: writer_step_def wake_step_def takes_def in_line_def unwritten_def)
next
  case (WWrite b)
  then show ?thesis
    by (simp add: writer_step_def write_step_def write_error_def takes_def in_line_def
        unwritten_def split: io.split)
next
  case WFlush
  then show ?thesis
    by (simp add: writer_step_def flush_step_def takes_def in_line_def unwritten_def split: io.split)
next
  case (WEnd z)
  then show ?thesis
    by (cases z) (simp_all add: writer_step_def takes_def in_line_def unwritten_def)
next
  case WPanic
  then show ?thesis by (simp add: writer_step_def takes_def in_line_def unwritten_def)
qed

text \<open>Every frame, queued or written, is the encoding of a value.\<close>

definition frame_of :: "encoder \<Rightarrow> bytes \<Rightarrow> bool" where
  "frame_of enc b \<longleftrightarrow> (\<exists>v. encode enc v = Some b)"

definition frames_ok :: "encoder \<Rightarrow> outbox \<Rightarrow> bool" where
  "frames_ok enc q \<longleftrightarrow>
     (\<forall>b \<in> set (control q). frame_of enc b) \<and>
     (\<forall>k fs f. odata q k = Some fs \<longrightarrow> f \<in> set fs \<longrightarrow> frame_of enc (fbytes f))"

definition sent_ok :: "encoder \<Rightarrow> writer \<Rightarrow> bool" where
  "sent_ok enc w \<longleftrightarrow>
     (\<exists>fs. list_all (frame_of enc) fs \<and>
        (if \<exists>e. w_state w = WEnd (Some e) then \<exists>t. w_sent w @ t = concat fs
         else w_sent w @ unwritten w = concat fs))"

definition wr_core :: "writer \<times> outbox \<Rightarrow> bool" where
  "wr_core s \<longleftrightarrow> (case s of (w, q) \<Rightarrow>
     outbox_inv q \<and> w_seen w \<le> ochanged q \<and> w_state w \<noteq> WPanic \<and>
     (w_state w = WWait \<longrightarrow> w_seen w = ochanged q \<longrightarrow> control q = [] \<and> ready q = []))"

definition wr_inv :: "encoder \<Rightarrow> writer \<times> outbox \<Rightarrow> bool" where
  "wr_inv enc s \<longleftrightarrow> wr_core s \<and> frames_ok enc (snd s) \<and> sent_ok enc (fst s)"

lemma frame_of_control: "control_bytes enc v = Inr b \<Longrightarrow> frame_of enc b"
  by (auto simp: control_bytes_def frame_of_def split: option.splits)

lemma frames_ok_push:
  assumes "frames_ok enc q"
  shows "frame_of enc b \<Longrightarrow> frames_ok enc (push_control b q)"
    and "frame_of enc (fbytes f) \<Longrightarrow> frames_ok enc (snd (push_data k f q))"
  using assms
  by (auto simp: frames_ok_def push_control_def push_data_def queued_def Let_def)
    (cases "odata q k"; force)

lemma frames_ok_exec: "frames_ok enc q \<Longrightarrow> frames_ok enc (outbox_exec enc op q)"
proof (cases op)
  case (OpControl v)
  assume "frames_ok enc q"
  with OpControl frames_ok_push(1) frame_of_control show ?thesis
    by (auto simp: outbox_control_def split: sum.split)
next
  case (OpTryControl v)
  assume "frames_ok enc q"
  with OpTryControl frames_ok_push(1) show ?thesis
    by (auto simp: try_control_def try_push_control_def frame_of_def split: option.split)
next
  case (OpTryData k v)
  assume ok: "frames_ok enc q"
  show ?thesis
  proof (cases "encode enc v")
    case (Some b)
    let ?f = "\<lparr>fbytes = b, request_id = request_id_of v\<rparr>"
    have "frames_ok enc (snd (push_data k ?f q))"
      using Some by (intro frames_ok_push(2) [OF ok]) (auto simp: frame_of_def)
    with OpTryData Some show ?thesis
      by (auto simp: try_data_def frames_ok_def split: prod.split)
  qed (use ok OpTryData in \<open>simp add: try_data_def\<close>)
next
  case (OpData k v)
  assume ok: "frames_ok enc q"
  show ?thesis
  proof (cases "encode enc v")
    case (Some b)
    let ?f = "\<lparr>fbytes = b, request_id = request_id_of v\<rparr>"
    have "frames_ok enc (snd (push_data k ?f q))"
      using Some by (intro frames_ok_push(2) [OF ok]) (auto simp: frame_of_def)
    with OpData Some ok show ?thesis
      by (auto simp: outbox_data_def split: prod.split)
  qed (use ok OpData in \<open>simp add: outbox_data_def\<close>)
next
  case OpNext
  assume "frames_ok enc q"
  with OpNext show ?thesis
    by (auto simp: frames_ok_def outbox_next_def dest: list.set_sel(2)
        split: list.split option.split if_splits)
qed (auto simp: frames_ok_def remove_request_def remove_object_def outbox_close_def Let_def
    split: option.split if_splits)

lemma frames_ok_taken: "frames_ok enc q \<Longrightarrow> outbox_next q = (Frame b, q') \<Longrightarrow> frame_of enc b"
  by (auto simp: frames_ok_def outbox_next_def split: list.splits option.splits if_splits)

lemma sent_ok_step:
  assumes "sent_ok enc w" "list_all (frame_of enc) new" "in_line w (concat new) w'"
    and "\<nexists>e. w_state w = WEnd (Some e)"
  shows "sent_ok enc w'"
proof -
  from assms(1,4) obtain fs where fs: "list_all (frame_of enc) fs" "w_sent w @ unwritten w = concat fs"
    by (auto simp: sent_ok_def)
  have "w_sent w @ unwritten w @ concat new = concat (fs @ new)"
    using fs(2) by (simp flip: append_assoc)
  moreover have "list_all (frame_of enc) (fs @ new)" using fs(1) assms(2) by simp
  ultimately show ?thesis
    using assms(3) unfolding in_line_def sent_ok_def by metis
qed

text \<open>Frames get into the queues with a \<^verbatim>\<open>notify_one\<close> only.\<close>

lemma notified:
  assumes "op \<noteq> OpNext"
  shows "ochanged q \<le> ochanged (outbox_exec enc op q) \<and>
    (ochanged (outbox_exec enc op q) = ochanged q \<longrightarrow>
       (control q = [] \<longrightarrow> control (outbox_exec enc op q) = []) \<and>
       (ready q = [] \<longrightarrow> ready (outbox_exec enc op q) = []))"
  using assms
  by (cases op)
    (auto simp: outbox_control_def try_control_def try_push_control_def push_control_def
      try_data_def outbox_data_def push_data_def remove_request_def remove_object_def
      outbox_close_def Let_def split: sum.splits option.splits)

lemma wr_core_step:
  assumes "wr_core (w, q)"
  shows "wr_core (writer_step pick x w q)"
proof -
  from assms have inv: "outbox_inv q" "w_seen w \<le> ochanged q" by (simp_all add: wr_core_def)
  have take: "wr_core (take_step w q)"
  using inv(1) proof (cases rule: next_cases)
    case (frame b)
    obtain q' where q': "outbox_next q = (Frame b, q')" using frame(1) by blast
    have "ochanged q' = ochanged q"
      using q' by (auto simp: outbox_next_def split: if_splits list.splits option.splits)
    with q' inv outbox_inv_next [OF inv(1)] show ?thesis by (simp add: take_step_def wr_core_def)
  next
    case idle
    with inv assms show ?thesis by (auto simp: take_step_def wr_core_def)
  qed
  with assms show ?thesis
    by (cases "w_state w";
      auto simp: writer_step_def wake_step_def write_step_def write_error_def flush_step_def
        wr_core_def outbox_inv_close split: io.split; simp add: outbox_close_def)
qed

lemma wr_core_out:
  assumes "wr_core (w, q)" "op \<noteq> OpNext"
  shows "wr_core (w, outbox_exec enc op q)"
  using assms notified [OF assms(2), of q enc] outbox_inv_exec [of q enc op]
  by (auto simp: wr_core_def)

lemma writer_outbox:
  "writer_step pick x w q = (w', q') \<Longrightarrow>
   q' = q \<or> q' = snd (outbox_next q) \<or> q' = outbox_close q"
  by (auto simp: writer_step_def take_step_def wake_step_def write_step_def write_error_def
      flush_step_def split: write_state.splits next_result.splits prod.splits io.splits if_splits)

lemma wr_inv_step:
  assumes "wr_inv enc (w, q)"
  shows "wr_inv enc (writer_step pick x w q)"
proof (cases "\<exists>e. w_state w = WEnd (Some e)")
  case True
  with assms show ?thesis by (auto simp: writer_step_def)
next
  case False
  obtain w' q' where s: "writer_step pick x w q = (w', q')" by fastforce
  from assms have ok: "wr_core (w, q)" "frames_ok enc q" "sent_ok enc w" by (simp_all add: wr_inv_def)
  have "list_all (frame_of enc) (takes w q)"
    using frames_ok_taken [OF ok(2)]
    by (auto simp: takes_def split: write_state.split next_result.split) (metis prod.collapse)
  from sent_ok_step [OF ok(3) this step_in_line False] s have "sent_ok enc w'" by (metis fst_conv)
  moreover have "frames_ok enc q'"
    using writer_outbox [OF s] frames_ok_exec [OF ok(2), of OpNext] frames_ok_exec [OF ok(2), of OpClose] ok(2)
    by auto
  ultimately show ?thesis using wr_core_step [OF ok(1), of pick x] s by (simp add: wr_inv_def)
qed

lemma wr_inv_out: "wr_inv enc (w, q) \<Longrightarrow> op \<noteq> OpNext \<Longrightarrow> wr_inv enc (w, outbox_exec enc op q)"
  by (simp add: wr_inv_def wr_core_out frames_ok_exec)

interpretation wr: machine "\<lambda>s. s = (writer_new, outbox_new)" "wr_exec enc" "wr_inv enc" for enc
proof unfold_locales
  have "frames_ok enc outbox_new" by (simp add: frames_ok_def outbox_new_def)
  moreover have "sent_ok enc writer_new"
    by (auto simp: sent_ok_def writer_new_def unwritten_def intro: exI [of _ "[]"])
  ultimately show "wr_inv enc s" if "s = (writer_new, outbox_new)" for s
    using that by (simp add: wr_inv_def wr_core_def writer_new_def)
  show "wr_inv enc (wr_exec enc op s)" if "wr_inv enc s" for op s
    using that by (cases s; cases op) (auto simp: wr_inv_step wr_inv_out)
qed

section \<open>What is on the wire\<close>

lemma ended_step: "w_state w = WEnd z \<Longrightarrow> writer_step pick x w q = (w, q) \<and> takes w q = []"
  by (simp add: writer_step_def takes_def)

lemma ended_run:
  "w_state w = WEnd z \<Longrightarrow> fst (fold (wr_exec enc) ops (w, q)) = w \<and> wr_taken enc ops (w, q) = []"
proof (induction ops arbitrary: q)
  case (Cons op ops)
  then show ?case by (cases op) (simp_all add: ended_step)
qed simp

lemma in_line_trans:
  assumes "in_line w a w1" "\<nexists>e. w_state w1 = WEnd (Some e)" "in_line w1 b w2"
  shows "in_line w (a @ b) w2"
proof -
  have eq: "w_sent w @ unwritten w @ (a @ b) = (w_sent w1 @ unwritten w1) @ b"
    using assms(1,2) by (simp add: in_line_def)
  show ?thesis using assms(3) unfolding in_line_def eq by simp
qed

lemma run_in_line:
  "in_line w (concat (wr_taken enc ops (w, q))) (fst (fold (wr_exec enc) ops (w, q)))"
proof (induction ops arbitrary: w q)
  case (Cons op ops)
  obtain w' q' where s: "wr_exec enc op (w, q) = (w', q')" by fastforce
  have step: "in_line w (concat (op_takes op (w, q))) w'"
    using s step_in_line [of w q] by (cases op) (simp_all add: in_line_def, metis fst_conv)
  show ?case
  proof (cases "\<exists>e. w_state w' = WEnd (Some e)")
    case True
    then obtain z where "w_state w' = WEnd z" by blast
    from ended_run [OF this] step s show ?thesis by simp
  next
    case False
    with in_line_trans [OF step False Cons.IH [of w' q']] s show ?thesis by simp
  qed
qed (simp add: in_line_def)

section \<open>Draining\<close>

text \<open>
  Once the outbox is closed and the output takes at least a byte at a time, every step of a
  writer that is not suspended brings it nearer to its end; \<open>left\<close> bounds the steps.
\<close>

definition left :: "writer \<Rightarrow> outbox \<Rightarrow> nat" where
  "left w q =
     sum_mset (image_mset (\<lambda>b. length b + 2) (mset (pending_frames q))) +
     (case w_state w of WTake \<Rightarrow> 2 | WWrite b \<Rightarrow> length b + 3 | WFlush \<Rightarrow> 1 | _ \<Rightarrow> 0)"

fun makes_progress :: "wr_op \<Rightarrow> bool" where
  "makes_progress (WrStep pick (IoDone n)) = (n \<noteq> 0)"
| "makes_progress _ = False"

definition draining :: "writer \<Rightarrow> outbox \<Rightarrow> bool" where
  "draining w q \<longleftrightarrow> outbox_inv q \<and> oclosed q \<and>
     (w_state w = WTake \<or> (\<exists>b. w_state w = WWrite b) \<or>
      (w_state w = WFlush \<or> w_state w = WEnd None) \<and> pending_frames q = [])"

lemma draining_step:
  assumes d: "draining w q" "w_state w \<noteq> WEnd None" and op: "makes_progress op"
    and s: "wr_exec enc op (w, q) = (w', q')"
  shows "draining w' q' \<and> left w' q' < left w q \<and>
    mset (pending_frames q) = mset (op_takes op (w, q)) + mset (pending_frames q')"
proof -
  obtain pick n where op': "op = WrStep pick (IoDone n)" "n \<noteq> 0"
    using op by (cases op rule: makes_progress.cases) auto
  have inv: "outbox_inv q" and closed: "oclosed q" using d by (simp_all add: draining_def)
  consider (take) "w_state w = WTake" | (writing) b where "w_state w = WWrite b"
    | (flush) "w_state w = WFlush" "pending_frames q = []"
    using d by (auto simp: draining_def)
  then show ?thesis
  proof cases
    case take
    from inv show ?thesis
    proof (cases rule: next_cases)
      case (frame b)
      obtain r where r: "outbox_next q = (Frame b, r)" using frame(1) by blast
      have "oclosed r" "outbox_inv r"
        using r closed outbox_inv_next [OF inv]
        by (auto simp: outbox_next_def split: if_splits list.splits option.splits)
      with take op' s r frame(2) show ?thesis
        by (auto simp: writer_step_def take_step_def takes_def draining_def left_def)
    next
      case idle
      with take op' s inv closed show ?thesis
        by (auto simp: writer_step_def take_step_def takes_def draining_def left_def
            pending_frames_def)
    qed
  next
    case (writing b)
    with op' s inv closed show ?thesis
      by (cases "b = []") (auto simp: writer_step_def write_step_def takes_def draining_def left_def)
  next
    case flush
    with op' s inv closed show ?thesis
      by (auto simp: writer_step_def flush_step_def takes_def draining_def left_def)
  qed
qed

lemma drained:
  assumes "draining w q" "list_all makes_progress ops" "left w q \<le> length ops"
  shows "w_state (fst (fold (wr_exec enc) ops (w, q))) = WEnd None \<and>
    mset (wr_taken enc ops (w, q)) = mset (pending_frames q)"
  using assms
proof (induction ops arbitrary: w q)
  case Nil
  then show ?case by (auto simp: draining_def left_def)
next
  case (Cons op ops)
  show ?case
  proof (cases "w_state w = WEnd None")
    case True
    with ended_run [OF True, of enc "op # ops" q] Cons.prems(1) show ?thesis
      by (simp add: draining_def)
  next
    case False
    obtain w' q' where s: "wr_exec enc op (w, q) = (w', q')" by fastforce
    have "makes_progress op" using Cons.prems(2) by simp
    from draining_step [OF Cons.prems(1) False this s] Cons.IH [of w' q'] Cons.prems(2,3) s
    show ?thesis by simp
  qed
qed

section \<open>Properties\<close>

text \<open>
  The byte stream is made of whole frames. In every run the bytes written, followed by
  what is left of the current frame, are the frames taken from the outbox one after the
  other; after an output error they are a beginning of that sequence. The writer never
  panics.
\<close>

lemma written_stream_is_frames:
  "let (w, q) = fold (wr_exec enc) ops (writer_new, outbox_new);
       frames = concat (wr_taken enc ops (writer_new, outbox_new)) in
     (if \<exists>e. w_state w = WEnd (Some e) then \<exists>t. w_sent w @ t = frames
      else w_sent w @ unwritten w = frames) \<and> w_state w \<noteq> WPanic"
proof -
  obtain w q where f: "fold (wr_exec enc) ops (writer_new, outbox_new) = (w, q)" by fastforce
  have inv: "wr_inv enc (w, q)" using wr.reach_inv [OF refl, of enc ops] f by simp
  have empty: "w_sent writer_new = []" "unwritten writer_new = []"
    by (simp_all add: writer_new_def unwritten_def)
  have "in_line writer_new (concat (wr_taken enc ops (writer_new, outbox_new))) w"
    using run_in_line [of writer_new enc ops outbox_new] f by simp
  with inv show ?thesis unfolding in_line_def empty append_Nil f Let_def wr_inv_def wr_core_def by blast
qed

text \<open>
  No wake-up is lost. In every reachable state a writer suspended in \<^verbatim>\<open>next\<close> resumes
  when it is polled as soon as there is a frame to write or the outbox is closed.
\<close>

lemma writer_wakes_up:
  assumes "fold (wr_exec enc) ops (writer_new, outbox_new) = (w, q)" and "w_state w = WWait"
    and "control q \<noteq> [] \<or> (\<exists>k. queued q k \<noteq> []) \<or> oclosed q"
  shows "w_state (fst (writer_step pick x w q)) \<noteq> WWait"
proof -
  have inv: "wr_inv enc (w, q)" using wr.reach_inv [OF refl, of enc ops] assms(1) by simp
  have "queued q k = []" if "ready q = []" for k
    using that inv outbox_invD(4) [of q k] by (auto simp: wr_inv_def wr_core_def queued_def)
  with inv assms(2,3) show ?thesis
    by (auto simp: wr_inv_def wr_core_def writer_step_def wake_step_def)
qed


lemmas writer_eval =
  writer_new_def writer_step_def take_step_def wake_step_def write_step_def flush_step_def
  takes_def unwritten_def pending_frames_def left_def outbox_close_def outbox_eval try_control_def


end
