(* ===== verification/Serving.thy ===== *)
theory Serving
  imports Service BuildRequest Writer
begin

text \<open>
  The whole program: \<^verbatim>\<open>serve_with_config\<close> of \<^verbatim>\<open>src/protocol.rs\<close>, that is the loop around
  \<^verbatim>\<open>select!\<close>, the request tasks, the objects' tasks, the writer, and the shutdown sequence.

  Everything runs on one thread, so a run is a sequence of polls. \<open>MainPoll\<close> polls the main
  future, \<open>ReqPoll\<close> a request task, \<open>ObjPoll\<close> an object's task, \<open>Output\<close> the writer;
  \<open>GuestAct\<close> is what an object's program does through its helpers; \<open>Input\<close> is the arrival of bytes, of an error or of the end (the empty chunk) on the
  input. The signals and the timer are arguments of \<open>MainPoll\<close>.
\<close>

section \<open>A frame future that is polled\<close>

text \<open>
  \<open>frame_poll\<close> is one poll of \<^verbatim>\<open>frame\<close>: the bytes in its local vector, and what the reader can
  give at once; \<open>None\<close> when it has to wait for more. It is the loop of \<open>read_frame\<close>, cut at
  its \<^verbatim>\<open>await\<close>.
\<close>

fun frame_poll :: "bytes \<Rightarrow> reader \<Rightarrow> frame_result option \<times> bytes \<times> reader" where
  "frame_poll frame [] = (None, frame, [])"
| "frame_poll frame (Inl e # r) = (Some (FrameError e), frame, r)"
| "frame_poll frame (Inr b # r) =
     (if b = [] then
        (Some (if frame = [] then EndOfInput else FrameError ''EOF inside JSON frame''),
         frame, Inr b # r)
      else
        let end' = map_option Suc (position_newline b);
            count = (case end' of Some i \<Rightarrow> i | None \<Rightarrow> length b)
        in if MAX_FRAME < length frame + count
           then (Some (FrameError ''frame exceeds limit''), frame, Inr b # r)
           else case end' of
               Some i \<Rightarrow> (Some (FrameBytes (frame @ take count b)), frame @ take count b,
                          if count = length b then r else Inr (drop count b) # r)
             | None \<Rightarrow> frame_poll (frame @ take count b) r)"

section \<open>State\<close>

text \<open>
  \<open>Leaving\<close> is the state after the \<^verbatim>\<open>break\<close>, \<open>Joined\<close> the one after the tasks were joined,
  \<open>StopObjects ids\<close> the wait in \<^verbatim>\<open>Runtime::shutdown\<close> with the objects still to stop,
  \<open>Flushing\<close> the wait for the writer.
\<close>

datatype serve_phase =
    Serving
  | Leaving
  | Joined
  | StopObjects "string list"
  | Flushing
  | Over "string option"

text \<open>
  \<open>sr_partial\<close> is the local vector of the current frame future, \<open>sr_joinable\<close> the tasks that
  have ended and were not joined yet, with the message of the panic if there was one.
\<close>

text \<open>
  How far a request task has come: not polled yet, waiting for the loader's thread, for an
  object to stop, for the compiler, or with the method's result and the answer to be queued.
\<close>

datatype stage =
    NotPolled
  | Loading u64
  | StoppingObject string bool
  | Building build_request
  | Answering rpc_result

record 'p server =
  sr_service :: "'p service"
  sr_writer :: writer
  sr_builds :: builds
  sr_input :: reader
  sr_partial :: bytes
  sr_stage :: "string \<Rightarrow> stage"
  sr_joinable :: "string option list"
  sr_error :: "string option"
  sr_phase :: serve_phase

definition server_new :: "string \<Rightarrow> builds \<Rightarrow> 'p server" where
  "server_new s b =
     \<lparr>sr_service = service_new s, sr_writer = writer_new, sr_builds = b, sr_input = [],
      sr_partial = [], sr_stage = (\<lambda>_. NotPolled), sr_joinable = [], sr_error = None, sr_phase = Serving\<rparr>"

abbreviation sr_out :: "'p server \<Rightarrow> outbox" where
  "sr_out st \<equiv> wout (sv_world (sr_service st))"

section \<open>The loop\<close>

definition leave :: "string option \<Rightarrow> 'p server \<Rightarrow> 'p server" where
  "leave e st = st\<lparr>sr_partial := [],
     sr_error := (case e of None \<Rightarrow> sr_error st | Some x \<Rightarrow> Some x), sr_phase := Leaving\<rparr>"

text \<open>
  A poll of the biased \<^verbatim>\<open>select!\<close>. A branch that completes drops the others: with a joined
  task the frame future goes, and the bytes it had read go with it.
\<close>

definition select_poll ::
    "encoder \<Rightarrow> parser \<Rightarrow> bool \<Rightarrow> bool \<Rightarrow> 'p server \<Rightarrow> 'p server" where
  "select_poll enc parse terminated interrupted st =
     (if sv_shutdown (sr_service st) \<or> terminated \<or> interrupted \<or> oclosed (sr_out st)
      then leave None st
      else case sr_joinable st of
          Some e # js \<Rightarrow> leave (Some (''request task failed: '' @ e)) (st\<lparr>sr_joinable := js\<rparr>)
        | None # js \<Rightarrow> st\<lparr>sr_joinable := js, sr_partial := []\<rparr>
        | [] \<Rightarrow>
            (case frame_poll (sr_partial st) (sr_input st) of
               (None, frame, r) \<Rightarrow> st\<lparr>sr_partial := frame, sr_input := r\<rparr>
             | (Some EndOfInput, _, r) \<Rightarrow> leave None (st\<lparr>sr_input := r\<rparr>)
             | (Some (FrameError e), _, r) \<Rightarrow> leave (Some e) (st\<lparr>sr_input := r\<rparr>)
             | (Some (FrameBytes b), _, r) \<Rightarrow>
                 (case route enc parse b (sr_service st) of
                    (go, sv) \<Rightarrow>
                      let st = st\<lparr>sr_input := r, sr_partial := [], sr_service := sv\<rparr>
                      in if go then st else leave None st)))"

section \<open>Shutdown\<close>

text \<open>\<^verbatim>\<open>abort_all\<close> and the joins: the tasks are dropped, with the loads in flight.\<close>

definition abort_tasks :: "'p service \<Rightarrow> 'p service" where
  "abort_tasks sv =
     (let sv = fold request_drop (sv_tasks sv) sv
      in sv\<lparr>sv_runtime := (sv_runtime sv)\<lparr>loading := []\<rparr>\<rparr>)"

definition close_output :: "encoder \<Rightarrow> 'p service \<Rightarrow> 'p service" where
  "close_output enc sv = with_world (host_exec enc (HOut OpClose) (sv_world sv)) sv"

text \<open>
  A poll inside \<^verbatim>\<open>Runtime::shutdown\<close>; when it is through, the builds are cancelled and the
  outbox is closed without another wait.
\<close>

definition objects_poll :: "encoder \<Rightarrow> string list \<Rightarrow> 'p server \<Rightarrow> 'p server" where
  "objects_poll enc ids st =
     (case shutdown_poll ids (sv_runtime (sr_service st)) of
        (ids', r) \<Rightarrow>
          let sv = (sr_service st)\<lparr>sv_runtime := r\<rparr> in
          if ids' = []
          then st\<lparr>sr_service := close_output enc sv, sr_builds := builds_shutdown (sr_builds st),
                  sr_phase := Flushing\<rparr>
          else st\<lparr>sr_service := sv, sr_phase := StopObjects ids'\<rparr>)"

text \<open>The result: the first error wins; a writer that does not end in time is given up.\<close>

definition flush_poll :: "bool \<Rightarrow> 'p server \<Rightarrow> 'p server" where
  "flush_poll timed_out st =
     (case w_state (sr_writer st) of
        WEnd None \<Rightarrow> st\<lparr>sr_phase := Over (sr_error st)\<rparr>
      | WEnd (Some e) \<Rightarrow>
          st\<lparr>sr_phase := Over (case sr_error st of None \<Rightarrow> Some e | Some x \<Rightarrow> Some x)\<rparr>
      | WPanic \<Rightarrow>
          st\<lparr>sr_phase := Over (case sr_error st of None \<Rightarrow> Some ''writer panicked'' | Some x \<Rightarrow> Some x)\<rparr>
      | _ \<Rightarrow> if timed_out then st\<lparr>sr_phase := Over (sr_error st)\<rparr> else st)"

definition main_poll ::
    "encoder \<Rightarrow> parser \<Rightarrow> bool \<Rightarrow> bool \<Rightarrow> bool \<Rightarrow> 'p server \<Rightarrow> 'p server" where
  "main_poll enc parse terminated interrupted timed_out st =
     (case sr_phase st of
        Serving \<Rightarrow> select_poll enc parse terminated interrupted st
      | Leaving \<Rightarrow>
          st\<lparr>sr_service := abort_tasks (sr_service st), sr_stage := (\<lambda>_. NotPolled),
             sr_joinable := [], sr_phase := Joined\<rparr>
      | Joined \<Rightarrow>
          (case shutdown_begin (sv_runtime (sr_service st)) of
             (ids, r) \<Rightarrow>
               objects_poll enc ids (st\<lparr>sr_service := (sr_service st)\<lparr>sv_runtime := r\<rparr>\<rparr>))
      | StopObjects ids \<Rightarrow> objects_poll enc ids st
      | Flushing \<Rightarrow> flush_poll timed_out st
      | Over _ \<Rightarrow> st)"

section \<open>A request task\<close>

text \<open>
  serde's decoding of a build request and base64, as for the other methods. Whether the
  loader's thread or the compiler has finished comes with the poll.
\<close>

record build_env =
  bd_decode :: "json \<Rightarrow> string + build_request"
  bd_base64 :: "bytes \<Rightarrow> string"

datatype wake = NotReady | LoaderReady | CompilerReady "string + compiler_output"

text \<open>The first segment of \<^verbatim>\<open>handle\<close>; \<open>None\<close> when it panics.\<close>

definition start_request ::
    "decoders \<Rightarrow> surroundings \<Rightarrow> build_env \<Rightarrow> encoder \<Rightarrow> request \<Rightarrow> 'p server \<Rightarrow> stage option \<times> 'p service" where
  "start_request d env be enc q st =
     (case service_handle d env enc (rq_method q) (rq_params q) (sr_service st) of
        (Answer res, sv) \<Rightarrow> (Some (Answering res), sv)
      | (WaitLoad n, sv) \<Rightarrow> (Some (Loading n), sv)
      | (WaitStop i unload, sv) \<Rightarrow> (Some (StoppingObject i unload), sv)
      | (WaitBuild params, sv) \<Rightarrow>
          (Some (case compile_begin (bd_decode be) params (sr_builds st) of
                   Inl e \<Rightarrow> Answering (Inl e) | Inr req \<Rightarrow> Building req), sv)
      | (MethodPanic, sv) \<Rightarrow> (None, sv))"

definition load_index :: "u64 \<Rightarrow> 'p runtime \<Rightarrow> nat" where
  "load_index n r = length (takeWhile (\<lambda>x. fst x \<noteq> n) (loading r))"

text \<open>A later segment.\<close>

definition advance_request ::
    "'p engine \<Rightarrow> build_env \<Rightarrow> encoder \<Rightarrow> wake \<Rightarrow> stage \<Rightarrow> 'p server \<Rightarrow> stage \<times> 'p service" where
  "advance_request e be enc wk sg st =
     (let sv = sr_service st; r = sv_runtime sv in
      case (sg, wk) of
        (Loading n, LoaderReady) \<Rightarrow>
          (if load_index n r < length (loading r)
           then case load_finish e (load_index n r) r of
               (res, r) \<Rightarrow> (Answering res, sv\<lparr>sv_runtime := r\<rparr>)
           else (sg, sv))
      | (StoppingObject i unload, _) \<Rightarrow>
          (case runtime_stop_poll enc i unload r of
             (Pending, r) \<Rightarrow> (sg, sv\<lparr>sv_runtime := r\<rparr>)
           | (Done res, r) \<Rightarrow> (Answering res, sv\<lparr>sv_runtime := r\<rparr>))
      | (Building req, CompilerReady res) \<Rightarrow>
          (Answering (Inr (compile_end (sha2_digest e) (bd_base64 be) res (sr_builds st))), sv)
      | _ \<Rightarrow> (sg, sv))"

text \<open>A task that has ended waits to be joined; its identifier may be used again.\<close>

definition task_over :: "request \<Rightarrow> string option \<Rightarrow> 'p service \<Rightarrow> 'p server \<Rightarrow> 'p server" where
  "task_over q x sv st = st\<lparr>sr_service := sv, sr_stage := (sr_stage st)(rq_id q := NotPolled),
     sr_joinable := sr_joinable st @ [x]\<rparr>"

definition answer_request :: "encoder \<Rightarrow> request \<Rightarrow> rpc_result \<Rightarrow> 'p service \<Rightarrow> 'p server \<Rightarrow> 'p server" where
  "answer_request enc q res sv st =
     (case request_finish enc q res sv of
        (True, sv) \<Rightarrow> task_over q None sv st
      | (False, sv) \<Rightarrow>
          st\<lparr>sr_service := sv, sr_stage := (sr_stage st)(rq_id q := Answering res)\<rparr>)"

definition request_poll ::
    "'p engine \<Rightarrow> decoders \<Rightarrow> surroundings \<Rightarrow> build_env \<Rightarrow> encoder \<Rightarrow> wake \<Rightarrow> request \<Rightarrow>
     'p server \<Rightarrow> 'p server" where
  "request_poll e d env be enc wk q st =
     (case (case sr_stage st (rq_id q) of
              NotPolled \<Rightarrow> start_request d env be enc q st
            | sg \<Rightarrow> (case advance_request e be enc wk sg st of (sg, sv) \<Rightarrow> (Some sg, sv))) of
        (None, sv) \<Rightarrow> task_over q (Some ''panic'') (request_drop q sv) st
      | (Some (Answering res), sv) \<Rightarrow> answer_request enc q res sv st
      | (Some sg, sv) \<Rightarrow> st\<lparr>sr_service := sv, sr_stage := (sr_stage st)(rq_id q := sg)\<rparr>)"

section \<open>The program as a machine\<close>

definition output_poll :: "bool \<Rightarrow> io \<Rightarrow> 'p server \<Rightarrow> 'p server" where
  "output_poll pick x st =
     (case sr_phase st of
        Over _ \<Rightarrow> st
      | _ \<Rightarrow>
          (case writer_step pick x (sr_writer st) (sr_out st) of
             (w, q) \<Rightarrow> st\<lparr>sr_writer := w,
                sr_service := with_world ((sv_world (sr_service st))\<lparr>wout := q\<rparr>) (sr_service st)\<rparr>))"

datatype serve_op =
    Input "string + bytes"
  | MainPoll bool bool bool
  | ReqPoll string wake
  | ObjPoll string run_result
  | GuestAct string guest_act
  | Output bool io

text \<open>What the program relies on: loader, decoders, encoder, parser, surroundings.\<close>

record 'p outside =
  o_engine :: "'p engine"
  o_decoders :: decoders
  o_env :: surroundings
  o_build :: build_env
  o_enc :: encoder
  o_parse :: parser

abbreviation on_runtime :: "('p runtime \<Rightarrow> 'p runtime) \<Rightarrow> 'p server \<Rightarrow> 'p server" where
  "on_runtime f st \<equiv>
     st\<lparr>sr_service := (sr_service st)\<lparr>sv_runtime := f (sv_runtime (sr_service st))\<rparr>\<rparr>"

fun serve_exec :: "'p outside \<Rightarrow> serve_op \<Rightarrow> 'p server \<Rightarrow> 'p server" where
  "serve_exec out (Input x) st = st\<lparr>sr_input := sr_input st @ [x]\<rparr>"
| "serve_exec out (MainPoll t i late) st = main_poll (o_enc out) (o_parse out) t i late st"
| "serve_exec out (ReqPoll i wk) st =
     (case (if sr_phase st = Serving then task_of i (sr_service st) else None) of
        None \<Rightarrow> st
      | Some q \<Rightarrow> request_poll (o_engine out) (o_decoders out) (o_env out) (o_build out) (o_enc out) wk q st)"
| "serve_exec out (ObjPoll i res) st = on_runtime (task_poll (o_enc out) i res) st"
| "serve_exec out (GuestAct i a) st = on_runtime (guest_acts (o_enc out) i a) st"
| "serve_exec out (Output pick x) st = output_poll pick x st"

section \<open>What reaches the outbox\<close>

text \<open>
  Everything but the writer changes the outbox by its own operations other than \<^verbatim>\<open>next\<close>:
  frames get into the queues with a notification only, all are encodings, the control queue
  grows at its end, a closed outbox stays closed, and the writer's count of control frames is
  left alone.
\<close>

definition out_rel :: "encoder \<Rightarrow> outbox \<Rightarrow> outbox \<Rightarrow> bool" where
  "out_rel enc q q' \<longleftrightarrow> ochanged q \<le> ochanged q' \<and> (oclosed q \<longrightarrow> oclosed q') \<and>
     (ochanged q' = ochanged q \<longrightarrow>
        (control q = [] \<longrightarrow> control q' = []) \<and> (ready q = [] \<longrightarrow> ready q' = [])) \<and>
     (frames_ok enc q \<longrightarrow> frames_ok enc q') \<and> (\<exists>bs. control q' = control q @ bs) \<and>
     control_burst q' = control_burst q"

lemma out_rel_refl [simp]: "out_rel enc q q"
  by (simp add: out_rel_def)

lemma out_rel_trans [trans]: "out_rel enc q r \<Longrightarrow> out_rel enc r t \<Longrightarrow> out_rel enc q t"
  by (auto simp: out_rel_def)

lemma out_rel_exec: "op \<noteq> OpNext \<Longrightarrow> out_rel enc q (outbox_exec enc op q)"
proof -
  assume op: "op \<noteq> OpNext"
  have "oclosed q \<longrightarrow> oclosed (outbox_exec enc op q)"
    using op by (cases op)
      (auto simp: outbox_control_def try_control_def try_push_control_def push_control_def
        try_data_def outbox_data_def push_data_def remove_request_def remove_object_def
        outbox_close_def Let_def split: sum.splits option.splits)
  moreover have "(\<exists>bs. control (outbox_exec enc op q) = control q @ bs) \<and>
      control_burst (outbox_exec enc op q) = control_burst q"
    using op by (cases op)
      (auto simp: outbox_control_def try_control_def try_push_control_def push_control_def
        try_data_def outbox_data_def push_data_def remove_request_def remove_object_def
        outbox_close_def Let_def split: sum.splits option.splits)
  ultimately show ?thesis using notified [OF op, of q enc] by (simp add: out_rel_def frames_ok_exec)
qed

lemmas out_rel_ops =
  out_rel_exec [of "OpControl v" for v, simplified] out_rel_exec [of "OpTryControl v" for v, simplified]
  out_rel_exec [of "OpTryData k v" for k v, simplified] out_rel_exec [of "OpData k v" for k v, simplified]
  out_rel_exec [of "OpRemoveRequest k i" for k i, simplified]
  out_rel_exec [of "OpRemoveObject k" for k, simplified] out_rel_exec [of OpClose, simplified]

lemma out_rel_drop: "out_rel enc q (snd (call_drop enc c h q))"
  using out_rel_trans [OF out_rel_ops(5) out_rel_ops(2)]
  by (simp add: call_drop_def Let_def out_rel_ops)

lemma out_rel_end:
  "out_rel enc q q1 \<Longrightarrow> call_end enc c x h q1 = (st, h', q') \<or> call_await enc expired c h q1 = (st, h', q') \<Longrightarrow>
   out_rel enc q q'"
  using out_rel_drop [of enc q1 c h]
  by (auto simp: call_end_def call_await_def split: if_splits dest: out_rel_trans)

lemma out_rel_call: "call_poll enc expired c h q = (st, h', q') \<Longrightarrow> out_rel enc q q'"
proof -
  assume p: "call_poll enc expired c h q = (st, h', q')"
  have d: "out_rel enc q (snd (outbox_data enc (cobject c) (crequest c) q))" by (rule out_rel_ops)
  from p show ?thesis
  proof (cases rule: poll_cases)
    case (before q1)
    with d out_rel_end [of enc q q1 c _ h st h' q' expired] show ?thesis by simp
  next
    case (refused x q1)
    with d out_rel_end [of enc q q1 c _ h st h' q' expired] show ?thesis by auto
  next
    case (after q1)
    with d have "out_rel enc q q1" by auto
    with after(2) out_rel_end [of enc q q1 "c\<lparr>csent := True\<rparr>" _ h st h' q' expired] show ?thesis
      by auto
  qed
qed

lemma out_rel_cancel: "out_rel enc q (snd (cancel_object enc k h q))"
proof -
  have "out_rel enc q (snd (fold (cancel_one enc) ids (h, q)))" for ids h q
  proof (induction ids arbitrary: h q)
    case (Cons j ids)
    obtain h' q' where one: "cancel_one enc j (h, q) = (h', q')" by fastforce
    then have "out_rel enc q q'"
      using out_rel_ops(2) by (auto simp: cancel_one_def split: option.splits)
    from out_rel_trans [OF this Cons.IH] one show ?case by simp
  qed simp
  then show ?thesis by (simp add: cancel_object_def)
qed

lemma out_rel_host: "op \<noteq> HOut OpNext \<Longrightarrow> out_rel enc (wout w) (wout (host_exec enc op w))"
proof (cases op)
  case (HPoll i expired)
  then show ?thesis
    using out_rel_call [of enc expired]
    by (auto split: option.splits prod.splits call_state.splits)
next
  case (HDrop i)
  then show ?thesis
    using out_rel_drop [of enc "wout w" _ "whost w"] by (auto split: option.splits prod.splits) (metis snd_conv)
next
  case (HCancel k)
  then show ?thesis
    using out_rel_cancel [of enc "wout w" k "whost w"] by (auto split: prod.splits)
qed (auto simp: out_rel_exec split: sum.splits prod.splits)

abbreviation rt_out :: "'p runtime \<Rightarrow> outbox" where
  "rt_out r \<equiv> wout (rworld r)"

lemma out_rel_end_world: "out_rel enc (wout w) (wout (end_world enc i v w))"
proof -
  have drops: "out_rel enc (wout w) (wout (fold (\<lambda>j. host_exec enc (HDrop j)) js w))" for js
  proof (induction js arbitrary: w)
    case (Cons j js)
    have "out_rel enc (wout w) (wout (host_exec enc (HDrop j) w))" by (rule out_rel_host) simp
    with Cons [of "host_exec enc (HDrop j) w"] show ?case
      by (simp del: host_exec.simps) (blast intro: out_rel_trans)
  qed simp
  note step = out_rel_trans [OF _ out_rel_host]
  show ?thesis
    unfolding end_world_def by (intro step) (simp_all add: drops drop_run_def)
qed

lemma out_rel_task: "out_rel enc (rt_out r) (rt_out (task_poll enc i res r))"
proof -
  have "out_rel enc (rt_out r) (rt_out (task_end enc i x ob r))" for x ob
    using task_end_eq [of enc i x ob r] out_rel_end_world [of enc "rworld r" i] by auto
  then show ?thesis
    by (simp add: task_poll_def Let_def split: option.split run_result.split)
qed

lemma out_rel_act: "out_rel enc (rt_out r) (rt_out (guest_acts enc i a r))"
proof -
  have "out_rel enc (wout w) (wout (act_world enc i a w))" for w
    by (cases a) (auto simp: act_world_def split: option.split intro!: out_rel_host
        simp del: host_exec.simps)
  then show ?thesis by (simp add: guest_acts_def split: option.split)
qed

lemma out_rel_stop: "out_rel enc (rt_out r) (rt_out (snd (runtime_stop_poll enc i unload r)))"
proof -
  obtain d r1 where s: "object_stop_poll i r = (d, r1)" by fastforce
  then have "rworld r1 = rworld r"
    by (auto simp: object_stop_poll_def Let_def split: option.splits if_splits)
  moreover have "out_rel enc (wout w) (wout (host_exec enc (HOut (OpRemoveObject i)) (host_exec enc (HCancel i) w)))" for w
    by (rule out_rel_trans [OF out_rel_host out_rel_host]) simp_all
  ultimately show ?thesis
    using s by (cases d) (simp_all add: runtime_stop_poll_def Let_def del: host_exec.simps)
qed

lemma same_world:
  "load_begin enc elf config caps r = (x, r') \<Longrightarrow> rworld r' = rworld r"
  "load_finish e k r = (y, r') \<Longrightarrow> rworld r' = rworld r"
  "runtime_deliver enc i event r = (y, r') \<Longrightarrow> rworld r' = rworld r"
  "runtime_start i r = (z, r') \<Longrightarrow> rworld r' = rworld r"
  "object_stop_poll i r = (d, r') \<Longrightarrow> rworld r' = rworld r"
  by (auto simp: load_begin_def load_finish_def load_remove_def runtime_deliver_def runtime_start_def
      object_stop_poll_def Let_def split: option.splits prod.splits sum.splits if_splits)

lemma out_rel_methods:
  "out_rel enc (rt_out r) (rt_out (snd (dispatch d env enc meth params r)))"
proof -
  have "out_rel enc (rt_out r) (rt_out (snd (method_load d enc params r)))"
    by (auto simp: method_load_def same_world(1) split: sum.split prod.split)
  moreover have "out_rel enc (rt_out r) (rt_out (snd (method_start d params r)))"
    by (auto simp: method_start_def same_world(4) split: sum.split prod.split option.split)
  moreover have "out_rel enc (rt_out r) (rt_out (snd (method_stop d enc unload params r)))" for unload
    using out_rel_stop [of enc r]
    by (auto simp: method_stop_def runtime_stop_def split: sum.splits prod.splits poll.splits)
      (metis snd_conv)+
  moreover have "out_rel enc (rt_out r) (rt_out (snd (method_get d params r)))"
    by (auto simp: method_get_def split: sum.splits)
  moreover have "out_rel enc (rt_out r) (rt_out (snd (method_list d params r)))"
    by (auto simp: method_list_def split: sum.splits)
  moreover have "out_rel enc (rt_out r) (rt_out (snd (method_deliver d enc params r)))"
    by (auto simp: method_deliver_def same_world(3) split: sum.split prod.split)
  ultimately show ?thesis by (simp add: dispatch_def split: sum.split)
qed

section \<open>Objects that are not registered\<close>

text \<open>An object leaves the table only after it has ended.\<close>

definition settled :: "'p runtime \<Rightarrow> bool" where
  "settled r \<longleftrightarrow>
     (\<forall>i ob. heap r i = Some ob \<longrightarrow> i \<notin> set (registered r) \<longrightarrow> terminal (ob_state ob))"

definition same_dom :: "'p runtime \<Rightarrow> 'p runtime \<Rightarrow> bool" where
  "same_dom r r' \<longleftrightarrow> dom (heap r') = dom (heap r) \<and> registered r' = registered r"

lemma same_dom_refl [simp]: "same_dom r r"
  by (simp add: same_dom_def)

lemma settled_step:
  assumes settled: "settled r" and prog: "progresses r r'"
    and dom: "dom (heap r') \<subseteq> dom (heap r) \<union> set (registered r')"
    and reg: "\<And>i ob. i \<in> set (registered r) \<Longrightarrow> i \<notin> set (registered r') \<Longrightarrow>
      heap r' i = Some ob \<Longrightarrow> terminal (ob_state ob)"
  shows "settled r'"
  unfolding settled_def
proof (intro allI impI)
  fix i ob'
  assume ob': "heap r' i = Some ob'" and i: "i \<notin> set (registered r')"
  with dom obtain ob where ob: "heap r i = Some ob" by blast
  with prog ob' have p: "progress ob ob'" unfolding progresses_def by fastforce
  show "terminal (ob_state ob')"
  proof (cases "i \<in> set (registered r)")
    case True
    then show ?thesis by (rule reg [OF _ i ob'])
  next
    case False
    with settled ob have "terminal (ob_state ob)" by (simp add: settled_def)
    with p moves_terminal show ?thesis by (metis progress_def)
  qed
qed

lemma settled_same: "settled r \<Longrightarrow> progresses r r' \<Longrightarrow> same_dom r r' \<Longrightarrow> settled r'"
  by (rule settled_step) (auto simp: same_dom_def)

lemma same_dom_put: "heap r i \<noteq> None \<Longrightarrow> same_dom r (put i ob r)"
  by (auto simp: same_dom_def)

lemma same_dom_ops:
  "load_begin enc elf config caps r = (x, r') \<Longrightarrow> same_dom r r'"
  "runtime_deliver enc i event r = (y, r') \<Longrightarrow> same_dom r r'"
  "runtime_start i r = (z, r') \<Longrightarrow> same_dom r r'"
  "object_stop_poll i r = (d, r') \<Longrightarrow> same_dom r r'"
proof -
  show "load_begin enc elf config caps r = (x, r') \<Longrightarrow> same_dom r r'"
    by (auto simp: load_begin_def same_dom_def split: option.splits if_splits)
  show "runtime_deliver enc i event r = (y, r') \<Longrightarrow> same_dom r r'"
    using runtime_getD [of i r]
    by (auto simp: runtime_deliver_def split: sum.splits prod.splits intro!: same_dom_put)
  show "runtime_start i r = (z, r') \<Longrightarrow> same_dom r r'"
    using runtime_getD [of i r]
    by (auto simp: runtime_start_def Let_def split: sum.splits option.splits if_splits intro!: same_dom_put)
  show "object_stop_poll i r = (d, r') \<Longrightarrow> same_dom r r'"
    by (auto simp: object_stop_poll_def Let_def split: option.splits if_splits intro!: same_dom_put)
qed

lemma same_dom_task: "same_dom r (task_poll enc i res r)"
proof -
  have "same_dom r (task_end enc i x ob r)" if "heap r i \<noteq> None" for x ob
    using task_end_eq [of enc i x ob r] that by (auto simp: same_dom_def split: if_splits)
  then show ?thesis
    by (auto simp: task_poll_def Let_def same_dom_put split: option.split run_result.split)
qed

lemma same_dom_act: "same_dom r (guest_acts enc i a r)"
  by (auto simp: guest_acts_def same_dom_def split: option.split)

lemma settled_load_finish:
  assumes inv: "rt_inv enc r" and k: "k < length (loading r)" and s: "settled r"
  shows "settled (snd (load_finish e k r))"
proof (rule settled_step [OF s load_progresses [OF inv k]])
  show "dom (heap (snd (load_finish e k r))) \<subseteq>
      dom (heap r) \<union> set (registered (snd (load_finish e k r)))"
    by (auto simp: load_finish_def load_remove_def Let_def set_insort_key split: prod.splits sum.splits if_splits)
  have "set (registered r) \<subseteq> set (registered (snd (load_finish e k r)))"
    by (auto simp: load_finish_def load_remove_def Let_def set_insort_key split: prod.splits sum.splits if_splits)
  then show "terminal (ob_state ob)"
    if "i \<in> set (registered r)" "i \<notin> set (registered (snd (load_finish e k r)))" for i ob
    using that by blast
qed

lemma settled_stop_poll:
  assumes s: "settled r"
  shows "settled (snd (runtime_stop_poll enc i unload r))"
proof -
  obtain d r1 where st: "object_stop_poll i r = (d, r1)" by fastforce
  have dom1: "same_dom r r1" by (rule same_dom_ops(4) [OF st])
  obtain x r2 where r2: "runtime_stop_poll enc i unload r = (x, r2)" by fastforce
  have "heap (snd (runtime_stop_poll enc i unload r)) = heap r1 \<and>
      registered (snd (runtime_stop_poll enc i unload r)) =
        (if d \<and> unload then removeAll i (registered r1) else registered r1)"
    unfolding runtime_stop_poll_def st Let_def by (cases d; cases unload; simp del: host_exec.simps)
  with r2 dom1 have heap: "heap r2 = heap r1"
    and reg: "registered r2 = (if d \<and> unload then removeAll i (registered r) else registered r)"
    by (simp_all add: same_dom_def)
  have "settled r2"
  proof (rule settled_step [OF s])
    show "progresses r r2"
      using stops_progresses [OF stops_runtime, of r enc i unload] r2 by simp
    show "dom (heap r2) \<subseteq> dom (heap r) \<union> set (registered r2)"
      using dom1 heap by (auto simp: same_dom_def)
    show "terminal (ob_state ob)"
      if "j \<in> set (registered r)" "j \<notin> set (registered r2)" "heap r2 j = Some ob" for j ob
    proof -
      from that(1,2) reg have j: "j = i" "d" by (auto split: if_splits)
      have "heap r1 i = Some ob" using that(3) heap j(1) by simp
      with dom1 have "i \<in> dom (heap r)" unfolding same_dom_def by (metis domI)
      then obtain ob0 where "heap r i = Some ob0" by blast
      moreover have "object_stop_poll i r = (True, r1)" using st j(2) by simp
      ultimately have "released i r2"
        using stop_poll_done [of i r r1 ob0 enc unload] r2 by fastforce
      with that(3) j(1) show ?thesis unfolding released_def by simp
    qed
  qed
  with r2 show ?thesis by simp
qed

lemma settled_methods:
  assumes inv: "rt_inv enc r" and s: "settled r"
  shows "settled (snd (dispatch d env enc meth params r))"
proof -
  have begun: "settled r'" if l: "load_begin enc elf config caps r = (x, r')" for elf config caps x r'
    using l by (intro settled_same [OF s _ same_dom_ops(1) [OF l]] progresses_same)
      (auto simp: load_begin_def split: option.splits if_splits)
  have start: "settled r'" if l: "runtime_start i r = (z, r')" for i z r'
    using settled_same [OF s _ same_dom_ops(3) [OF l]] start_progresses [of r i] l by simp
  have deliver: "settled r'" if l: "runtime_deliver enc i event r = (y, r')" for i event y r'
    using settled_same [OF s _ same_dom_ops(2) [OF l]] deliver_progresses [of r enc i event] l by simp
  have stop: "settled r'" if l: "runtime_stop enc i unload r = (y, r')" for i unload y r'
    using settled_stop_poll [OF s, of enc i unload] l s by (auto simp: runtime_stop_def split: sum.splits)
  have "settled (snd (method_load d enc params r))"
    using s by (auto simp: method_load_def begun split: sum.split prod.split)
  moreover have "settled (snd (method_start d params r))"
    using s by (auto simp: method_start_def start split: sum.split prod.split option.split)
  moreover have "settled (snd (method_stop d enc unload params r))" for unload
    using s by (auto simp: method_stop_def stop split: sum.split prod.split poll.split)
  moreover have "settled (snd (method_get d params r))" "settled (snd (method_list d params r))"
    using s by (auto simp: method_get_def method_list_def split: sum.split)
  moreover have "settled (snd (method_deliver d enc params r))"
    using s by (auto simp: method_deliver_def deliver split: sum.split prod.split)
  ultimately show ?thesis using s by (simp add: dispatch_def split: sum.split)
qed

section \<open>The invariant\<close>

definition serv_ok :: "encoder \<Rightarrow> writer \<Rightarrow> 'p service \<Rightarrow> bool" where
  "serv_ok enc w sv \<longleftrightarrow>
     sv_inv enc sv \<and> wr_inv enc (w, wout (sv_world sv)) \<and> settled (sv_runtime sv)"

fun phase_ok :: "serve_phase \<Rightarrow> 'p service \<Rightarrow> bool" where
  "phase_ok Serving sv = True"
| "phase_ok Leaving sv = True"
| "phase_ok Joined sv = (sv_tasks sv = [] \<and> loading (sv_runtime sv) = [])"
| "phase_ok (StopObjects ids) sv =
     (sv_tasks sv = [] \<and> loading (sv_runtime sv) = [] \<and>
      (\<forall>i ob. heap (sv_runtime sv) i = Some ob \<longrightarrow> terminal (ob_state ob) \<or> i \<in> set ids \<and> ob_cancel ob))"
| "phase_ok Flushing sv =
     (sv_tasks sv = [] \<and> loading (sv_runtime sv) = [] \<and> registered (sv_runtime sv) = [] \<and>
      oclosed (wout (sv_world sv)))"
| "phase_ok (Over x) sv =
     (sv_tasks sv = [] \<and> loading (sv_runtime sv) = [] \<and> registered (sv_runtime sv) = [] \<and>
      oclosed (wout (sv_world sv)))"

definition sr_inv :: "encoder \<Rightarrow> 'p server \<Rightarrow> bool" where
  "sr_inv enc st \<longleftrightarrow>
     serv_ok enc (sr_writer st) (sr_service st) \<and> (\<forall>x \<in> set (sr_joinable st). x = None) \<and>
     phase_ok (sr_phase st) (sr_service st)"

lemma serv_ok_step:
  assumes "serv_ok enc w sv" "sv_inv enc sv'" "out_rel enc (wout (sv_world sv)) (wout (sv_world sv'))"
    and "settled (sv_runtime sv')"
  shows "serv_ok enc w sv'"
proof -
  have "outbox_inv (wout (sv_world sv'))"
    using assms(2) by (simp add: sv_inv_def rt_inv_def host_inv_def)
  with assms show ?thesis by (auto simp: serv_ok_def wr_inv_def wr_core_def out_rel_def)
qed

lemma serv_ok_runtime:
  assumes "serv_ok enc w sv" "rt_inv enc r" "out_rel enc (rt_out (sv_runtime sv)) (rt_out r)" "settled r"
  shows "serv_ok enc w (sv\<lparr>sv_runtime := r\<rparr>)"
  by (rule serv_ok_step [OF assms(1)]) (use assms in \<open>simp_all add: serv_ok_def sv_inv_def tasks_ok_def\<close>)

lemma serv_ok_rt: "serv_ok enc w sv \<Longrightarrow> rt_inv enc (sv_runtime sv)"
  by (simp add: serv_ok_def sv_inv_def)

abbreviation sv_out :: "'p service \<Rightarrow> outbox" where
  "sv_out sv \<equiv> wout (sv_world sv)"

lemma out_rel_refuse: "out_rel enc (sv_out sv) (sv_out (snd (refuse enc i e sv)))"
  using out_rel_ops(2) [of enc "sv_out sv" "response i (Inl e)"]
  by (cases "try_control enc (response i (Inl e)) (sv_out sv)") (simp add: refuse_def)

lemma out_rel_route: "out_rel enc (sv_out sv) (sv_out (snd (route enc parse b sv)))"
proof (cases rule: route_cases [of enc parse b sv])
  case (refused i e)
  with out_rel_refuse show ?thesis by simp
next
  case (answered v)
  have "out_rel enc (sv_out sv) (wout (host_exec enc (HResponse v) (sv_world sv)))"
    by (rule out_rel_host) simp
  with answered show ?thesis by (simp del: host_exec.simps)
qed (simp_all add: accepted_def)

lemma out_rel_handle: "out_rel enc (sv_out sv) (sv_out (snd (service_handle d env enc meth params sv)))"
  using out_rel_methods [of enc "sv_runtime sv" d env "meth" params]
  by (auto simp: service_handle_def split: sum.split prod.split)

lemma out_rel_finish: "out_rel enc (sv_out sv) (sv_out (snd (request_finish enc q res sv)))"
proof -
  obtain x out where o: "outbox_control enc (response (String (rq_id q)) res) (sv_out sv) = (x, out)"
    by fastforce
  with out_rel_ops(1) [of enc "sv_out sv" "response (String (rq_id q)) res"] show ?thesis
    by (cases x) (simp_all add: request_finish_def Let_def request_drop_def)
qed

lemma serv_ok_refuse: "serv_ok enc w sv \<Longrightarrow> serv_ok enc w (snd (refuse enc i e sv))"
proof (rule serv_ok_step [OF _ _ out_rel_refuse])
  assume ok: "serv_ok enc w sv"
  then show "sv_inv enc (snd (refuse enc i e sv))" by (simp add: refuse_inv serv_ok_def)
  obtain b q where t: "try_control enc (response i (Inl e)) (sv_out sv) = (b, q)" by fastforce
  show "settled (sv_runtime (snd (refuse enc i e sv)))"
    using ok t by (simp add: refuse_def serv_ok_def settled_def)
qed simp

lemma serv_ok_route:
  assumes ok: "serv_ok enc w sv"
  shows "serv_ok enc w (snd (route enc parse b sv))"
proof (cases rule: route_cases [of enc parse b sv])
  case (refused i e)
  with serv_ok_refuse [OF ok] show ?thesis by simp
next
  case (answered v)
  have "sv_inv enc (snd (route enc parse b sv))" using ok by (simp add: route_inv serv_ok_def)
  moreover have "settled (sv_runtime (snd (route enc parse b sv)))"
    using ok answered by (simp add: serv_ok_def settled_def)
  ultimately show ?thesis by (rule serv_ok_step [OF ok _ out_rel_route])
next
  case ignored
  with ok show ?thesis by simp
next
  case (accepted q)
  have "sv_inv enc (snd (route enc parse b sv))" using ok by (simp add: route_inv serv_ok_def)
  with ok accepted show ?thesis
    by (intro serv_ok_step [OF ok]) (simp_all add: serv_ok_def accepted_def)
qed

lemma serv_ok_handle:
  assumes ok: "serv_ok enc w sv"
  shows "serv_ok enc w (snd (service_handle d env enc meth params sv))"
proof -
  obtain x r where dis: "dispatch d env enc meth params (sv_runtime sv) = (x, r)" by fastforce
  have "rt_inv enc r" "out_rel enc (rt_out (sv_runtime sv)) (rt_out r)" "settled r"
    using dispatch_inv [OF serv_ok_rt [OF ok], of d env "meth" params]
      out_rel_methods [of enc "sv_runtime sv" d env "meth" params]
      settled_methods [OF serv_ok_rt [OF ok], of d env "meth" params] ok dis
    by (simp_all add: serv_ok_def)
  from serv_ok_runtime [OF ok this]
  have run: "serv_ok enc w (sv\<lparr>sv_runtime := r\<rparr>)" .
  have "serv_ok enc w (sv\<lparr>sv_initialized := True\<rparr>)"
    using ok by (simp add: serv_ok_def sv_inv_def tasks_ok_def)
  with ok run dis show ?thesis by (simp add: service_handle_def split: sum.split)
qed

lemma request_drop_same [simp]:
  "sv_runtime (request_drop q sv) = sv_runtime sv" "sv_shutdown (request_drop q sv) = sv_shutdown sv"
  by (simp_all add: request_drop_def)

lemma serv_ok_drop:
  assumes ok: "serv_ok enc w sv" and q: "q \<in> set (sv_tasks sv)"
  shows "serv_ok enc w (request_drop q sv)"
  using ok request_drop_ok [of sv q] q by (simp add: serv_ok_def sv_inv_def)

lemma serv_ok_finish:
  assumes ok: "serv_ok enc w sv" and q: "q \<in> set (sv_tasks sv)"
  shows "serv_ok enc w (snd (request_finish enc q res sv))"
proof (rule serv_ok_step [OF ok _ out_rel_finish])
  show "sv_inv enc (snd (request_finish enc q res sv))"
    using ok by (intro finish_inv q) (simp add: serv_ok_def)
  obtain x out where o: "outbox_control enc (response (String (rq_id q)) res) (sv_out sv) = (x, out)"
    by fastforce
  show "settled (sv_runtime (snd (request_finish enc q res sv)))"
    using ok o by (cases x) (simp_all add: request_finish_def Let_def serv_ok_def settled_def)
qed

section \<open>Steps of the shutdown\<close>

lemma abort_tasks_all:
  assumes "serv_ok enc w sv"
  shows "serv_ok enc w (abort_tasks sv) \<and> sv_tasks (abort_tasks sv) = [] \<and>
    loading (sv_runtime (abort_tasks sv)) = [] \<and> sv_shutdown (abort_tasks sv) = sv_shutdown sv \<and>
    rworld (sv_runtime (abort_tasks sv)) = rworld (sv_runtime sv) \<and>
    heap (sv_runtime (abort_tasks sv)) = heap (sv_runtime sv) \<and>
    registered (sv_runtime (abort_tasks sv)) = registered (sv_runtime sv)"
proof -
  have drops: "serv_ok enc w (fold request_drop qs sv') \<and>
      set (sv_tasks (fold request_drop qs sv')) = set (sv_tasks sv') - set qs \<and>
      sv_runtime (fold request_drop qs sv') = sv_runtime sv' \<and>
      sv_shutdown (fold request_drop qs sv') = sv_shutdown sv'"
    if "serv_ok enc w sv'" "distinct qs" "set qs \<subseteq> set (sv_tasks sv')" for qs and sv' :: "'a service"
    using that
  proof (induction qs arbitrary: sv')
    case (Cons q qs)
    have "serv_ok enc w (request_drop q sv')" using Cons.prems by (intro serv_ok_drop) auto
    moreover have tasks: "set (sv_tasks (request_drop q sv')) = set (sv_tasks sv') - {q}"
      by (simp add: request_drop_def)
    ultimately show ?case using Cons.IH [of "request_drop q sv'"] Cons.prems by auto
  qed simp
  have "distinct (sv_tasks sv)"
    using assms by (auto simp: serv_ok_def sv_inv_def tasks_ok_def distinct_map)
  from drops [OF assms this] have all: "serv_ok enc w (fold request_drop (sv_tasks sv) sv)"
    "sv_tasks (fold request_drop (sv_tasks sv) sv) = []"
    "sv_runtime (fold request_drop (sv_tasks sv) sv) = sv_runtime sv"
    "sv_shutdown (fold request_drop (sv_tasks sv) sv) = sv_shutdown sv"
    by auto
  have "rt_inv enc ((sv_runtime sv)\<lparr>loading := []\<rparr>)"
    using serv_ok_rt [OF assms] by (simp add: rt_inv_def ids_ok_def active_def)
  then have "serv_ok enc w ((fold request_drop (sv_tasks sv) sv)\<lparr>sv_runtime :=
      (sv_runtime sv)\<lparr>loading := []\<rparr>\<rparr>)"
    using all(1,3) by (intro serv_ok_runtime) (simp_all add: serv_ok_def settled_def)
  with all show ?thesis by (simp add: abort_tasks_def Let_def)
qed

text \<open>An object that has ended, or that is waiting to be stopped and already cancelled.\<close>

definition stopping :: "string list \<Rightarrow> 'p runtime \<Rightarrow> bool" where
  "stopping ids r \<longleftrightarrow>
     (\<forall>i ob. heap r i = Some ob \<longrightarrow> terminal (ob_state ob) \<or> i \<in> set ids \<and> ob_cancel ob)"

lemma stopping_begin:
  "settled r \<Longrightarrow> shutdown_begin r = (ids, r') \<Longrightarrow> stopping ids r'"
  unfolding shutdown_begin_def settled_def stopping_def by (auto split: if_splits)

lemma stopping_poll:
  assumes "stopping ids r" "shutdown_poll ids r = (ids', r')"
  shows "stopping ids' r' \<and> registered r' = (if ids' = [] then [] else registered r) \<and>
    dom (heap r') = dom (heap r) \<and> rworld r' = rworld r \<and> loading r' = loading r"
  using assms
proof (induction ids r rule: shutdown_poll.induct)
  case (1 r)
  then show ?case by (auto simp: stopping_def)
next
  case (2 i ids r)
  obtain d r1 where s: "object_stop_poll i r = (d, r1)" by fastforce
  have same: "dom (heap r1) = dom (heap r)" "registered r1 = registered r" "rworld r1 = rworld r"
    using same_dom_ops(4) [OF s] same_world(5) [OF s] by (simp_all add: same_dom_def)
  have load: "loading r1 = loading r"
    using s by (auto simp: object_stop_poll_def Let_def split: option.splits if_splits)
  have other: "heap r1 j = heap r j" if "j \<noteq> i" for j
    using s that by (auto simp: object_stop_poll_def Let_def split: option.splits if_splits)
  have this': "terminal (ob_state ob) \<or> \<not> d \<and> ob_cancel ob" if "heap r1 i = Some ob" for ob
    using s that "2.prems"(1)
    by (auto simp: object_stop_poll_def Let_def stopping_def terminal_def split: option.splits if_splits state.splits)
      (metis state.exhaust)+
  have st: "stopping (if d then ids else i # ids) r1"
    unfolding stopping_def
  proof (intro allI impI)
    fix j ob
    assume j: "heap r1 j = Some ob"
    show "terminal (ob_state ob) \<or> j \<in> set (if d then ids else i # ids) \<and> ob_cancel ob"
    proof (cases "j = i")
      case True
      with this' j show ?thesis by auto
    next
      case False
      with other j "2.prems"(1) show ?thesis by (auto simp: stopping_def)
    qed
  qed
  show ?case
  proof (cases d)
    case True
    with s st "2.IH" [OF s [symmetric]] "2.prems"(2) same load show ?thesis by simp
  next
    case False
    with s st "2.prems"(2) same load show ?thesis by auto
  qed
qed

lemma settled_shutdown:
  assumes "settled r" "stopping ids r" "shutdown_poll ids r = (ids', r')"
  shows "settled r'"
proof (cases "ids' = []")
  case True
  with stopping_poll [OF assms(2,3)] show ?thesis by (simp add: stopping_def settled_def)
next
  case False
  with stopping_poll [OF assms(2,3)] have "same_dom r r'" by (simp add: same_dom_def)
  moreover have "progresses r r'"
    using stops_progresses [OF stops_shutdown, of r ids] assms(3) by simp
  ultimately show ?thesis using settled_same [OF assms(1)] by blast
qed

text \<open>What an object's task and its program leave alone.\<close>

lemma stopping_keep:
  assumes st: "stopping ids r" and dom: "same_dom r r'" and prog: "progresses r r'"
    and cancel: "\<And>i ob ob'. heap r i = Some ob \<Longrightarrow> heap r' i = Some ob' \<Longrightarrow> ob_cancel ob' = ob_cancel ob"
  shows "stopping ids r'"
  unfolding stopping_def
proof (intro allI impI)
  fix i ob'
  assume ob': "heap r' i = Some ob'"
  with dom obtain ob where ob: "heap r i = Some ob" unfolding same_dom_def by blast
  with prog ob' have p: "progress ob ob'" unfolding progresses_def by fastforce
  with moves_terminal have "terminal (ob_state ob) \<Longrightarrow> terminal (ob_state ob')"
    unfolding progress_def by metis
  with st ob cancel [OF ob ob'] show "terminal (ob_state ob') \<or> i \<in> set ids \<and> ob_cancel ob'"
    unfolding stopping_def by blast
qed

lemma cancel_task:
  "heap r j = Some ob \<Longrightarrow> heap (task_poll enc i res r) j = Some ob' \<Longrightarrow> ob_cancel ob' = ob_cancel ob"
proof -
  assume a: "heap r j = Some ob" "heap (task_poll enc i res r) j = Some ob'"
  have e: "ob_cancel ob' = ob_cancel ob"
    if "heap (task_end enc i x (task_started ob0) r) j = Some ob'" "heap r i = Some ob0" for x ob0
    using that a(1) task_end_eq [of enc i x "task_started ob0" r]
    by (auto simp: task_started_def ended_object_def split: if_splits option.splits run_result.splits)
  from a show ?thesis
    by (auto simp: task_poll_def Let_def split: option.splits if_splits run_result.splits dest!: e)
      (simp_all add: task_started_def)
qed

lemma cancel_act:
  "heap r j = Some ob \<Longrightarrow> heap (guest_acts enc i a r) j = Some ob' \<Longrightarrow> ob_cancel ob' = ob_cancel ob"
  by (auto simp: guest_acts_def act_object_def split: option.splits if_splits guest_act.splits)

lemma task_world_only:
  "loading (task_poll enc i res r) = loading r" "registered (task_poll enc i res r) = registered r"
  "loading (guest_acts enc i a r) = loading r" "registered (guest_acts enc i a r) = registered r"
  using same_dom_task [of r enc i res] same_dom_act [of r enc i a]
    task_end_eq [of enc i _ _ r]
  by (simp_all add: same_dom_def)
    (auto simp: task_poll_def guest_acts_def Let_def task_end_def split: option.split run_result.split)

section \<open>Every step keeps the invariant\<close>

lemma start_no_panic:
  assumes "rt_inv enc r"
  shows "fst (runtime_start i r) \<noteq> None"
proof (cases "runtime_get i r")
  case (Inr ob)
  from rt_inv_objectD [OF assms runtime_getD [OF Inr, THEN conjunct1]] Inr show ?thesis
    by (auto simp: runtime_start_def Let_def object_ok_def coherent_def split: option.split)
qed (simp add: runtime_start_def)

lemma handle_no_panic:
  assumes "rt_inv enc (sv_runtime sv)"
  shows "fst (service_handle d env enc meth params sv) \<noteq> MethodPanic"
proof -
  have started: "runtime_start i (sv_runtime sv) \<noteq> (None, r')" for i r'
    using start_no_panic [OF assms, of i] by (metis fst_conv)
  let ?r = "sv_runtime sv"
  have "fst (method_start d params ?r) \<noteq> MethodPanic"
    using started by (auto simp: method_start_def split: sum.split prod.split option.split)
  moreover have "fst (method_load d enc params ?r) \<noteq> MethodPanic"
    by (auto simp: method_load_def split: sum.split prod.split)
  moreover have "fst (method_stop d enc u params ?r) \<noteq> MethodPanic" for u
    by (auto simp: method_stop_def split: sum.split prod.split poll.split)
  moreover have "fst (method_get d params ?r) \<noteq> MethodPanic" "fst (method_list d params ?r) \<noteq> MethodPanic"
    by (auto simp: method_get_def method_list_def split: sum.split prod.split)
  moreover have "fst (method_deliver d enc params ?r) \<noteq> MethodPanic"
    by (auto simp: method_deliver_def split: sum.split prod.split)
  ultimately have "fst (dispatch d env enc meth params ?r) \<noteq> MethodPanic"
    by (simp add: dispatch_def split: sum.split)
  then show ?thesis
    by (cases "dispatch d env enc meth params ?r")
      (simp add: service_handle_def split: sum.split)
qed

lemma start_request_ok:
  assumes ok: "serv_ok enc w (sr_service st)" and s: "start_request d env be enc q st = (x, sv)"
  shows "serv_ok enc w sv \<and> x \<noteq> None"
proof -
  obtain y sv1 where h: "service_handle d env enc (rq_method q) (rq_params q) (sr_service st) = (y, sv1)"
    by fastforce
  have "serv_ok enc w sv1" "y \<noteq> MethodPanic"
    using serv_ok_handle [OF ok, of d env "rq_method q" "rq_params q"]
      handle_no_panic [OF serv_ok_rt [OF ok], of d env "rq_method q" "rq_params q"] h by simp_all
  with s h show ?thesis by (cases y) (auto simp: start_request_def)
qed

lemma advance_request_ok:
  assumes ok: "serv_ok enc w (sr_service st)" and s: "advance_request e be enc wk sg st = (sg', sv)"
  shows "serv_ok enc w sv"
proof -
  let ?r = "sv_runtime (sr_service st)"
  note rt = serv_ok_rt [OF ok]
  have settled: "settled ?r" using ok by (simp add: serv_ok_def)
  have load: "serv_ok enc w ((sr_service st)\<lparr>sv_runtime := snd (load_finish e k ?r)\<rparr>)"
    if "k < length (loading ?r)" for k
  proof (rule serv_ok_runtime [OF ok])
    show "rt_inv enc (snd (load_finish e k ?r))" by (rule load_finish_inv [OF rt that])
    show "settled (snd (load_finish e k ?r))" by (rule settled_load_finish [OF rt that settled])
    show "out_rel enc (rt_out ?r) (rt_out (snd (load_finish e k ?r)))"
      using same_world(2) [of e k ?r] by (cases "load_finish e k ?r") simp
  qed
  have stop: "serv_ok enc w ((sr_service st)\<lparr>sv_runtime := snd (runtime_stop_poll enc i u ?r)\<rparr>)" for i u
    by (intro serv_ok_runtime [OF ok] stop_poll_inv rt out_rel_stop settled_stop_poll settled)
  show ?thesis
  proof (cases sg)
    case (Loading n)
    with s ok load [of "load_index n ?r"] show ?thesis
      by (auto simp: advance_request_def Let_def split: wake.splits if_splits prod.splits)
  next
    case (StoppingObject i u)
    with s stop [of i u] show ?thesis
      by (auto simp: advance_request_def Let_def split: poll.splits prod.splits)
  qed (use s ok in \<open>auto simp: advance_request_def Let_def split: wake.splits\<close>)
qed

lemma same_tasks:
  "sv_tasks (snd (service_handle d env enc meth params sv)) = sv_tasks sv"
  "start_request d env be enc q st = (x, sv') \<Longrightarrow> sv_tasks sv' = sv_tasks (sr_service st)"
  "advance_request e be enc wk sg st = (sg', sv') \<Longrightarrow> sv_tasks sv' = sv_tasks (sr_service st)"
proof -
  show h: "sv_tasks (snd (service_handle d env enc meth params sv)) = sv_tasks sv" for meth params sv
    by (simp add: service_handle_def split: sum.split prod.split)
  show "start_request d env be enc q st = (x, sv') \<Longrightarrow> sv_tasks sv' = sv_tasks (sr_service st)"
    using h [of "rq_method q" "rq_params q" "sr_service st"]
    by (auto simp: start_request_def split: prod.splits method_step.splits)
  show "advance_request e be enc wk sg st = (sg', sv') \<Longrightarrow> sv_tasks sv' = sv_tasks (sr_service st)"
    by (auto simp: advance_request_def Let_def
        split: stage.splits wake.splits if_splits prod.splits poll.splits)
qed

lemma request_poll_ok:
  assumes inv: "sr_inv enc st" and q: "q \<in> set (sv_tasks (sr_service st))" and ph: "sr_phase st = Serving"
  shows "sr_inv enc (request_poll e d env be enc wk q st)"
proof -
  let ?w = "sr_writer st"
  obtain x sv where step: "(case sr_stage st (rq_id q) of
        NotPolled \<Rightarrow> start_request d env be enc q st
      | sg \<Rightarrow> (case advance_request e be enc wk sg st of (sg, sv) \<Rightarrow> (Some sg, sv))) = (x, sv)"
    by fastforce
  have ok: "serv_ok enc ?w (sr_service st)" using inv by (simp add: sr_inv_def)
  have "sv_tasks sv = sv_tasks (sr_service st)"
    using step by (auto dest: same_tasks(2,3) split: stage.splits prod.splits)
  with q have q: "q \<in> set (sv_tasks sv)" by simp
  have sv: "serv_ok enc ?w sv" "x \<noteq> None"
    using step by (auto dest: start_request_ok [OF ok] advance_request_ok [OF ok]
        split: stage.splits prod.splits)
  have ans: "sr_inv enc (answer_request enc q res sv st)" for res
    using serv_ok_finish [OF sv(1) q, of res] inv ph
    by (auto simp: answer_request_def task_over_def sr_inv_def split: bool.splits prod.splits)
  obtain sg where sg: "x = Some sg" using sv(2) by blast
  show ?thesis
    using ans sv(1) inv ph
    unfolding request_poll_def step sg by (cases sg) (simp_all add: sr_inv_def)
qed

lemma rt_inv_wout:
  assumes "rt_inv enc r" "q' = wout (rworld r) \<or> q' = snd (outbox_next (wout (rworld r))) \<or>
      q' = outbox_close (wout (rworld r))"
  shows "rt_inv enc (r\<lparr>rworld := (rworld r)\<lparr>wout := q'\<rparr>\<rparr>)"
  using assms(2) rt_inv_out [OF assms(1), of "HOut OpNext"] rt_inv_out [OF assms(1), of "HOut OpClose"]
    assms(1)
  by auto

lemma output_poll_ok:
  assumes inv: "sr_inv enc st"
  shows "sr_inv enc (output_poll pick x st)"
proof -
  obtain w q where s: "writer_step pick x (sr_writer st) (sr_out st) = (w, q)" by fastforce
  let ?sv = "with_world ((sv_world (sr_service st))\<lparr>wout := q\<rparr>) (sr_service st)"
  have ok: "serv_ok enc (sr_writer st) (sr_service st)" using inv by (simp add: sr_inv_def)
  have q: "q = sr_out st \<or> q = snd (outbox_next (sr_out st)) \<or> q = outbox_close (sr_out st)"
    using writer_outbox [OF s] .
  have "wr_inv enc (w, q)" using wr_inv_step [of enc "sr_writer st" "sr_out st" pick x] ok s
    by (simp add: serv_ok_def)
  then have "serv_ok enc w ?sv"
    using rt_inv_wout [OF serv_ok_rt [OF ok] q] ok
    by (simp add: serv_ok_def sv_inv_def tasks_ok_def settled_def)
  moreover have "oclosed (sr_out st) \<Longrightarrow> oclosed q"
    using q by (auto simp: outbox_close_def outbox_next_def split: list.split option.split)
  then have "phase_ok (sr_phase st) (sr_service st) \<Longrightarrow> phase_ok (sr_phase st) ?sv"
    by (cases "sr_phase st") simp_all
  ultimately show ?thesis
    using inv s by (cases "sr_phase st") (simp_all add: output_poll_def sr_inv_def)
qed

lemma on_runtime_ok:
  assumes inv: "sr_inv enc st"
    and f: "\<And>r. rt_inv enc r \<Longrightarrow> rt_inv enc (f r)" "\<And>r. out_rel enc (rt_out r) (rt_out (f r))"
      "\<And>r. same_dom r (f r)" "\<And>r. rt_inv enc r \<Longrightarrow> progresses r (f r)" "\<And>r. loading (f r) = loading r"
    and cancel: "\<And>r i ob ob'. heap r i = Some ob \<Longrightarrow> heap (f r) i = Some ob' \<Longrightarrow> ob_cancel ob' = ob_cancel ob"
  shows "sr_inv enc (on_runtime f st)"
proof -
  let ?r = "sv_runtime (sr_service st)"
  have ok: "serv_ok enc (sr_writer st) (sr_service st)" using inv by (simp add: sr_inv_def)
  note rt = serv_ok_rt [OF ok]
  have "settled (f ?r)"
    using ok settled_same [OF _ f(4) [OF rt] f(3)] by (simp add: serv_ok_def)
  then have "serv_ok enc (sr_writer st) ((sr_service st)\<lparr>sv_runtime := f ?r\<rparr>)"
    by (intro serv_ok_runtime [OF ok] f rt)
  moreover have "stopping ids (f ?r)" if "stopping ids ?r" for ids
    by (rule stopping_keep [OF that f(3) f(4) [OF rt] cancel])
  moreover have "registered (f ?r) = registered ?r" "oclosed (rt_out ?r) \<Longrightarrow> oclosed (rt_out (f ?r))"
    using f(2,3) [of ?r] by (simp_all add: same_dom_def out_rel_def)
  ultimately show ?thesis
    using inv f(5) unfolding sr_inv_def
    by (cases "sr_phase st") (simp_all add: stopping_def)
qed

lemma objects_poll_ok:
  assumes ok: "serv_ok enc (sr_writer st) (sr_service st)" and st: "stopping ids (sv_runtime (sr_service st))"
    and none: "sv_tasks (sr_service st) = []" "loading (sv_runtime (sr_service st)) = []"
      "\<forall>x \<in> set (sr_joinable st). x = None"
  shows "sr_inv enc (objects_poll enc ids st)"
proof -
  obtain ids' r where p: "shutdown_poll ids (sv_runtime (sr_service st)) = (ids', r)" by fastforce
  note poll = stopping_poll [OF st p]
  have rt: "rt_inv enc r" using shutdown_poll_inv [OF serv_ok_rt [OF ok], of ids] p by simp
  have set: "settled r" using settled_shutdown [OF _ st p] ok by (simp add: serv_ok_def)
  let ?sv = "(sr_service st)\<lparr>sv_runtime := r\<rparr>"
  have sv: "serv_ok enc (sr_writer st) ?sv"
    using poll by (intro serv_ok_runtime [OF ok rt _ set]) simp
  have "rt_inv enc ((sv_runtime ?sv)\<lparr>rworld := host_exec enc (HOut OpClose) (sv_world ?sv)\<rparr>)"
    using rt by (intro rt_inv_out) simp_all
  moreover have "out_rel enc (wout (sv_world ?sv)) (wout (host_exec enc (HOut OpClose) (sv_world ?sv)))"
    by (rule out_rel_host) simp
  ultimately have "serv_ok enc (sr_writer st) (close_output enc ?sv)"
    using set unfolding close_output_def
    by (intro serv_ok_runtime [OF sv]) (simp_all add: settled_def)
  with sv poll none p show ?thesis
    by (auto simp: objects_poll_def Let_def sr_inv_def close_output_def outbox_close_def stopping_def)
qed

lemma leave_ok: "sr_inv enc st \<Longrightarrow> sr_inv enc (leave e st)"
  by (simp add: leave_def sr_inv_def)

lemma sr_inv_input [simp]:
  "sr_inv enc (st\<lparr>sr_input := r\<rparr>) = sr_inv enc st" "sr_inv enc (st\<lparr>sr_partial := b\<rparr>) = sr_inv enc st"
  "sr_inv enc (st\<lparr>sr_stage := sg\<rparr>) = sr_inv enc st"
  by (simp_all add: sr_inv_def)

lemma select_poll_ok:
  assumes inv: "sr_inv enc st" and ph: "sr_phase st = Serving"
  shows "sr_inv enc (select_poll enc parse t i st)"
proof -
  have joined: "sr_inv enc (st\<lparr>sr_joinable := js\<rparr>)" if "sr_joinable st = x # js" for x js
    using inv that by (simp add: sr_inv_def)
  obtain y frame r where f: "frame_poll (sr_partial st) (sr_input st) = (y, frame, r)"
    by (cases "frame_poll (sr_partial st) (sr_input st)")
  have routed: "sr_inv enc (st\<lparr>sr_input := r, sr_partial := [], sr_service := sv\<rparr>)"
    if "route enc parse b (sr_service st) = (go, sv)" for b go sv
    using serv_ok_route [of enc "sr_writer st" "sr_service st" parse b] inv ph that
    by (simp add: sr_inv_def)
  show ?thesis
    using inv joined routed f
    by (auto simp: select_poll_def leave_ok Let_def split: option.split list.split frame_result.split prod.split)
qed

lemma main_poll_ok:
  assumes inv: "sr_inv enc st"
  shows "sr_inv enc (main_poll enc parse t i late st)"
proof (cases "sr_phase st")
  case Serving
  with select_poll_ok [OF inv] show ?thesis by (simp add: main_poll_def)
next
  case Leaving
  with abort_tasks_all [of enc "sr_writer st" "sr_service st"] inv show ?thesis
    by (simp add: main_poll_def sr_inv_def)
next
  case Joined
  let ?r = "sv_runtime (sr_service st)"
  have ok: "serv_ok enc (sr_writer st) (sr_service st)" using inv by (simp add: sr_inv_def)
  obtain ids r where b: "shutdown_begin ?r = (ids, r)" by fastforce
  have set: "settled ?r" using ok by (simp add: serv_ok_def)
  have st: "stopping ids r" by (rule stopping_begin [OF set b])
  have "rt_inv enc r" using shutdown_begin_inv [OF serv_ok_rt [OF ok]] b by simp
  moreover have "rworld r = rworld ?r" "settled r" "loading r = loading ?r"
    using b set by (auto simp: shutdown_begin_def settled_def split: if_splits)
  ultimately have "serv_ok enc (sr_writer st) ((sr_service st)\<lparr>sv_runtime := r\<rparr>)"
    by (intro serv_ok_runtime [OF ok]) simp_all
  with objects_poll_ok [of enc "st\<lparr>sr_service := (sr_service st)\<lparr>sv_runtime := r\<rparr>\<rparr>" ids] st inv Joined b
    \<open>loading r = loading ?r\<close>
  show ?thesis by (simp add: main_poll_def sr_inv_def)
next
  case (StopObjects ids)
  with objects_poll_ok [of enc st ids] inv show ?thesis
    by (simp add: main_poll_def sr_inv_def stopping_def)
next
  case Flushing
  with inv show ?thesis
    by (auto simp: main_poll_def flush_poll_def sr_inv_def split: write_state.split option.split)
next
  case (Over x)
  with inv show ?thesis by (simp add: main_poll_def)
qed

lemma service_new_idle:
  "wout (sv_world (service_new s)) = outbox_new" "settled (sv_runtime (service_new s))"
  by (simp_all add: service_new_def runtime_new_def settled_def world_new_def)

lemma sr_inv_new: "sr_inv enc (server_new s b)"
  using wr.start_inv [OF refl]
  by (simp add: sr_inv_def server_new_def serv_ok_def sv_inv_new service_new_idle)

lemma sr_inv_exec: "sr_inv (o_enc out) st \<Longrightarrow> sr_inv (o_enc out) (serve_exec out op st)"
proof (cases op)
  case (ReqPoll i wk)
  assume inv: "sr_inv (o_enc out) st"
  show ?thesis
  proof (cases "sr_phase st = Serving \<and> task_of i (sr_service st) \<noteq> None")
    case True
    then obtain q where "task_of i (sr_service st) = Some q" by blast
    with True request_poll_ok [OF inv] task_ofD [OF this] ReqPoll show ?thesis by simp
  qed (use inv ReqPoll in auto)
next
  case (ObjPoll i res)
  assume "sr_inv (o_enc out) st"
  then have "sr_inv (o_enc out) (on_runtime (task_poll (o_enc out) i res) st)"
    by (rule on_runtime_ok)
      (auto simp: task_poll_inv out_rel_task same_dom_task task_poll_progresses task_world_only
        dest: cancel_task)
  with ObjPoll show ?thesis by simp
next
  case (GuestAct i a)
  assume "sr_inv (o_enc out) st"
  then have "sr_inv (o_enc out) (on_runtime (guest_acts (o_enc out) i a) st)"
    by (rule on_runtime_ok)
      (auto simp: act_inv out_rel_act same_dom_act act_progresses task_world_only dest: cancel_act)
  with GuestAct show ?thesis by simp
qed (simp_all add: main_poll_ok output_poll_ok)

interpretation sr: machine "\<lambda>st. st = server_new s b" "serve_exec out" "sr_inv (o_enc out)" for s b out
  by unfold_locales (simp_all add: sr_inv_new sr_inv_exec)

end
