(* ===== verification/ServeSafe.thy ===== *)
theory ServeSafe
  imports Serving
begin

text \<open>
  What the program as a whole guarantees: however the session ends, the shutdown sequence
  completes and leaves nothing; output is never stuck; frames are read across polls as they
  would be in one go. Two runs show what it does not guarantee: bytes of a frame that was
  read in part are lost when a request task ends, and a reply that was accepted may not be
  written when the session is closed at once.
\<close>

section \<open>Frames across polls\<close>

lemma frame_poll_waits:
  "frame_poll frame r = (None, frame', r') \<Longrightarrow> r' = [] \<and> read_frame frame (r @ s) = read_frame frame' s"
  by (induction frame r rule: frame_poll.induct)
    (auto simp: Let_def split: if_splits option.splits)

lemma frame_poll_done:
  "frame_poll frame r = (Some x, frame', r') \<Longrightarrow> read_frame frame (r @ s) = (x, r' @ s)"
  by (induction frame r rule: frame_poll.induct)
    (auto simp: Let_def split: if_splits option.splits)

text \<open>Reading with waits: the pieces arrive one after the other, each followed by a poll.\<close>

fun frame_polls :: "bytes \<Rightarrow> reader \<Rightarrow> reader list \<Rightarrow> frame_result option \<times> reader" where
  "frame_polls frame r [] = (None, r)"
| "frame_polls frame r (p # ps) =
     (case frame_poll frame (r @ p) of
        (None, frame', r') \<Rightarrow> frame_polls frame' r' ps
      | (Some x, _, r') \<Rightarrow> (Some x, r' @ concat ps))"

text \<open>
  A frame future that is polled as its input arrives, and not dropped meanwhile, gives
  the frame that is read when all of the input is there at once, and leaves the same rest.
\<close>

lemma frame_polls_equiv:
  assumes "frame_polls frame r ps = (Some x, rest)"
  shows "read_frame frame (r @ concat ps) = (x, rest)"
  using assms
proof (induction ps arbitrary: frame r)
  case (Cons p ps)
  obtain y frame' r' where p: "frame_poll frame (r @ p) = (y, frame', r')"
    by (cases "frame_poll frame (r @ p)")
  show ?case
  proof (cases y)
    case None
    with p have waits: "r' = []" "read_frame frame ((r @ p) @ concat ps) = read_frame frame' (concat ps)"
      using frame_poll_waits by blast+
    with p None Cons.prems Cons.IH [of frame' "[]"] show ?thesis by simp
  next
    case (Some z)
    with p Cons.prems frame_poll_done [of frame "r @ p" z frame' r' "concat ps"] show ?thesis by simp
  qed
qed simp

lemma frame_polls_equiv_witness:
  "read_frame [] [Inr ''{'', Inr (''}'' @ [newline]), Inr ''x''] = (FrameBytes (''{}'' @ [newline]), [Inr ''x''])"
proof -
  have "frame_polls [] [] [[Inr ''{''], [Inr (''}'' @ [newline]), Inr ''x'']]
      = (Some (FrameBytes (''{}'' @ [newline])), [Inr ''x''])"
    by (simp add: MAX_FRAME_def newline_def)
  from frame_polls_equiv [OF this] show ?thesis by simp
qed

section \<open>Runs of the program\<close>

abbreviation srun :: "'p outside \<Rightarrow> string \<Rightarrow> builds \<Rightarrow> serve_op list \<Rightarrow> 'p server" where
  "srun out s b ops \<equiv> fold (serve_exec out) ops (server_new s b)"

lemma srun_inv: "sr_inv (o_enc out) (srun out s b ops)"
  by (rule sr.reach_inv) (rule refl)

lemma srun_ok: "serv_ok (o_enc out) (sr_writer (srun out s b ops)) (sr_service (srun out s b ops))"
  using srun_inv [of out ops s b] by (simp add: sr_inv_def)

text \<open>
  Output is never stuck. In every reachable state of the program a writer that is
  suspended in \<^verbatim>\<open>next\<close> goes on when it is polled as soon as a control frame or a frame of an
  object is queued or the outbox is closed; the writer never panics.
\<close>

lemma output_never_stuck:
  assumes st: "st = srun out s b ops" and running: "\<forall>x. sr_phase st \<noteq> Over x"
    and waiting: "w_state (sr_writer st) = WWait"
    and ready: "control (sr_out st) \<noteq> [] \<or> (\<exists>k. queued (sr_out st) k \<noteq> []) \<or> oclosed (sr_out st)"
  shows "w_state (sr_writer (serve_exec out (Output pick x) st)) \<in> {WTake, WFlush}"
proof -
  have inv: "wr_inv (o_enc out) (sr_writer st, sr_out st)" using srun_ok [of out ops s b] st by (simp add: serv_ok_def)
  have "queued (sr_out st) k = []" if "ready (sr_out st) = []" for k
    using that inv outbox_invD(4) [of "sr_out st" k] by (auto simp: wr_inv_def wr_core_def queued_def)
  with inv waiting ready have "w_state (fst (writer_step pick x (sr_writer st) (sr_out st))) \<in> {WTake, WFlush}"
    by (auto simp: wr_inv_def wr_core_def writer_step_def wake_step_def)
  with running show ?thesis
    by (cases "sr_phase st") (auto simp: output_poll_def split: prod.split)
qed

section \<open>The shutdown completes\<close>

definition idle_task :: "'p object \<Rightarrow> bool" where
  "idle_task ob \<longleftrightarrow> ob_phase ob \<notin> {Spawned, Active}"

lemma task_poll_other:
  assumes "i \<noteq> j"
  shows "heap (task_poll enc j res r) i = heap r i"
proof -
  have "heap (task_end enc j x ob r) i = heap r i" for x ob
    using assms task_end_eq [of enc j x ob r] by auto
  with assms show ?thesis
    by (simp add: task_poll_def Let_def split: option.split run_result.split)
qed

lemma task_poll_idle:
  "heap r i = Some ob \<Longrightarrow> idle_task ob \<Longrightarrow> heap (task_poll enc j res r) i = Some ob"
  by (cases "i = j") (simp_all add: task_poll_other, simp add: task_poll_def idle_task_def)

text \<open>A poll ends a task whose object is cancelled.\<close>

lemma task_poll_cancelled:
  assumes "heap r i = Some ob" "ob_cancel ob \<or> idle_task ob"
  shows "\<exists>ob'. heap (task_poll enc i res r) i = Some ob' \<and> idle_task ob'"
proof (cases "idle_task ob")
  case True
  with task_poll_idle [OF assms(1)] show ?thesis by blast
next
  case False
  then have live: "ob_phase ob \<in> {Spawned, Active}" "ob_cancel (task_started ob)"
    using assms(2) by (auto simp: idle_task_def task_started_def)
  have "task_poll enc i res r = task_end enc i None (task_started ob) r"
    using assms(1) live by (auto simp: task_poll_def Let_def)
  with task_end_eq [of enc i None "task_started ob" r] show ?thesis
    by (auto simp: idle_task_def)
qed

lemma stop_poll_idle:
  assumes inv: "rt_inv enc r" and idle: "\<forall>ob. heap r i = Some ob \<longrightarrow> idle_task ob"
    and s: "object_stop_poll i r = (d, r')"
  shows "d \<and> (\<forall>j ob. heap r' j = Some ob \<longrightarrow> (\<exists>ob0. heap r j = Some ob0 \<and> ob_phase ob = ob_phase ob0))"
proof (cases "heap r i")
  case (Some ob)
  from rt_inv_objectD [OF inv Some] idle Some s show ?thesis
    by (cases "ob_phase ob")
      (auto simp: idle_task_def object_stop_poll_def Let_def object_ok_def coherent_def terminal_def
        split: if_splits)
qed (use s in \<open>simp add: object_stop_poll_def\<close>)

lemma shutdown_poll_idle:
  assumes "rt_inv enc r" "\<forall>i \<in> set ids. \<forall>ob. heap r i = Some ob \<longrightarrow> idle_task ob"
  shows "fst (shutdown_poll ids r) = []"
  using assms
proof (induction ids r rule: shutdown_poll.induct)
  case (2 i ids r)
  obtain d r1 where s: "object_stop_poll i r = (d, r1)" by fastforce
  have inv: "rt_inv enc r1" using object_stop_poll_inv [OF "2.prems"(1), of i] s by simp
  have "\<forall>ob. heap r i = Some ob \<longrightarrow> idle_task ob" using "2.prems"(2) by simp
  note step = stop_poll_idle [OF "2.prems"(1) this s]
  then have d: d by simp
  have "\<forall>j \<in> set ids. \<forall>ob. heap r1 j = Some ob \<longrightarrow> idle_task ob"
  proof (intro ballI allI impI)
    fix j ob
    assume j: "j \<in> set ids" "heap r1 j = Some ob"
    with step obtain ob0 where "heap r j = Some ob0" "ob_phase ob = ob_phase ob0" by blast
    with "2.prems"(2) j(1) show "idle_task ob" by (simp add: idle_task_def)
  qed
  with "2.IH" [OF s [symmetric]] d inv s show ?case by simp
qed simp

definition poll_all :: "encoder \<Rightarrow> (string \<Rightarrow> run_result) \<Rightarrow> string list \<Rightarrow> 'p runtime \<Rightarrow> 'p runtime" where
  "poll_all enc res ids = fold (\<lambda>i. task_poll enc i (res i)) ids"

lemma poll_all_Cons [simp]:
  "poll_all enc res [] r = r"
  "poll_all enc res (i # ids) r = poll_all enc res ids (task_poll enc i (res i) r)"
  by (simp_all add: poll_all_def)

lemma poll_all_idle:
  "heap r i = Some ob \<Longrightarrow> idle_task ob \<Longrightarrow> heap (poll_all enc res ids r) i = Some ob"
  by (induction ids arbitrary: r) (simp_all add: task_poll_idle)

lemma poll_all_cancelled:
  assumes "heap r i = Some ob" "ob_cancel ob \<or> idle_task ob" "idle_task ob \<or> i \<in> set ids"
  shows "\<exists>ob'. heap (poll_all enc res ids r) i = Some ob' \<and> idle_task ob'"
  using assms
proof (induction ids arbitrary: r ob)
  case (Cons j ids)
  show ?case
  proof (cases "i = j")
    case True
    with task_poll_cancelled [OF Cons.prems(1,2)] show ?thesis
      using poll_all_idle by fastforce
  next
    case False
    with Cons.prems Cons.IH [of "task_poll enc j (res j) r" ob] show ?thesis
      by (simp add: task_poll_other)
  qed
qed auto

lemma poll_all_dom: "heap r i = None \<Longrightarrow> heap (poll_all enc res ids r) i = None"
proof (induction ids arbitrary: r)
  case (Cons j ids)
  have "heap (task_poll enc j (res j) r) i = None"
    using Cons.prems same_dom_task [of r enc j "res j"] unfolding same_dom_def by (metis domIff)
  with Cons.IH show ?case by simp
qed simp

lemma serve_polls:
  "fold (serve_exec out) (map (\<lambda>i. ObjPoll i (res i)) ids) st = on_runtime (poll_all (o_enc out) res ids) st"
  by (induction ids arbitrary: st) simp_all

lemma terminal_idle: "rt_inv enc r \<Longrightarrow> heap r i = Some ob \<Longrightarrow> terminal (ob_state ob) \<Longrightarrow> idle_task ob"
  using rt_inv_objectD [of enc r i ob]
  by (auto simp: object_ok_def coherent_def idle_task_def terminal_def split: phase.splits)

lemma flush_over: "sr_phase st = Flushing \<Longrightarrow> \<exists>x. sr_phase (main_poll enc parse t i True st) = Over x"
  by (auto simp: main_poll_def flush_poll_def split: write_state.split option.split)

lemma over_stays: "sr_phase st = Over x \<Longrightarrow> main_poll enc parse t i l st = st"
  by (simp add: main_poll_def)

lemma flush_stays:
  "sr_phase st = Flushing \<or> (\<exists>x. sr_phase st = Over x) \<Longrightarrow>
   sr_phase (main_poll enc parse t i l st) = Flushing \<or> (\<exists>x. sr_phase (main_poll enc parse t i l st) = Over x)"
  by (auto simp: main_poll_def flush_poll_def split: write_state.split option.split)

lemma objects_poll_phase:
  "shutdown_poll ids (sv_runtime (sr_service st)) = (ids', r) \<Longrightarrow>
   sr_phase (objects_poll enc ids st) = (if ids' = [] then Flushing else StopObjects ids') \<and>
   (ids' \<noteq> [] \<longrightarrow> sv_runtime (sr_service (objects_poll enc ids st)) = r)"
  by (simp add: objects_poll_def Let_def)

text \<open>All objects are stopped once their tasks had a poll.\<close>

lemma objects_stop:
  assumes inv: "sr_inv enc st" and ph: "sr_phase st = StopObjects ids"
    and polls: "set (registered (sv_runtime (sr_service st))) \<subseteq> set is"
  shows "sr_phase (main_poll enc parse t i l (on_runtime (poll_all enc res is) st)) = Flushing"
proof -
  let ?r = "sv_runtime (sr_service st)"
  let ?p = "poll_all enc res is ?r"
  have rt: "rt_inv enc ?r" and settled: "settled ?r" and stop: "stopping ids ?r"
    using inv ph by (simp_all add: sr_inv_def serv_ok_def sv_inv_def stopping_def)
  have "rt_inv enc ?p"
    unfolding poll_all_def by (rule fold_invariant [where Q = "\<lambda>_. True"]) (simp_all add: rt task_poll_inv)
  moreover have "idle_task ob" if ob: "heap ?p j = Some ob" for j ob
  proof -
    obtain ob0 where ob0: "heap ?r j = Some ob0"
      using ob poll_all_dom [of ?r j enc res "is"] by fastforce
    have "ob_cancel ob0 \<or> idle_task ob0" "idle_task ob0 \<or> j \<in> set is"
      using stop settled ob0 polls terminal_idle [OF rt ob0]
      unfolding stopping_def settled_def by blast+
    from poll_all_cancelled [OF ob0 this, of enc res] ob show ?thesis by auto
  qed
  ultimately have "fst (shutdown_poll ids ?p) = []" by (intro shutdown_poll_idle) auto
  then obtain r' where "shutdown_poll ids ?p = ([], r')" by (metis prod.collapse)
  with ph objects_poll_phase [of ids "on_runtime (poll_all enc res is) st" "[]" r' enc] show ?thesis
    by (simp add: main_poll_def)
qed

lemma leaving_poll:
  assumes inv: "sr_inv enc st" and ph: "sr_phase st = Leaving"
    and st2: "st2 = main_poll enc parse t i l (main_poll enc parse t i l st)"
  shows "sr_phase st2 = Flushing \<or> (\<exists>ids. sr_phase st2 = StopObjects ids \<and>
    registered (sv_runtime (sr_service st2)) = registered (sv_runtime (sr_service st)))"
proof -
  define st1 where "st1 = main_poll enc parse t i l st"
  have inv1: "sr_inv enc st1" unfolding st1_def by (rule main_poll_ok [OF inv])
  have ph1: "sr_phase st1 = Joined" using ph by (simp add: st1_def main_poll_def)
  have reg1: "registered (sv_runtime (sr_service st1)) = registered (sv_runtime (sr_service st))"
    using ph abort_tasks_all [of enc "sr_writer st" "sr_service st"] inv
    by (simp add: st1_def main_poll_def sr_inv_def)
  let ?r = "sv_runtime (sr_service st1)"
  obtain ids r where b: "shutdown_begin ?r = (ids, r)" by fastforce
  let ?st = "st1\<lparr>sr_service := (sr_service st1)\<lparr>sv_runtime := r\<rparr>\<rparr>"
  obtain ids' r' where p: "shutdown_poll ids r = (ids', r')" by fastforce
  have "settled ?r" using inv1 by (simp add: sr_inv_def serv_ok_def)
  from stopping_poll [OF stopping_begin [OF this b] p] b
  have "ids' \<noteq> [] \<Longrightarrow> registered r' = registered ?r" by (auto simp: shutdown_begin_def)
  moreover have "st2 = objects_poll enc ids ?st"
    using ph1 b unfolding st2 st1_def [symmetric] by (simp add: main_poll_def)
  ultimately show ?thesis
    using objects_poll_phase [of ids ?st ids' r' enc] p reg1 by auto
qed

text \<open>Without a running object nothing is left of calls and object output.\<close>

lemma nothing_left:
  assumes inv: "rt_inv enc r" and over: "\<forall>i ob. heap r i = Some ob \<longrightarrow> terminal (ob_state ob)"
  shows "pending (whost (rworld r)) = [] \<and> queued (wout (rworld r)) k = []"
proof -
  have quiet: "quiet i (rworld r)" for i
  proof -
    have "\<not> active r i"
      using terminal_idle [OF inv] over by (auto simp: active_def idle_task_def)
    with inv show ?thesis by (simp add: rt_inv_def)
  qed
  have "map_of (pending (whost (rworld r))) j = None" for j
    using quiet_pending [OF quiet] inv by (metis not_None_eq rt_inv_def)
  then have "pending (whost (rworld r)) = []"
    by (metis list.set_intros(1) map_of_eq_None_iff neq_Nil_conv image_eqI)
  with quiet [of k] show ?thesis by (simp add: quiet_def)
qed

text \<open>
  C8: the shutdown completes and leaves nothing. Whatever state the program is in when the
  loop ends, two polls of the main future, one poll of the task of every object, a poll and
  a last one after the two seconds are enough for it to return, and then every request has
  been dropped with its permit, every object has ended and none is registered, no host call
  waits for an answer, and no object has output queued.
\<close>

theorem shutdown_completes:
  assumes st: "st = srun out s b ops" and ph: "sr_phase st = Leaving"
    and fin: "end' = fold (serve_exec out) ([MainPoll t i l, MainPoll t i l] @
      map (\<lambda>i. ObjPoll i (res i)) (registered (sv_runtime (sr_service st))) @
      [MainPoll t i l, MainPoll t i True]) st"
  shows "\<exists>x. sr_phase end' = Over x \<and>
    (let sv = sr_service end'; r = sv_runtime sv in
       sv_tasks sv = [] \<and> sv_ids sv = [] \<and> sv_slots sv = 48 \<and> registered r = [] \<and>
       (\<forall>i ob. heap r i = Some ob \<longrightarrow> terminal (ob_state ob)) \<and>
       pending (whost (rworld r)) = [] \<and> (\<forall>k. queued (wout (rworld r)) k = []))"
proof -
  let ?e = "o_enc out" and ?p = "o_parse out"
  let ?ids = "registered (sv_runtime (sr_service st))"
  define st2 where "st2 = main_poll ?e ?p t i l (main_poll ?e ?p t i l st)"
  let ?st3 = "on_runtime (poll_all ?e res ?ids) st2"
  have inv: "sr_inv ?e st" unfolding st by (rule srun_inv)
  have inv2: "sr_inv ?e st2" unfolding st2_def by (intro main_poll_ok inv)
  have e: "end' = main_poll ?e ?p t i True (main_poll ?e ?p t i l ?st3)"
    unfolding fin by (simp only: fold_append o_apply serve_polls) (simp add: st2_def)
  from leaving_poll [OF inv ph st2_def]
  have "sr_phase (main_poll ?e ?p t i l ?st3) = Flushing \<or>
      (\<exists>x. sr_phase (main_poll ?e ?p t i l ?st3) = Over x)"
  proof
    assume "sr_phase st2 = Flushing"
    then show ?thesis by (intro flush_stays) simp
  next
    assume "\<exists>ids. sr_phase st2 = StopObjects ids \<and>
      registered (sv_runtime (sr_service st2)) = ?ids"
    with objects_stop [OF inv2, of _ ?ids ?p t i l res] show ?thesis by auto
  qed
  then have "\<exists>x. sr_phase end' = Over x"
    unfolding e by (metis flush_over over_stays)
  then obtain x where x: "sr_phase end' = Over x" ..
  have "sr_inv ?e end'" unfolding fin by (rule sr.run_inv [OF inv])
  with x have ok: "serv_ok ?e (sr_writer end') (sr_service end')" "phase_ok (Over x) (sr_service end')"
    by (auto simp: sr_inv_def)
  let ?r = "sv_runtime (sr_service end')"
  have over: "\<forall>i ob. heap ?r i = Some ob \<longrightarrow> terminal (ob_state ob)"
    using ok by (simp add: serv_ok_def settled_def)
  have "sv_ids (sr_service end') = []" "sv_slots (sr_service end') = 48"
    using ok by (simp_all add: serv_ok_def sv_inv_def tasks_ok_def REQUEST_SLOTS_def)
  with x ok over nothing_left [OF serv_ok_rt [OF ok(1)] over] show ?thesis by (simp add: Let_def)
qed

section \<open>Replies\<close>

lemma control_done:
  "outbox_control enc v q = (Done x, q') \<Longrightarrow> \<not> oclosed q \<Longrightarrow> control_bytes enc v = Inr c \<Longrightarrow>
   control q' = control q @ [c]"
  by (auto simp: outbox_control_def push_control_def split: if_splits)

lemma answer_shutdown:
  assumes "\<not> sv_shutdown sv" "sv_shutdown (sr_service (answer_request enc q res sv st))"
  shows "rq_method q = ''sf.shutdown'' \<and> (\<exists>v. res = Inr v) \<and>
    (\<forall>c. \<not> oclosed (wout (sv_world sv)) \<longrightarrow>
       control_bytes enc (response (String (rq_id q)) res) = Inr c \<longrightarrow>
       control (sr_out (answer_request enc q res sv st)) = control (wout (sv_world sv)) @ [c])"
proof -
  obtain x o' where o': "outbox_control enc (response (String (rq_id q)) res) (wout (sv_world sv)) = (x, o')"
    by fastforce
  with assms obtain y where x: "x = Done y"
    by (cases x) (auto simp: answer_request_def request_finish_def)
  from assms o' x have "rq_method q = ''sf.shutdown''" "\<not> isl res"
    by (auto simp: answer_request_def request_finish_def task_over_def Let_def)
  moreover have "sr_out (answer_request enc q res sv st) = o'"
    using o' x by (simp add: answer_request_def request_finish_def task_over_def Let_def)
  ultimately show ?thesis
    using control_done [of enc "response (String (rq_id q)) res" "wout (sv_world sv)" y o'] o' x
    by (cases res) auto
qed

lemma shutdown_kept:
  "sv_shutdown (snd (service_handle d env enc meth params sv)) = sv_shutdown sv"
  "start_request d env be enc q st = (x, sv') \<Longrightarrow> sv_shutdown sv' = sv_shutdown (sr_service st)"
  "advance_request e be enc wk sg st = (sg', sv') \<Longrightarrow> sv_shutdown sv' = sv_shutdown (sr_service st)"
  "route enc parse b sv = (go, sv1) \<Longrightarrow> sv_shutdown sv1 = sv_shutdown sv"
proof -
  show h: "sv_shutdown (snd (service_handle d env enc meth params sv)) = sv_shutdown sv" for meth params sv
    by (simp add: service_handle_def split: sum.split prod.split)
  show "start_request d env be enc q st = (x, sv') \<Longrightarrow> sv_shutdown sv' = sv_shutdown (sr_service st)"
    using h [of "rq_method q" "rq_params q" "sr_service st"]
    by (auto simp: start_request_def split: prod.splits method_step.splits)
  show "advance_request e be enc wk sg st = (sg', sv') \<Longrightarrow> sv_shutdown sv' = sv_shutdown (sr_service st)"
    by (auto simp: advance_request_def Let_def
        split: stage.splits wake.splits if_splits prod.splits poll.splits)
  have r: "sv_shutdown (snd (refuse enc i e sv)) = sv_shutdown sv" for i e
    by (simp add: refuse_def split: prod.split)
  have "sv_shutdown (snd (route enc parse b sv)) = sv_shutdown sv"
    by (cases rule: route_cases [of enc parse b sv])
      (simp_all add: r accepted_def del: host_exec.simps)
  then show "route enc parse b sv = (go, sv1) \<Longrightarrow> sv_shutdown sv1 = sv_shutdown sv" by simp
qed

lemma request_poll_shutdown:
  assumes "\<not> sv_shutdown (sr_service st)" "sv_shutdown (sr_service (request_poll e d env be enc wk q st))"
  shows "\<exists>res sv. request_poll e d env be enc wk q st = answer_request enc q res sv st \<and>
    \<not> sv_shutdown sv"
proof -
  obtain x sv where step: "(case sr_stage st (rq_id q) of
        NotPolled \<Rightarrow> start_request d env be enc q st
      | sg \<Rightarrow> (case advance_request e be enc wk sg st of (sg, sv) \<Rightarrow> (Some sg, sv))) = (x, sv)"
    by fastforce
  then have no: "\<not> sv_shutdown sv"
    using assms(1) by (auto dest: shutdown_kept(2,3) split: stage.splits prod.splits)
  show ?thesis
  proof (cases "\<exists>res. x = Some (Answering res)")
    case True
    then obtain res where "x = Some (Answering res)" ..
    with step no show ?thesis unfolding request_poll_def by auto
  next
    case False
    then have "\<not> sv_shutdown (sr_service (request_poll e d env be enc wk q st))"
      using no unfolding request_poll_def step
      by (auto simp: task_over_def split: option.split stage.split)
    with assms(2) show ?thesis by simp
  qed
qed

text \<open>
  \<^verbatim>\<open>sf.shutdown\<close> is acknowledged before it takes effect. The only step that asks for
  the shutdown is a poll of the task of a request for \<^verbatim>\<open>sf.shutdown\<close>, and the same step
  queues a success for that request on the control queue, unless that cannot be encoded or
  the outbox is closed already.
\<close>

lemma shutdown_acknowledged:
  assumes st: "st = srun out s b ops" and st': "st' = serve_exec out op st"
    and asked: "\<not> sv_shutdown (sr_service st)" "sv_shutdown (sr_service st')"
  shows "\<exists>q wk v. op = ReqPoll (rq_id q) wk \<and> q \<in> set (sv_tasks (sr_service st)) \<and>
    rq_method q = ''sf.shutdown'' \<and>
    (\<forall>c. control_bytes (o_enc out) (response (String (rq_id q)) (Inr v)) = Inr c \<longrightarrow>
       \<not> oclosed (sr_out st') \<longrightarrow> c \<in> set (control (sr_out st')))"
proof -
  have "\<exists>i wk. op = ReqPoll i wk"
  proof (rule ccontr)
    assume "\<not> (\<exists>i wk. op = ReqPoll i wk)"
    moreover have "sv_shutdown (sr_service (main_poll enc parse t i l st)) = sv_shutdown (sr_service st)"
      for enc parse t i l
    proof -
      have "sv_shutdown (sr_service (objects_poll enc ids st')) = sv_shutdown (sr_service st')" for ids st'
        by (simp add: objects_poll_def Let_def close_output_def split: prod.split)
      moreover have "sv_shutdown (sr_service (select_poll enc parse t i st)) = sv_shutdown (sr_service st)"
        by (auto simp: select_poll_def leave_def Let_def shutdown_kept(4)
            split: option.split list.split frame_result.split prod.split)
      ultimately show ?thesis
        using abort_tasks_all [OF srun_ok [of out ops s b]] st
        by (cases "sr_phase st")
          (auto simp: main_poll_def flush_poll_def split: prod.split write_state.split option.split)
    qed
    moreover have "sv_shutdown (sr_service (output_poll pick x st)) = sv_shutdown (sr_service st)" for pick x
      by (simp add: output_poll_def split: serve_phase.split prod.split)
    ultimately show False using asked unfolding st' by (cases op) auto
  qed
  then obtain i wk where op: "op = ReqPoll i wk" by blast
  with asked st' obtain q where q: "task_of i (sr_service st) = Some q"
    by (auto split: option.splits if_splits)
  then have task: "q \<in> set (sv_tasks (sr_service st))" "rq_id q = i" using task_ofD [OF q] by auto
  from asked op q st' have "st' = request_poll (o_engine out) (o_decoders out) (o_env out) (o_build out) (o_enc out) wk q st"
    by (auto split: if_splits)
  with request_poll_shutdown [OF asked(1)] asked(2) obtain res sv where
    a: "st' = answer_request (o_enc out) q res sv st" "\<not> sv_shutdown sv" by metis
  have ans: "rq_method q = ''sf.shutdown'' \<and> (\<exists>v. res = Inr v) \<and>
      (\<forall>c. \<not> oclosed (wout (sv_world sv)) \<longrightarrow>
         control_bytes (o_enc out) (response (String (rq_id q)) res) = Inr c \<longrightarrow>
         control (sr_out st') = control (wout (sv_world sv)) @ [c])"
    using answer_shutdown [OF a(2), of "o_enc out" q res st] asked(2) unfolding a(1) by simp
  then obtain v where v: "rq_method q = ''sf.shutdown''" "res = Inr v" by blast
  have "oclosed (wout (sv_world sv)) \<Longrightarrow> oclosed (sr_out st')"
    using a(1) by (auto simp: answer_request_def request_finish_def task_over_def outbox_control_def
        push_control_def Let_def split: sum.splits)
  with ans v op task show ?thesis by (intro exI [of _ q] exI [of _ wk] exI [of _ v]) auto
qed

section \<open>What can be lost\<close>

definition demo_parse :: parser where
  "demo_parse b =
     (if b = ''1'' @ [newline] then Inr (jobj [(''id'', String ''a''), (''jsonrpc'', String ''2.0''), (''method'', String ''m'')])
      else if b = ''4'' @ [newline] then Inr (jobj [(''id'', String ''a''), (''jsonrpc'', String ''2.0''), (''method'', String ''sf.initialize''), (''params'', Bool True)])
      else if b = ''5'' @ [newline] then Inr (jobj [(''id'', String ''a''), (''jsonrpc'', String ''2.0''), (''method'', String ''sf.shutdown'')])
      else if b = ''23'' @ [newline] then Inr (jobj [(''id'', String ''b''), (''jsonrpc'', String ''2.0''), (''method'', String ''m'')])
      else Inl ''bad'')"

definition demo_outside :: "unit outside" where
  "demo_outside = \<lparr>o_engine = demo_engine, o_decoders = demo_decoders, o_env = demo_surroundings,
     o_build = \<lparr>bd_decode = (\<lambda>_. Inl ''no''), bd_base64 = id\<rparr>, o_enc = tiny_enc, o_parse = demo_parse\<rparr>"

abbreviation main_runs :: serve_op where
  "main_runs \<equiv> MainPoll False False False"

lemmas serve_eval =
  demo_outside_def server_new_def service_new_def runtime_new_def world_new_def REQUEST_SLOTS_def
  main_poll_def select_poll_def leave_def newline_def MAX_FRAME_def demo_parse_def
  route_def refuse_def accept_request_def try_control_def task_of_def output_poll_def

text \<open>
  C38: a reply that was accepted can be lost although the output works. When the end of the
  input is seen in the poll that queued the reply, the writer is still suspended in the
  \<^verbatim>\<open>select!\<close> of \<^verbatim>\<open>next\<close>, which may then take the branch of the closed outbox and return
  \<^verbatim>\<open>None\<close> without looking at the queues: the session ends without an error, nothing was
  written, and the frame is still queued.
\<close>

theorem queued_reply_lost:
  "let st = srun demo_outside s b [Output False IoPending, Input (Inr (''x'' @ [newline])), main_runs,
      Input (Inr []), main_runs, main_runs, main_runs, Output True IoPending, Output True (IoDone 0),
      main_runs] in
    sr_phase st = Over None \<and> w_sent (sr_writer st) = [] \<and> control (sr_out st) = [''{}'' @ [newline]]"
  by (simp add: serve_eval writer_eval Let_def abort_tasks_def shutdown_begin_def objects_poll_def
      close_output_def flush_poll_def)

definition first_request :: "serve_op list" where
  "first_request = [Input (Inr (''1'' @ [newline])), main_runs, Input (Inr ''2''), main_runs]"

definition second_request :: "serve_op list" where
  "second_request = [Input (Inr (''3'' @ [newline])), main_runs]"

definition small_request :: "string \<Rightarrow> request" where
  "small_request i = \<lparr>rq_id = i, rq_method = ''m'', rq_params = Object [], rq_permit = True\<rparr>"

lemma demo_routes:
  "''a'' \<notin> set (sv_ids sv) \<Longrightarrow> 0 < sv_slots sv \<Longrightarrow>
   route enc demo_parse ([CHR ''1'', newline]) sv = (True, accepted (small_request ''a'') sv)"
  "''b'' \<notin> set (sv_ids sv) \<Longrightarrow> 0 < sv_slots sv \<Longrightarrow>
   route enc demo_parse ([CHR ''2'', CHR ''3'', newline]) sv = (True, accepted (small_request ''b'') sv)"
  "route enc demo_parse ([CHR ''3'', newline]) sv =
     refuse enc Null (rpc_error_new (- 32700) ''PARSE_ERROR'' ''bad'') sv"
  by (simp_all add: route_def demo_parse_def accept_request_def accepted_def small_request_def
      vget_jobj newline_def jobj_def)

lemma demo_frames:
  "frame_poll [] [Inr ([CHR ''1'', newline])] = (Some (FrameBytes ([CHR ''1'', newline])), [CHR ''1'', newline], [])"
  "frame_poll [] [Inr [CHR ''2'']] = (None, [CHR ''2''], [])" "frame_poll f [] = (None, f, [])"
  "frame_poll [CHR ''2''] [Inr ([CHR ''3'', newline])] = (Some (FrameBytes ([CHR ''2'', CHR ''3'', newline])), [CHR ''2'', CHR ''3'', newline], [])"
  "frame_poll [] [Inr ([CHR ''3'', newline])] = (Some (FrameBytes ([CHR ''3'', newline])), [CHR ''3'', newline], [])"
  by (simp_all add: newline_def MAX_FRAME_def)

text \<open>The session after the first request, with one byte of the second frame read.\<close>

definition demo_first :: "string \<Rightarrow> builds \<Rightarrow> unit server" where
  "demo_first s b = (server_new s b)\<lparr>sr_service := accepted (small_request ''a'') (service_new s),
     sr_partial := [CHR ''2'']\<rparr>"

lemma service_new_fields [simp]:
  "sv_ids (service_new s) = []" "sv_slots (service_new s) = 48" "sv_tasks (service_new s) = []"
  "sv_shutdown (service_new s) = False" "sv_initialized (service_new s) = False"
  "oclosed (wout (sv_world (service_new s))) = False" "control (wout (sv_world (service_new s))) = []"
  by (simp_all add: service_new_def REQUEST_SLOTS_def runtime_new_def world_new_def outbox_new_def)

lemma accepted_fields [simp]:
  "sv_runtime (accepted q sv) = sv_runtime sv" "sv_shutdown (accepted q sv) = sv_shutdown sv"
  "sv_initialized (accepted q sv) = sv_initialized sv"
  by (simp_all add: accepted_def)

lemma demo_first_run: "srun demo_outside s b first_request = demo_first s b"
  by (simp add: first_request_def demo_first_def demo_outside_def server_new_def main_poll_def
      select_poll_def demo_frames demo_routes Let_def del: frame_poll.simps)

lemma demo_second_run:
  "sv_ids (sr_service (fold (serve_exec demo_outside) second_request (demo_first s b))) = [''b'', ''a'']"
  by (simp add: second_request_def demo_first_def demo_outside_def server_new_def main_poll_def
      select_poll_def demo_frames demo_routes Let_def accepted_def small_request_def del: frame_poll.simps)

text \<open>The first request is answered (with an error, before initialization) and its task joined.\<close>

definition demo_done :: "string \<Rightarrow> unit service" where
  "demo_done s = with_world ((sv_world (service_new s :: unit service))\<lparr>wout :=
     push_control (''{}'' @ [newline]) outbox_new\<rparr>) (service_new s)"

lemma demo_finish:
  "request_finish tiny_enc (small_request ''a'') res (accepted (small_request ''a'') (service_new s)) =
     (True, demo_done s)"
  by (simp add: request_finish_def request_drop_def accepted_def small_request_def demo_done_def
      service_new_def runtime_new_def world_new_def outbox_control_def control_bytes_def encode_def
      tiny_enc_def outbox_new_def outbox_limits REQUEST_SLOTS_def Let_def)

lemma demo_answer:
  "fold (serve_exec demo_outside) [ReqPoll ''a'' NotReady, main_runs] (demo_first s b) =
     (server_new s b)\<lparr>sr_service := demo_done s\<rparr>"
proof -
  have "task_of ''a'' (accepted (small_request ''a'') (service_new s :: unit service)) = Some (small_request ''a'')"
    by (simp add: task_of_def accepted_def small_request_def)
  moreover have "rq_id (small_request ''a'') = ''a''" "rq_method (small_request ''a'') = ''m''"
    by (simp_all add: small_request_def)
  moreover have "\<not> sv_shutdown (demo_done s)" "\<not> oclosed (wout (sv_world (demo_done s)))"
    by (simp_all add: demo_done_def push_control_def outbox_new_def)
  ultimately show ?thesis
    by (simp add: demo_first_def demo_outside_def server_new_def main_poll_def request_poll_def
        start_request_def service_handle_def answer_request_def task_over_def demo_finish
        select_poll_def Let_def fun_upd_idem)
qed

lemma demo_third_run:
  "sv_ids (sr_service (fold (serve_exec demo_outside) second_request
      ((server_new s b)\<lparr>sr_service := demo_done s\<rparr>))) = []"
  by (simp add: second_request_def demo_outside_def server_new_def main_poll_def demo_done_def
      select_poll_def demo_frames demo_routes Let_def push_control_def outbox_new_def
      refuse_def try_control_def encode_def tiny_enc_def try_push_control_def outbox_limits
      del: frame_poll.simps)

text \<open>
  C39: a request can be lost although its bytes arrive. The same input is read with and
  without a request task ending while the second frame has been read in part; when it ends,
  \<^verbatim>\<open>select!\<close> drops the frame future with the bytes it had taken from the reader, the rest
  of the frame is not a request any more, and request \<open>b\<close> is never served.
\<close>

theorem partial_frame_dropped:
  "let reads = (\<lambda>ops. sr_service (srun demo_outside s b (first_request @ ops @ second_request))) in
    sv_ids (reads []) = [''b'', ''a''] \<and>
    sv_ids (reads [ReqPoll ''a'' NotReady, main_runs]) = []"
  unfolding fold_append o_apply Let_def append_Nil demo_first_run demo_answer
  using demo_second_run [of s b] demo_third_run [of s b] by (simp only: fold_Nil id_apply)

definition init_request :: request where
  "init_request = \<lparr>rq_id = ''a'', rq_method = ''sf.initialize'', rq_params = Bool True, rq_permit = True\<rparr>"

definition stop_request :: request where
  "stop_request = \<lparr>rq_id = ''a'', rq_method = ''sf.shutdown'', rq_params = Object [], rq_permit = True\<rparr>"

lemma demo_control_routes:
  "''a'' \<notin> set (sv_ids sv) \<Longrightarrow> 0 < sv_slots sv \<Longrightarrow>
   route enc demo_parse [CHR ''4'', newline] sv = (True, accepted init_request sv)"
  "''a'' \<notin> set (sv_ids sv) \<Longrightarrow> 0 < sv_slots sv \<Longrightarrow>
   route enc demo_parse [CHR ''5'', newline] sv = (True, accepted stop_request sv)"
  by (simp_all add: route_def demo_parse_def accept_request_def accepted_def init_request_def
      stop_request_def vget_jobj newline_def jobj_def)

lemma demo_control_frames:
  "frame_poll [] [Inr [CHR ''4'', newline]] = (Some (FrameBytes [CHR ''4'', newline]), [CHR ''4'', newline], [])"
  "frame_poll [] [Inr [CHR ''5'', newline]] = (Some (FrameBytes [CHR ''5'', newline]), [CHR ''5'', newline], [])"
  by (simp_all add: newline_def MAX_FRAME_def)

text \<open>The session once initialized: its reply is queued.\<close>

definition demo_ready :: "string \<Rightarrow> unit service" where
  "demo_ready s = (demo_done s)\<lparr>sv_initialized := True\<rparr>"

lemma demo_init_finish:
  "request_finish tiny_enc init_request res ((accepted init_request (service_new s))\<lparr>sv_initialized := True\<rparr>) =
     (True, demo_ready s)"
  by (simp add: request_finish_def request_drop_def accepted_def init_request_def demo_done_def demo_ready_def
      service_new_def runtime_new_def world_new_def outbox_control_def control_bytes_def encode_def
      tiny_enc_def outbox_new_def outbox_limits REQUEST_SLOTS_def Let_def)

lemma demo_ready_fields [simp]:
  "sv_ids (demo_ready s) = []" "sv_slots (demo_ready s) = 48" "sv_shutdown (demo_ready s) = False"
  "sv_initialized (demo_ready s) = True" "wout (sv_world (demo_ready s)) = push_control (''{}'' @ [newline]) outbox_new"
  "sv_tasks (demo_ready s) = []"
  by (simp_all add: demo_ready_def demo_done_def)

definition demo_shutdown :: "serve_op list" where
  "demo_shutdown = [Input (Inr [CHR ''4'', newline]), main_runs, ReqPoll ''a'' NotReady, main_runs,
     Input (Inr [CHR ''5'', newline]), main_runs]"

lemma demo_shutdown_run:
  "srun demo_outside s b demo_shutdown = (server_new s b)\<lparr>sr_service := accepted stop_request (demo_ready s)\<rparr>"
proof -
  have 1: "fold (serve_exec demo_outside) [Input (Inr [CHR ''4'', newline]), main_runs] (server_new s b) =
      (server_new s b)\<lparr>sr_service := accepted init_request (service_new s)\<rparr>"
    by (simp add: demo_outside_def server_new_def main_poll_def select_poll_def demo_control_frames
        demo_control_routes Let_def del: frame_poll.simps)
  have "task_of ''a'' (accepted init_request (service_new s :: unit service)) = Some init_request"
    "rq_id init_request = ''a''" "rq_method init_request = ''sf.initialize''" "rq_params init_request = Bool True"
    by (simp_all add: task_of_def accepted_def init_request_def)
  then have 2: "fold (serve_exec demo_outside) [ReqPoll ''a'' NotReady, main_runs]
      ((server_new s b)\<lparr>sr_service := accepted init_request (service_new s)\<rparr>) =
      (server_new s b)\<lparr>sr_service := demo_ready s\<rparr>"
    by (simp add: demo_outside_def server_new_def main_poll_def request_poll_def decode_def demo_decoders_def
        start_request_def service_handle_def answer_request_def task_over_def demo_init_finish
        select_poll_def Let_def fun_upd_idem push_control_def outbox_new_def)
  have 3: "fold (serve_exec demo_outside) [Input (Inr [CHR ''5'', newline]), main_runs]
      ((server_new s b)\<lparr>sr_service := demo_ready s\<rparr>) =
      (server_new s b)\<lparr>sr_service := accepted stop_request (demo_ready s)\<rparr>"
    by (simp add: demo_outside_def server_new_def main_poll_def select_poll_def demo_control_frames
        demo_control_routes Let_def push_control_def outbox_new_def del: frame_poll.simps)
  have ops: "demo_shutdown = ([Input (Inr [CHR ''4'', newline]), main_runs] @ [ReqPoll ''a'' NotReady, main_runs]) @
      [Input (Inr [CHR ''5'', newline]), main_runs]"
    by (simp add: demo_shutdown_def)
  show ?thesis unfolding ops fold_append o_apply 1 2 3 by (rule refl)
qed

definition some_builds :: builds where
  "some_builds = builds_new id [] False"

lemma shutdown_acknowledged_witness:
  "\<exists>q. q \<in> set (sv_tasks (sr_service (srun demo_outside ''s'' some_builds demo_shutdown))) \<and> rq_method q = ''sf.shutdown'' \<and>
     ''{}'' @ [newline] \<in> set (control (sr_out
       (serve_exec demo_outside (ReqPoll ''a'' NotReady) (srun demo_outside ''s'' some_builds demo_shutdown))))"
proof -
  let ?st = "srun demo_outside ''s'' some_builds demo_shutdown"
  let ?st' = "serve_exec demo_outside (ReqPoll ''a'' NotReady) ?st"
  have "task_of ''a'' (accepted stop_request (demo_ready ''s'')) = Some stop_request"
    "rq_id stop_request = ''a''" "rq_method stop_request = ''sf.shutdown''" "rq_params stop_request = Object []"
    by (simp_all add: task_of_def accepted_def stop_request_def)
  then have asked: "\<not> sv_shutdown (sr_service ?st)" "sv_shutdown (sr_service ?st')" "\<not> oclosed (sr_out ?st')"
    unfolding demo_shutdown_run
    by (simp_all add: demo_outside_def server_new_def request_poll_def start_request_def service_handle_def
        dispatch_def empty_params_def answer_request_def task_over_def request_finish_def outbox_control_def
        control_bytes_def encode_def tiny_enc_def push_control_def outbox_new_def outbox_limits Let_def)
  obtain q v where "q \<in> set (sv_tasks (sr_service ?st))" "rq_method q = ''sf.shutdown''"
    and c: "\<forall>c. control_bytes (o_enc demo_outside) (response (String (rq_id q)) (Inr v)) = Inr c \<longrightarrow>
       \<not> oclosed (sr_out ?st') \<longrightarrow> c \<in> set (control (sr_out ?st'))"
    using shutdown_acknowledged [OF refl refl asked(1,2)] by blast
  moreover have "control_bytes (o_enc demo_outside) (response (String (rq_id q)) (Inr v)) = Inr (''{}'' @ [newline])"
    by (simp add: demo_outside_def control_bytes_def encode_def tiny_enc_def MAX_FRAME_def)
  ultimately show ?thesis using asked(3) by blast
qed

theorem shutdown_completes_witness:
  "\<exists>x. let end' = fold (serve_exec demo_outside) [main_runs, main_runs, main_runs, MainPoll False False True]
      (srun demo_outside ''s'' some_builds (demo_shutdown @ [MainPoll True False False]))
    in sr_phase end' = Over x \<and> sv_slots (sr_service end') = 48"
proof -
  let ?st = "srun demo_outside ''s'' some_builds (demo_shutdown @ [MainPoll True False False])"
  have st: "?st = leave None ((server_new ''s'' some_builds)\<lparr>sr_service := accepted stop_request (demo_ready ''s'')\<rparr>)"
    unfolding fold_append o_apply demo_shutdown_run
    by (simp add: main_poll_def select_poll_def server_new_def)
  then have "sr_phase ?st = Leaving" "registered (sv_runtime (sr_service ?st)) = []"
    by (simp_all add: leave_def demo_ready_def demo_done_def service_new_def runtime_new_def)
  from shutdown_completes [OF refl this(1) refl, of False False False "\<lambda>_. RunMore"] this(2)
  show ?thesis by (auto simp: Let_def simp del: fold_simps)
qed

lemma output_never_stuck_witness:
  "w_state (sr_writer (fold (serve_exec demo_outside)
     [Output False IoPending, Input (Inr ''x''), Input (Inr [newline]), main_runs, Output True IoPending]
     (server_new ''s'' some_builds))) \<in> {WTake, WFlush}"
proof -
  let ?st = "srun demo_outside ''s'' some_builds [Output False IoPending, Input (Inr ''x''), Input (Inr [newline]), main_runs]"
  have "sr_phase ?st = Serving" "w_state (sr_writer ?st) = WWait" "control (sr_out ?st) = [''{}'' @ [newline]]"
    by (simp_all add: serve_eval writer_eval Let_def)
  then have "w_state (sr_writer (serve_exec demo_outside (Output True IoPending) ?st)) \<in> {WTake, WFlush}"
    by (intro output_never_stuck [OF refl]) simp_all
  then show ?thesis by simp
qed

end
