(* ===== verification/Stdio.thy ===== *)
theory Stdio
  imports Prelude "HOL-Library.Stream"
begin

unbundle bit_operations_syntax

text \<open>
  Standard input and output (\<^verbatim>\<open>src/stdio.rs\<close>): a descriptor is duplicated, checked to be a
  pipe or a socket, and made nonblocking for as long as the \<^verbatim>\<open>Stdio\<close> lives; reads and writes
  wait for readiness and repeat interrupted calls.

  The kernel's descriptor table is modelled as far as \<^verbatim>\<open>fcntl\<close> and \<^verbatim>\<open>close\<close> touch it:
  descriptors name open file descriptions, which carry the status flags, so a duplicate
  shares its flags with the original. Which system calls fail is a parameter (\<open>faults\<close>), and
  so are the answers a polled descriptor gives over time (a stream of \<open>fd_event\<close>).
\<close>

section \<open>Descriptors\<close>

datatype file_kind = Fifo | Socket | OtherFile

record kernel =
  fds :: "int \<Rightarrow> nat option"
  kinds :: "nat \<Rightarrow> file_kind"
  flags :: "nat \<Rightarrow> 32 word"

record faults =
  dup_fails :: "string option"
  stat_fails :: "string option"
  getfl_fails :: "string option"
  setfl_fails :: "string option"
  register_fails :: "string option"

record stdio =
  own_fd :: int
  original_flags :: "32 word"

definition O_NONBLOCK :: "32 word" where
  "O_NONBLOCK = 0x800"

definition close_fd :: "int \<Rightarrow> kernel \<Rightarrow> kernel" where
  "close_fd fd k = k\<lparr>fds := (fds k)(fd := None)\<rparr>"

definition set_flags :: "int \<Rightarrow> 32 word \<Rightarrow> kernel \<Rightarrow> kernel" where
  "set_flags fd w k =
     (case fds k fd of None \<Rightarrow> k | Some x \<Rightarrow> k\<lparr>flags := (flags k)(x := w)\<rparr>)"

text \<open>
  \<^verbatim>\<open>Stdio::new\<close>. An early return drops the \<^verbatim>\<open>OwnedFd\<close>, which closes the duplicate; so does a
  failed \<^verbatim>\<open>AsyncFd::new\<close>, after which the flags are restored through the original.
\<close>

definition fcntl_dup :: "faults \<Rightarrow> int \<Rightarrow> int \<Rightarrow> kernel \<Rightarrow> string + nat \<times> kernel" where
  "fcntl_dup F dup fd k =
     (case dup_fails F of
        Some e \<Rightarrow> Inl e
      | None \<Rightarrow>
          (case fds k fd of
             None \<Rightarrow> Inl ''EBADF''
           | Some x \<Rightarrow> Inr (x, k\<lparr>fds := (fds k)(dup \<mapsto> x)\<rparr>)))"

definition stdio_new :: "faults \<Rightarrow> int \<Rightarrow> int \<Rightarrow> kernel \<Rightarrow> (string + stdio) \<times> kernel" where
  "stdio_new F dup fd k =
     (case fcntl_dup F dup fd k of
        Inl e \<Rightarrow> (Inl e, k)
      | Inr (x, k1) \<Rightarrow>
          (case stat_fails F of
             Some e \<Rightarrow> (Inl e, close_fd dup k1)
           | None \<Rightarrow>
               if kinds k1 x \<notin> {Fifo, Socket}
               then (Inl ''stdio must use pipes or Unix sockets'', close_fd dup k1)
               else case getfl_fails F of
                   Some e \<Rightarrow> (Inl e, close_fd dup k1)
                 | None \<Rightarrow>
                     let original = flags k1 x in
                     (case setfl_fails F of
                        Some e \<Rightarrow> (Inl e, close_fd dup k1)
                      | None \<Rightarrow>
                          let k2 = set_flags dup (original OR O_NONBLOCK) k1 in
                          (case register_fails F of
                             Some e \<Rightarrow> (Inl e, set_flags fd original (close_fd dup k2))
                           | None \<Rightarrow> (Inr \<lparr>own_fd = dup, original_flags = original\<rparr>, k2)))))"

text \<open>\<^verbatim>\<open>Drop\<close>, then the drop of the descriptor.\<close>

definition stdio_drop :: "stdio \<Rightarrow> kernel \<Rightarrow> kernel" where
  "stdio_drop s k = close_fd (own_fd s) (set_flags (own_fd s) (original_flags s) k)"

text \<open>
  \<^verbatim>\<open>main\<close> opens the input and then the output; a failure drops what is open. The output belongs
  to the writer task, which is over before the input is dropped at the end of
  \<^verbatim>\<open>serve_with_config\<close>.
\<close>

definition open_stdio :: "faults \<Rightarrow> faults \<Rightarrow> int \<Rightarrow> int \<Rightarrow> kernel \<Rightarrow> (string + stdio \<times> stdio) \<times> kernel" where
  "open_stdio F G d0 d1 k =
     (case stdio_new F d0 0 k of
        (Inl e, k) \<Rightarrow> (Inl e, k)
      | (Inr i, k) \<Rightarrow>
          (case stdio_new G d1 1 k of
             (Inl e, k) \<Rightarrow> (Inl e, stdio_drop i k)
           | (Inr out, k) \<Rightarrow> (Inr (i, out), k)))"

definition close_stdio :: "stdio \<times> stdio \<Rightarrow> kernel \<Rightarrow> kernel" where
  "close_stdio s k = stdio_drop (fst s) (stdio_drop (snd s) k)"

section \<open>Reading and writing\<close>

datatype 'a sys = SysDone 'a | SysInterrupted | SysWouldBlock | SysError string

datatype 'a fd_event = NotReadyYet | ReadyError string | ReadyThen "'a sys"

datatype 'a io_poll = IoPend | IoReady "string + 'a"

text \<open>
  \<^verbatim>\<open>try_io\<close>: a call that would block clears the readiness and gives nothing. Without an answer
  of its own the loop goes on with the next event.
\<close>

definition try_io :: "'a sys \<Rightarrow> 'a sys option" where
  "try_io r = (case r of SysWouldBlock \<Rightarrow> None | _ \<Rightarrow> Some r)"

partial_function (option) poll_read ::
    "bytes \<Rightarrow> bytes fd_event stream \<Rightarrow> (unit io_poll \<times> bytes) option" where
  "poll_read filled s =
     (case shd s of
        NotReadyYet \<Rightarrow> Some (IoPend, filled)
      | ReadyError e \<Rightarrow> Some (IoReady (Inl e), filled)
      | ReadyThen r \<Rightarrow>
          (case try_io r of
             Some (SysDone b) \<Rightarrow> Some (IoReady (Inr ()), filled @ b)
           | Some (SysError e) \<Rightarrow> Some (IoReady (Inl e), filled)
           | _ \<Rightarrow> poll_read filled (stl s)))"

partial_function (option) poll_write :: "nat fd_event stream \<Rightarrow> nat io_poll option" where
  "poll_write s =
     (case shd s of
        NotReadyYet \<Rightarrow> Some IoPend
      | ReadyError e \<Rightarrow> Some (IoReady (Inl e))
      | ReadyThen r \<Rightarrow>
          (case try_io r of
             Some (SysDone n) \<Rightarrow> Some (IoReady (Inr n))
           | Some (SysError e) \<Rightarrow> Some (IoReady (Inl e))
           | _ \<Rightarrow> poll_write (stl s)))"

text \<open>An event that ends the loop, and what the loop then returns.\<close>

fun decisive :: "'a fd_event \<Rightarrow> bool" where
  "decisive (ReadyThen SysInterrupted) = False"
| "decisive (ReadyThen SysWouldBlock) = False"
| "decisive _ = True"

fun outcome :: "'a fd_event \<Rightarrow> 'a io_poll" where
  "outcome NotReadyYet = IoPend"
| "outcome (ReadyError e) = IoReady (Inl e)"
| "outcome (ReadyThen (SysDone x)) = IoReady (Inr x)"
| "outcome (ReadyThen (SysError e)) = IoReady (Inl e)"
| "outcome _ = IoPend"

lemma poll_write_step:
  "poll_write s = (if decisive (shd s) then Some (outcome (shd s)) else poll_write (stl s))"
  by (subst poll_write.simps) (auto simp: try_io_def split: fd_event.split sys.split)

definition read_outcome :: "bytes \<Rightarrow> bytes fd_event \<Rightarrow> unit io_poll \<times> bytes" where
  "read_outcome filled x =
     (case outcome x of
        IoPend \<Rightarrow> (IoPend, filled)
      | IoReady (Inl e) \<Rightarrow> (IoReady (Inl e), filled)
      | IoReady (Inr b) \<Rightarrow> (IoReady (Inr ()), filled @ b))"

lemma poll_read_step:
  "poll_read filled s =
     (if decisive (shd s) then Some (read_outcome filled (shd s)) else poll_read filled (stl s))"
  by (subst poll_read.simps) (auto simp: try_io_def read_outcome_def split: fd_event.split sys.split)

text \<open>A loop of this kind stops at the first decisive event, and only there.\<close>

definition first_decisive :: "'a fd_event stream \<Rightarrow> nat \<Rightarrow> bool" where
  "first_decisive s n \<longleftrightarrow> decisive (s !! n) \<and> (\<forall>m < n. \<not> decisive (s !! m))"

lemma first_decisive_exists: "decisive (s !! k) \<Longrightarrow> \<exists>n \<le> k. first_decisive s n"
  unfolding first_decisive_def
  by (rule exI [of _ "LEAST n. decisive (s !! n)"])
    (auto intro: LeastI Least_le dest: not_less_Least)

lemma first_decisive_Suc:
  assumes "first_decisive s (Suc n)"
  shows "first_decisive (stl s) n" and "\<not> decisive (shd s)"
  using assms unfolding first_decisive_def
  by (auto dest: spec [where x = 0] spec [where x = "Suc m" for m])

lemma poll_read_at: "first_decisive s n \<Longrightarrow> poll_read filled s = Some (read_outcome filled (s !! n))"
proof (induction n arbitrary: s)
  case 0
  then show ?case by (subst poll_read_step) (simp add: first_decisive_def)
next
  case (Suc n)
  from first_decisive_Suc [OF this(2)] Suc.IH show ?case by (subst poll_read_step) simp
qed

lemma poll_write_at: "first_decisive s n \<Longrightarrow> poll_write s = Some (outcome (s !! n))"
proof (induction n arbitrary: s)
  case 0
  then show ?case by (subst poll_write_step) (simp add: first_decisive_def)
next
  case (Suc n)
  from first_decisive_Suc [OF this(2)] Suc.IH show ?case by (subst poll_write_step) simp
qed

lemma decisive_later: "\<exists>n. decisive (stl s !! n) \<Longrightarrow> \<exists>n. decisive (s !! n)"
  by (metis snth.simps(2))

lemma decisive_now: "decisive (shd s) \<Longrightarrow> \<exists>n. decisive (s !! n)"
  by (rule exI [of _ 0]) simp

lemma poll_read_some:
  assumes "poll_read filled s = Some r"
  shows "\<exists>n. decisive (s !! n)"
  using assms
proof (rule poll_read.raw_induct [rotated], goal_cases)
  case (1 rec filled s r)
  show ?case
  proof (cases "decisive (shd s)")
    case True
    then show ?thesis by (rule decisive_now)
  next
    case False
    with 1(2) have later: "rec filled (stl s) = Some r"
      by (cases "shd s" rule: decisive.cases) (simp_all add: try_io_def)
    show ?thesis by (rule decisive_later [OF 1(1) [OF later]])
  qed
qed

lemma poll_write_some:
  assumes "poll_write s = Some r"
  shows "\<exists>n. decisive (s !! n)"
  using assms
proof (rule poll_write.raw_induct [rotated], goal_cases)
  case (1 rec s r)
  show ?case
  proof (cases "decisive (shd s)")
    case True
    then show ?thesis by (rule decisive_now)
  next
    case False
    with 1(2) have later: "rec (stl s) = Some r"
      by (cases "shd s" rule: decisive.cases) (simp_all add: try_io_def)
    show ?thesis by (rule decisive_later [OF 1(1) [OF later]])
  qed
qed

lemma stdio_new_drop:
  assumes "fds k dup = None" and "stdio_new F dup fd k = (r, k')"
  shows "case r of
      Inl _ \<Rightarrow> k' = k
    | Inr s \<Rightarrow>
        (\<exists>x. fds k fd = Some x \<and> kinds k x \<noteq> OtherFile \<and>
           k' = k\<lparr>fds := (fds k)(dup \<mapsto> x), flags := (flags k)(x := flags k x OR O_NONBLOCK)\<rparr>) \<and>
        stdio_drop s k' = k"
  using assms
  by (auto simp: stdio_new_def fcntl_dup_def close_fd_def set_flags_def stdio_drop_def Let_def
      fun_upd_idem split: option.splits if_splits)

lemma nonblocking_twice: "(w OR O_NONBLOCK) OR O_NONBLOCK = w OR O_NONBLOCK"
  by (simp add: or.assoc)

text \<open>
  Opening both streams and dropping them again, the output first, as the code does.
\<close>

lemma stdio_restored:
  assumes fresh: "fds k d0 = None" "fds k d1 = None" "3 \<le> d0" "d0 \<noteq> d1"
    and run: "open_stdio F G d0 d1 k = (r, k')"
  shows "case r of
      Inl _ \<Rightarrow> k' = k
    | Inr s \<Rightarrow> close_stdio s k' = k \<and>
        (\<exists>x y. fds k 0 = Some x \<and> fds k 1 = Some y \<and>
           kinds k x \<noteq> OtherFile \<and> kinds k y \<noteq> OtherFile \<and>
           flags k' x = flags k x OR O_NONBLOCK \<and> flags k' y = flags k y OR O_NONBLOCK)"
proof -
  obtain r0 k0 where r0: "stdio_new F d0 0 k = (r0, k0)" by fastforce
  note first = stdio_new_drop [OF fresh(1) r0]
  show ?thesis
  proof (cases r0)
    case (Inl e)
    with first run r0 show ?thesis by (auto simp: open_stdio_def)
  next
    case i: (Inr i)
    obtain r1 k1 where r1: "stdio_new G d1 1 k0 = (r1, k1)" by fastforce
    from first i obtain x where x: "fds k 0 = Some x" "kinds k x \<noteq> OtherFile"
      and k0: "k0 = k\<lparr>fds := (fds k)(d0 \<mapsto> x), flags := (flags k)(x := flags k x OR O_NONBLOCK)\<rparr>"
      and drop0: "stdio_drop i k0 = k" by auto
    have "fds k0 d1 = None" using fresh k0 by simp
    note second = stdio_new_drop [OF this r1]
    show ?thesis
    proof (cases r1)
      case (Inl e)
      with second run r0 r1 i drop0 show ?thesis by (auto simp: open_stdio_def)
    next
      case out: (Inr out)
      from second out obtain y where y: "fds k0 1 = Some y" "kinds k0 y \<noteq> OtherFile"
        and k1: "k1 = k0\<lparr>fds := (fds k0)(d1 \<mapsto> y), flags := (flags k0)(y := flags k0 y OR O_NONBLOCK)\<rparr>"
        and drop1: "stdio_drop out k1 = k0" by auto
      have res: "r = Inr (i, out)" "k' = k1" using run r0 r1 i out by (auto simp: open_stdio_def)
      have "d0 \<noteq> 1" using fresh(3) by simp
      then have "fds k 1 = Some y" "kinds k y \<noteq> OtherFile" using y k0 by simp_all
      moreover have "flags k1 x = flags k x OR O_NONBLOCK" "flags k1 y = flags k y OR O_NONBLOCK"
        using k0 k1 by (simp_all add: nonblocking_twice)
      ultimately show ?thesis
        unfolding res using x drop0 drop1 by (simp add: close_stdio_def)
    qed
  qed
qed

definition demo_kernel :: kernel where
  "demo_kernel = \<lparr>fds = [0 \<mapsto> 7, 1 \<mapsto> 7], kinds = (\<lambda>_. Socket), flags = (\<lambda>_. 2)\<rparr>"

definition no_faults :: faults where
  "no_faults = \<lparr>dup_fails = None, stat_fails = None, getfl_fails = None, setfl_fails = None,
     register_fails = None\<rparr>"

text \<open>
  C37: the polling loops return exactly when the descriptor ever gives a decisive
  answer - not ready, a failed registration, a completed call or an error other than an
  interruption - and then they return the outcome of the first such answer: interrupted calls
  are repeated and spurious readiness is not reported. Bytes read are appended to the buffer,
  which nothing else changes.
\<close>

theorem polls_return_first_outcome:
  "(poll_read filled rs \<noteq> None \<longleftrightarrow> (\<exists>n. decisive (rs !! n))) \<and>
   (poll_write ws \<noteq> None \<longleftrightarrow> (\<exists>n. decisive (ws !! n))) \<and>
   (\<exists>n. decisive (rs !! n)) = (\<exists>n. first_decisive rs n \<and> poll_read filled rs = Some (read_outcome filled (rs !! n))) \<and>
   (\<exists>n. decisive (ws !! n)) = (\<exists>n. first_decisive ws n \<and> poll_write ws = Some (outcome (ws !! n)))"
proof (intro conjI iffI)
  show "\<exists>n. decisive (rs !! n)" if "poll_read filled rs \<noteq> None"
    using that poll_read_some by blast
  show "\<exists>n. decisive (ws !! n)" if "poll_write ws \<noteq> None"
    using that poll_write_some by blast
  show "\<exists>n. first_decisive rs n \<and> poll_read filled rs = Some (read_outcome filled (rs !! n))"
    if "\<exists>n. decisive (rs !! n)"
    using that first_decisive_exists poll_read_at by blast
  then show "poll_read filled rs \<noteq> None" if "\<exists>n. decisive (rs !! n)"
    using that by auto
  show "\<exists>n. first_decisive ws n \<and> poll_write ws = Some (outcome (ws !! n))"
    if "\<exists>n. decisive (ws !! n)"
    using that first_decisive_exists poll_write_at by blast
  then show "poll_write ws \<noteq> None" if "\<exists>n. decisive (ws !! n)"
    using that by auto
qed (auto simp: first_decisive_def)

end
