(* ===== verification/Program.thy ===== *)
theory Program
  imports ServeSafe Stdio
begin

text \<open>
  The entry point (\<^verbatim>\<open>src/main.rs\<close>): from the command line to the result of the session, with
  the descriptors it leaves behind; and what the result of a session says.

  The argument parser, the log and the start of the asynchronous runtime are libraries; a
  runtime that does not start is the parameter \<open>broken\<close>. The session is a run of the machine
  of \<open>Serving\<close>; one that is not over yet has no result.
\<close>

section \<open>The program\<close>

record args =
  dump_sdk :: bool
  enable_builds :: bool

text \<open>What is embedded into the executable.\<close>

record image =
  im_sdk :: bytes
  im_object :: bytes
  im_revision :: bytes
  im_supported :: bool

definition session_start :: "(bytes \<Rightarrow> bytes) \<Rightarrow> image \<Rightarrow> args \<Rightarrow> string \<Rightarrow> 'p server" where
  "session_start sha2 im a s =
     server_new s (builds_new sha2 [im_object im, im_sdk im, im_revision im] (enable_builds a))"

text \<open>The text printed, the result once there is one, and the descriptors.\<close>

definition main_run ::
    "'p outside \<Rightarrow> image \<Rightarrow> args \<Rightarrow> string option \<Rightarrow> faults \<Rightarrow> faults \<Rightarrow> int \<Rightarrow> int \<Rightarrow> string \<Rightarrow>
     serve_op list \<Rightarrow> kernel \<Rightarrow> bytes \<times> string option option \<times> kernel" where
  "main_run out im a broken F G d0 d1 s ops k =
     (if dump_sdk a then (im_sdk im, Some None, k)
      else if \<not> im_supported im
      then ([], Some (Some ''spinfoam requires Linux or macOS on x86_64 or aarch64''), k)
      else case broken of
          Some e \<Rightarrow> ([], Some (Some e), k)
        | None \<Rightarrow>
            (case open_stdio F G d0 d1 k of
               (Inl e, k) \<Rightarrow> ([], Some (Some e), k)
             | (Inr io, k) \<Rightarrow>
                 (case sr_phase (fold (serve_exec out) ops
                     (session_start (sha2_digest (o_engine out)) im a s)) of
                    Over x \<Rightarrow> ([], Some x, close_stdio io k)
                  | _ \<Rightarrow> ([], None, k))))"

section \<open>Where errors come from\<close>

fun op_errors :: "serve_op \<Rightarrow> string set" where
  "op_errors (Input (Inl e)) = {e}"
| "op_errors (Output _ (IoFail e)) = {e}"
| "op_errors _ = {}"

definition error_causes :: "serve_op list \<Rightarrow> string set" where
  "error_causes ops =
     {''EOF inside JSON frame'', ''frame exceeds limit'', ''write zero''} \<union> (\<Union>op \<in> set ops. op_errors op)"

definition session_result :: "string option \<Rightarrow> write_state \<Rightarrow> string option" where
  "session_result err w =
     (case err of Some e \<Rightarrow> Some e | None \<Rightarrow> (case w of WEnd x \<Rightarrow> x | _ \<Rightarrow> None))"

definition errs :: "string set \<Rightarrow> reader \<Rightarrow> string option \<Rightarrow> write_state \<Rightarrow> serve_phase \<Rightarrow> bool" where
  "errs E r err w ph \<longleftrightarrow>
     (\<forall>e. Inl e \<in> set r \<longrightarrow> e \<in> E) \<and> (\<forall>e. err = Some e \<longrightarrow> e \<in> E) \<and>
     (\<forall>e. w = WEnd (Some e) \<longrightarrow> e \<in> E) \<and> (\<forall>x. ph = Over x \<longrightarrow> x = session_result err w)"

abbreviation errors_in :: "string set \<Rightarrow> 'p server \<Rightarrow> bool" where
  "errors_in E st \<equiv> errs E (sr_input st) (sr_error st) (w_state (sr_writer st)) (sr_phase st)"

lemma frame_poll_errors:
  "frame_poll f r = (x, f', r') \<Longrightarrow>
   (\<forall>e. Inl e \<in> set r' \<longrightarrow> Inl e \<in> set r) \<and>
   (\<forall>e. x = Some (FrameError e) \<longrightarrow>
      Inl e \<in> set r \<or> e \<in> {''EOF inside JSON frame'', ''frame exceeds limit''})"
  by (induction f r arbitrary: x f' r' rule: frame_poll.induct)
    (auto simp: Let_def split: if_splits option.splits)

lemma errors_leave:
  "errors_in E st \<Longrightarrow> (\<forall>x. e = Some x \<longrightarrow> x \<in> E) \<Longrightarrow> errors_in E (leave e st)"
  by (cases e) (auto simp: leave_def errs_def)

lemma errors_select:
  assumes inv: "sr_inv enc st" and err: "errors_in E st" and ph: "sr_phase st = Serving"
    and E: "{''EOF inside JSON frame'', ''frame exceeds limit''} \<subseteq> E"
  shows "errors_in E (select_poll enc parse t i st)"
proof (cases "sv_shutdown (sr_service st) \<or> t \<or> i \<or> oclosed (sr_out st)")
  case True
  with errors_leave [OF err, of None] show ?thesis unfolding select_poll_def by (simp only: if_True simp_thms) simp
next
  case go: False
  show ?thesis
  proof (cases "sr_joinable st")
    case (Cons j js)
    with inv have "j = None" by (simp add: sr_inv_def)
    with go Cons err ph show ?thesis by (simp add: select_poll_def)
  next
    case Nil
    obtain x f r where p: "frame_poll (sr_partial st) (sr_input st) = (x, f, r)"
      by (cases "frame_poll (sr_partial st) (sr_input st)")
    note causes = frame_poll_errors [OF p]
    have base: "errors_in E (st\<lparr>sr_input := r\<rparr>)"
      using err causes ph by (auto simp: errs_def)
    show ?thesis
    proof (cases x)
      case None
      with go Nil p base show ?thesis by (simp add: select_poll_def)
    next
      case (Some y)
      show ?thesis
      proof (cases y)
        case (FrameBytes b)
        obtain c sv where "route enc parse b (sr_service st) = (c, sv)" by fastforce
        with go Nil p Some FrameBytes base errors_leave [of E "st\<lparr>sr_input := r, sr_partial := [], sr_service := sv\<rparr>" None]
        show ?thesis by (simp add: select_poll_def Let_def)
      next
        case EndOfInput
        with go Nil p Some errors_leave [OF base, of None] show ?thesis by (simp add: select_poll_def)
      next
        case (FrameError e)
        with causes Some E err have "e \<in> E" by (auto simp: errs_def)
        with go Nil p Some FrameError errors_leave [OF base, of "Some e"] show ?thesis
          by (simp add: select_poll_def)
      qed
    qed
  qed
qed

lemma errors_objects: "errors_in E st \<Longrightarrow> errors_in E (objects_poll enc ids st)"
  by (auto simp: objects_poll_def Let_def errs_def split: prod.split)

lemma errors_main:
  assumes inv: "sr_inv enc st" and err: "errors_in E st"
    and E: "{''EOF inside JSON frame'', ''frame exceeds limit''} \<subseteq> E"
  shows "errors_in E (main_poll enc parse t i l st)"
proof (cases "sr_phase st")
  case Serving
  with errors_select [OF inv err _ E] show ?thesis by (simp add: main_poll_def)
next
  case Leaving
  with err show ?thesis by (simp add: main_poll_def errs_def)
next
  case Joined
  with err show ?thesis by (auto simp: main_poll_def intro!: errors_objects split: prod.split)
next
  case (StopObjects ids)
  with err show ?thesis by (simp add: main_poll_def errors_objects)
next
  case Flushing
  have "w_state (sr_writer st) \<noteq> WPanic" using inv by (simp add: sr_inv_def serv_ok_def wr_inv_def wr_core_def)
  with Flushing err show ?thesis
    by (auto simp: main_poll_def flush_poll_def errs_def session_result_def
        split: write_state.splits option.splits)
next
  case (Over x)
  with err show ?thesis by (simp add: main_poll_def)
qed

lemma request_poll_same:
  "sr_input (request_poll e d env be enc wk q st) = sr_input st"
  "sr_error (request_poll e d env be enc wk q st) = sr_error st"
  "sr_writer (request_poll e d env be enc wk q st) = sr_writer st"
  "sr_phase (request_poll e d env be enc wk q st) = sr_phase st"
  by (simp_all add: request_poll_def answer_request_def task_over_def
      split: prod.split option.split stage.split bool.split)

lemma errors_writer:
  assumes "w_state w = WEnd (Some e) \<Longrightarrow> e \<in> E" "op_errors (Output pick x) \<subseteq> E" "''write zero'' \<in> E"
    and "w_state (fst (writer_step pick x w q)) = WEnd (Some e)"
  shows "e \<in> E"
  using assms
  by (auto simp: writer_step_def take_step_def wake_step_def write_step_def write_error_def flush_step_def
      split: write_state.splits next_result.splits prod.splits io.splits if_splits)

lemma errors_output:
  assumes err: "errors_in E st" and ok: "op_errors (Output pick x) \<subseteq> E" "''write zero'' \<in> E"
  shows "errors_in E (output_poll pick x st)"
proof (cases "\<exists>y. sr_phase st = Over y")
  case True
  with err show ?thesis by (auto simp: output_poll_def)
next
  case False
  obtain w q where s: "writer_step pick x (sr_writer st) (sr_out st) = (w, q)" by fastforce
  have "e \<in> E" if "w_state w = WEnd (Some e)" for e
    using errors_writer [of "sr_writer st" e E pick x "sr_out st"] err ok s that by (simp add: errs_def)
  with False err s show ?thesis
    by (cases "sr_phase st") (simp_all add: output_poll_def errs_def)
qed

lemma errors_exec:
  assumes "sr_inv (o_enc out) st" "errors_in E st" "op_errors op \<subseteq> E"
    and "{''EOF inside JSON frame'', ''frame exceeds limit'', ''write zero''} \<subseteq> E"
  shows "errors_in E (serve_exec out op st)"
proof (cases op)
  case (Input x)
  with assms show ?thesis by (cases x) (auto simp: errs_def)
next
  case (MainPoll t i l)
  with assms errors_main [OF assms(1,2)] show ?thesis by simp
next
  case (ReqPoll i wk)
  with assms(2) show ?thesis by (auto simp: request_poll_same split: option.split)
next
  case (Output pick x)
  with assms errors_output [OF assms(2)] show ?thesis by simp
qed (use assms(2) in \<open>simp_all add: errs_def\<close>)

text \<open>\<open>E\<close> is what the operations of a run may bring in.\<close>

abbreviation all_errors :: "string set \<Rightarrow> string set" where
  "all_errors E \<equiv> {''EOF inside JSON frame'', ''frame exceeds limit'', ''write zero''} \<union> E"

interpretation errors: guarded "\<lambda>st. st = server_new s b" "serve_exec out" "\<lambda>op. op_errors op \<subseteq> E"
  "\<lambda>st. sr_inv (o_enc out) st \<and> errors_in (all_errors E) st" for s b out E
proof unfold_locales
  show "sr_inv (o_enc out) st \<and> errors_in (all_errors E) st" if "st = server_new s b" for st
    using that sr_inv_new [of "o_enc out" s b] by (simp add: errs_def server_new_def writer_new_def)
  show "sr_inv (o_enc out) (serve_exec out op st) \<and> errors_in (all_errors E) (serve_exec out op st)"
    if "sr_inv (o_enc out) st \<and> errors_in (all_errors E) st" "op_errors op \<subseteq> E" for op st
    using that errors_exec [of out st "all_errors E" op] sr.exec_inv [of out st op] by auto
qed

section \<open>The output as the client sees it\<close>

definition one_line :: "encoder \<Rightarrow> bool" where
  "one_line enc \<longleftrightarrow> (\<forall>v s. enc v = Inr s \<longrightarrow> newline \<notin> set s)"

lemma frames_wire:
  assumes "one_line enc" "list_all (frame_of enc) fs"
  shows "\<exists>vs. fs = wire enc vs \<and> (\<forall>v \<in> set vs. printable enc v)"
  using assms(2)
proof (induction fs)
  case (Cons b fs)
  then obtain vs where vs: "fs = wire enc vs" "\<forall>v \<in> set vs. printable enc v" by auto
  from Cons.prems obtain v where v: "encode enc v = Some b" by (auto simp: frame_of_def)
  then have "printable enc v"
    using assms(1) by (auto simp: printable_def encode_def one_line_def split: sum.splits if_splits)
  with vs v show ?case by (intro exI [of _ "v # vs"]) (simp add: wire_def)
qed (simp add: wire_def)

section \<open>Properties\<close>




definition demo_image :: image where
  "demo_image = \<lparr>im_sdk = ''sdk'', im_object = ''elf'', im_revision = ''7'', im_supported = True\<rparr>"


text \<open>
  C9: the client can read everything the program writes. In every reachable state, unless the
  output has failed, what was written together with the rest of the frame being written is
  the concatenation of encodings of JSON values, and a client that splits it like the program
  splits its input, however the bytes arrive, reads exactly these frames, in order, each
  within the limit, and then the end. (The printer puts no raw newline into a value.)
\<close>

theorem client_reads_output:
  assumes "one_line (o_enc out)" and st: "st = srun out s b ops"
    and works: "\<nexists>e. w_state (sr_writer st) = WEnd (Some e)"
    and r: "chunks_ok r" "remaining r = w_sent (sr_writer st) @ unwritten (sr_writer st)"
  shows "\<exists>vs. remaining r = concat (wire (o_enc out) vs) \<and>
    all_frames (length vs) r = (wire (o_enc out) vs, EndOfInput) \<and>
    (\<forall>f \<in> set (wire (o_enc out) vs). length f \<le> MAX_FRAME)"
proof -
  have "sent_ok (o_enc out) (sr_writer st)"
    using srun_ok [of out ops s b] st by (simp add: serv_ok_def wr_inv_def)
  with works r(2) obtain fs where fs: "list_all (frame_of (o_enc out)) fs" "remaining r = concat fs"
    by (auto simp: sent_ok_def)
  from frames_wire [OF assms(1) fs(1)] obtain vs where
    vs: "fs = wire (o_enc out) vs" "\<forall>v \<in> set vs. printable (o_enc out) v" by blast
  moreover have "length (the (encode (o_enc out) v)) \<le> MAX_FRAME" if "v \<in> set vs" for v
    using vs(2) that by (auto simp: printable_def encode_def)
  ultimately show ?thesis
    using all_frames_wire [OF r(1) _ vs(2)] fs(2)
    by (intro exI [of _ vs]) (auto simp: wire_def)
qed

theorem client_reads_output_witness:
  "\<exists>vs. [CHR ''{'', CHR ''}'', newline] = concat (wire tiny_enc vs) \<and>
     all_frames (length vs) [Inr ''{'', Inr ([CHR ''}'', newline])] = (wire tiny_enc vs, EndOfInput)"
proof -
  let ?st = "srun demo_outside ''s'' b [Input (Inr (''x'' @ [newline])), main_runs, Output False IoPending,
     Output False (IoDone 2), Output False (IoDone 1)]"
  let ?r = "[Inr ''{'', Inr ([CHR ''}'', newline])]"
  have law: "one_line (o_enc demo_outside)"
    by (simp add: one_line_def demo_outside_def tiny_enc_def newline_def)
  have w: "w_state (sr_writer ?st) = WWrite []" "w_sent (sr_writer ?st) = ''{}'' @ [newline]"
    by (simp_all add: serve_eval writer_eval Let_def)
  have r: "chunks_ok ?r" "remaining ?r = w_sent (sr_writer ?st) @ unwritten (sr_writer ?st)"
    using w by (simp_all add: chunks_ok_def remaining_def unwritten_def)
  have "\<nexists>e. w_state (sr_writer ?st) = WEnd (Some e)" using w by simp
  from client_reads_output [OF law refl this r] show ?thesis
    by (auto simp: remaining_def demo_outside_def)
qed

end
