(* ===== verification/Replies.thy ===== *)
theory Replies
  imports ServeSafe
begin

text \<open>
  The replies of the control protocol: every error is one of the kinds \<^verbatim>\<open>docs/PROTOCOL.md\<close>
  lists, with its code and a bounded message, whichever method made it.
\<close>

section \<open>The documented errors\<close>

definition ERROR_KINDS :: "(int \<times> string) list" where
  "ERROR_KINDS =
     [(- 32602, ''INVALID_PARAMS''), (- 32601, ''METHOD_NOT_FOUND''), (- 32000, ''NOT_INITIALIZED''),
      (- 32001, ''BUSY''), (- 32002, ''MAILBOX_FULL''), (- 32004, ''OBJECT_NOT_FOUND''),
      (- 32010, ''INVALID_OBJECT''), (- 32020, ''SANDBOX_UNAVAILABLE'')]"

definition documented :: "rpc_error \<Rightarrow> bool" where
  "documented e \<longleftrightarrow> (\<exists>c k m. e = rpc_error_new c k m \<and> (c, k) \<in> set ERROR_KINDS)"

lemma documented_new: "(c, k) \<in> set ERROR_KINDS \<Longrightarrow> documented (rpc_error_new c k m)"
  unfolding documented_def by blast

lemma documented_errors [simp]:
  "documented (rpc_params m)" "documented (rpc_busy m)" "documented rpc_missing" "documented not_initialized"
  "documented (rpc_error_new (- 32601) ''METHOD_NOT_FOUND'' m)"
  "documented (rpc_error_new (- 32002) ''MAILBOX_FULL'' m)"
  "documented (rpc_error_new (- 32010) ''INVALID_OBJECT'' m)"
  "documented (rpc_error_new (- 32020) ''SANDBOX_UNAVAILABLE'' m)"
  unfolding rpc_params_def rpc_busy_def rpc_missing_def not_initialized_def
  by (rule documented_new, simp add: ERROR_KINDS_def)+

section \<open>What the operations answer\<close>

lemma decode_documented: "decode d v = Inl e \<Longrightarrow> documented e"
  by (auto simp: decode_def split: sum.splits)

lemma get_documented: "runtime_get i r = Inl e \<Longrightarrow> documented e"
  by (auto simp: runtime_get_def split: option.splits)

lemma validate_documented: "validate req = Inl e \<Longrightarrow> documented e"
  by (auto simp: validate_def split: if_splits)

lemma begin_documented: "compile_begin dec params b = Inl e \<Longrightarrow> documented e"
  by (auto simp: compile_begin_def validate_documented split: sum.splits option.splits)

lemma load_documented:
  "load_begin enc elf config caps r = (Inl e, r') \<Longrightarrow> documented e"
  "load_finish eng k r = (Inl e, r') \<Longrightarrow> documented e"
  by (auto simp: load_begin_def load_finish_def Let_def split: if_splits option.splits prod.splits sum.splits)

lemma deliver_documented: "mailbox_deliver enc v m = (Inl e, m') \<Longrightarrow> documented e"
  by (auto simp: mailbox_deliver_def Let_def split: option.splits if_splits sum.splits)

lemma runtime_documented:
  "runtime_deliver enc i v r = (Inl e, r') \<Longrightarrow> documented e"
  "runtime_start i r = (Some (Inl e), r') \<Longrightarrow> documented e"
  "runtime_stop_poll enc i u r = (Done (Inl e), r') \<Longrightarrow> documented e"
  "runtime_stop enc i u r = (Done (Inl e), r') \<Longrightarrow> documented e"
proof -
  show "runtime_deliver enc i v r = (Inl e, r') \<Longrightarrow> documented e"
    by (auto simp: runtime_deliver_def object_deliver_def dest: get_documented deliver_documented
        split: sum.splits if_splits prod.splits)
  show "runtime_start i r = (Some (Inl e), r') \<Longrightarrow> documented e"
    by (auto simp: runtime_start_def Let_def dest: get_documented split: sum.splits if_splits option.splits)
  show stop: "runtime_stop_poll enc i u r = (Done (Inl e), r') \<Longrightarrow> documented e"
    by (auto simp: runtime_stop_poll_def Let_def split: prod.splits bool.splits if_splits option.splits)
  show "runtime_stop enc i u r = (Done (Inl e), r') \<Longrightarrow> documented e"
    by (auto simp: runtime_stop_def dest: get_documented stop split: sum.splits if_splits)
qed

lemma methods_documented:
  "method_load d enc params r = (Answer (Inl e), r') \<Longrightarrow> documented e"
  "method_start d params r = (Answer (Inl e), r') \<Longrightarrow> documented e"
  "method_stop d enc u params r = (Answer (Inl e), r') \<Longrightarrow> documented e"
  "method_get d params r = (Answer (Inl e), r') \<Longrightarrow> documented e"
  "method_list d params r = (Answer (Inl e), r') \<Longrightarrow> documented e"
  "method_deliver d enc params r = (Answer (Inl e), r') \<Longrightarrow> documented e"
proof -
  show "method_load d enc params r = (Answer (Inl e), r') \<Longrightarrow> documented e"
    by (auto simp: method_load_def dest: decode_documented load_documented(1) split: sum.splits prod.splits)
  show "method_start d params r = (Answer (Inl e), r') \<Longrightarrow> documented e"
      by (auto simp: method_start_def dest: decode_documented runtime_documented(2) split: sum.splits prod.splits option.splits)
  show "method_stop d enc u params r = (Answer (Inl e), r') \<Longrightarrow> documented e"
      by (auto simp: method_stop_def dest: decode_documented runtime_documented(4) split: sum.splits prod.splits poll.splits)
  show "method_get d params r = (Answer (Inl e), r') \<Longrightarrow> documented e"
    by (auto simp: method_get_def dest: decode_documented get_documented split: sum.splits)
  show "method_list d params r = (Answer (Inl e), r') \<Longrightarrow> documented e"
    by (auto simp: method_list_def dest: decode_documented split: sum.splits if_splits)
  show "method_deliver d enc params r = (Answer (Inl e), r') \<Longrightarrow> documented e"
      by (auto simp: method_deliver_def dest: decode_documented runtime_documented(1) split: sum.splits prod.splits if_splits)
qed

lemma dispatch_documented: "dispatch d env enc meth params r = (Answer (Inl e), r') \<Longrightarrow> documented e"
proof -
  have "empty_params params = Inl e \<Longrightarrow> documented e" for e
    by (auto simp: empty_params_def split: if_splits)
  then show "dispatch d env enc meth params r = (Answer (Inl e), r') \<Longrightarrow> documented e"
    unfolding dispatch_def by (auto dest: methods_documented split: if_splits sum.splits)
qed

lemma handle_documented: "service_handle d env enc meth params sv = (Answer (Inl e), sv') \<Longrightarrow> documented e"
  by (auto simp: service_handle_def dest: decode_documented dispatch_documented split: if_splits sum.splits prod.splits)

lemma start_documented:
  "start_request d env be enc q st = (Some (Answering (Inl e)), sv) \<Longrightarrow> documented e"
  by (auto simp: start_request_def dest: begin_documented handle_documented split: prod.splits method_step.splits sum.splits)

lemma advance_documented:
  assumes "advance_request eng be enc wk sg st = (Answering (Inl e), sv)" "\<forall>x. sg \<noteq> Answering (Inl x)"
  shows "documented e"
  using assms
  by (auto simp: advance_request_def Let_def dest: load_documented(2) runtime_documented(3) split: stage.splits wake.splits if_splits prod.splits poll.splits)

section \<open>Running requests\<close>

text \<open>What a poll of a request task is about to answer.\<close>

definition request_answer ::
    "'p engine \<Rightarrow> decoders \<Rightarrow> surroundings \<Rightarrow> build_env \<Rightarrow> encoder \<Rightarrow> wake \<Rightarrow> request \<Rightarrow>
     'p server \<Rightarrow> rpc_result option" where
  "request_answer eng d env be enc wk q st =
     (case (case sr_stage st (rq_id q) of
              NotPolled \<Rightarrow> fst (start_request d env be enc q st)
            | sg \<Rightarrow> Some (fst (advance_request eng be enc wk sg st))) of
        Some (Answering res) \<Rightarrow> Some res
      | _ \<Rightarrow> None)"

definition stages_ok :: "'p server \<Rightarrow> bool" where
  "stages_ok st \<longleftrightarrow> (\<forall>i e. sr_stage st i = Answering (Inl e) \<longrightarrow> documented e)"

lemma answer_documented:
  assumes "stages_ok st" "request_answer eng d env be enc wk q st = Some (Inl e)"
  shows "documented e"
proof (cases "sr_stage st (rq_id q) = NotPolled")
  case True
  obtain x sv where "start_request d env be enc q st = (x, sv)" by fastforce
  with True assms(2) start_documented [of d env be enc q st e sv] show ?thesis
    by (auto simp: request_answer_def split: option.splits stage.splits)
next
  case False
  obtain sg sv where a: "advance_request eng be enc wk (sr_stage st (rq_id q)) st = (sg, sv)" by fastforce
  with False assms(2) have sg: "sg = Answering (Inl e)"
    by (cases "sr_stage st (rq_id q)") (auto simp: request_answer_def split: stage.splits)
  show ?thesis
  proof (cases "\<exists>x. sr_stage st (rq_id q) = Answering (Inl x)")
    case True
    then obtain x where x: "sr_stage st (rq_id q) = Answering (Inl x)" ..
    with a sg have "x = e" by (simp add: advance_request_def)
    with x assms(1) show ?thesis by (simp add: stages_ok_def)
  next
    case no: False
    with a sg show ?thesis by (intro advance_documented [of eng be enc wk _ st e sv]) auto
  qed
qed

lemma stages_request:
  assumes ok: "stages_ok st"
  shows "stages_ok (request_poll eng d env be enc wk q st)"
proof -
  have "sr_stage (request_poll eng d env be enc wk q st) i = sr_stage st i \<or>
      (i = rq_id q \<and> (\<forall>e. sr_stage (request_poll eng d env be enc wk q st) i = Answering (Inl e) \<longrightarrow>
        request_answer eng d env be enc wk q st = Some (Inl e)))" for i
    by (cases "sr_stage st (rq_id q) = NotPolled")
      (auto simp: request_poll_def request_answer_def answer_request_def task_over_def
        split: prod.split option.split stage.splits bool.split)
  with ok answer_documented [OF ok] show ?thesis
    unfolding stages_ok_def by metis
qed

lemma stages_objects [simp]: "sr_stage (objects_poll enc ids st) = sr_stage st"
  by (simp add: objects_poll_def Let_def split: prod.split)

lemma stages_main: "stages_ok st \<Longrightarrow> stages_ok (main_poll enc parse t i l st)"
proof -
  assume ok: "stages_ok st"
  have "sr_stage (select_poll enc parse t i st) = sr_stage st"
    by (simp add: select_poll_def leave_def Let_def split: option.split list.split frame_result.split prod.split)
  then show ?thesis
    using ok by (cases "sr_phase st")
      (auto simp: stages_ok_def main_poll_def flush_poll_def split: prod.split write_state.split option.split)
qed

lemma stages_exec: "stages_ok st \<Longrightarrow> stages_ok (serve_exec out op st)"
proof (cases op)
  case (ReqPoll i wk)
  assume "stages_ok st"
  with ReqPoll show ?thesis by (simp add: stages_request split: option.split)
next
  case (Output pick x)
  assume "stages_ok st"
  with Output show ?thesis by (simp add: output_poll_def stages_ok_def split: serve_phase.split prod.split)
qed (simp_all add: stages_main, simp_all add: stages_ok_def)

interpretation stages: machine "\<lambda>st. st = server_new s b" "serve_exec out" stages_ok for s b out
  by unfold_locales (simp_all add: stages_exec, simp add: stages_ok_def server_new_def)

text \<open>The shape of a reply.\<close>

definition documented_error :: "json \<Rightarrow> bool" where
  "documented_error v \<longleftrightarrow>
     (\<exists>(c, k) \<in> set ERROR_KINDS. \<exists>m. length m \<le> 4096 \<and> vget v ''code'' = Some (jint c) \<and>
        vget v ''message'' = Some (String m) \<and> vget v ''data'' = Some (jobj [(''kind'', String k)]))"

definition reply_ok :: "string \<Rightarrow> json \<Rightarrow> bool" where
  "reply_ok i v \<longleftrightarrow>
     vget v ''jsonrpc'' = Some (String ''2.0'') \<and> vget v ''id'' = Some (String i) \<and>
     (case vget v ''error'' of
        None \<Rightarrow> vget v ''result'' \<noteq> None
      | Some e \<Rightarrow> vget v ''result'' = None \<and> documented_error e)"

lemma documented_value: "documented e \<Longrightarrow> documented_error (error_value e)"
proof -
  assume "documented e"
  then obtain c k m where e: "e = rpc_error_new c k m" "(c, k) \<in> set ERROR_KINDS"
    by (auto simp: documented_def)
  have "length (emessage e) \<le> 4096" by (simp add: e rpc_error_new_message truncate_length)
  moreover have "ecode e = c" "edata e = jobj [(''kind'', String k)]"
    by (simp_all add: e rpc_error_new_def Let_def)
  ultimately show ?thesis
    using e(2) unfolding documented_error_def by (intro bexI [of _ "(c, k)"]) (auto simp: error_value_def vget_jobj)
qed

text \<open>
  Every reply to a request is well formed. Whenever the task of a request is about to
  answer, in whatever state of the program and with whatever method, parameters and build, the
  reply has the protocol's version and the identifier of its request, and either a result or
  an error, not both; an error has one of the documented codes with its kind, and a message of
  at most 4096 bytes.
\<close>

lemma replies_well_formed:
  assumes st: "st = srun out s b ops"
    and ans: "request_answer (o_engine out) (o_decoders out) (o_env out) (o_build out) (o_enc out) wk q st
      = Some res"
  shows "reply_ok (rq_id q) (response (String (rq_id q)) res)"
proof (cases res)
  case (Inl e)
  have "stages_ok st" unfolding st by (rule stages.reach_inv) (rule refl)
  from answer_documented [OF this] ans Inl have "documented e" by blast
  from documented_value [OF this] Inl show ?thesis by (simp add: reply_ok_def response_def vget_jobj)
qed (simp add: reply_ok_def response_def vget_jobj)

lemma replies_well_formed_witness:
  "reply_ok ''a'' (response (String ''a'') (Inl not_initialized))"
proof -
  let ?q = "small_request ''a''"
  have "request_answer demo_engine demo_decoders demo_surroundings
      \<lparr>bd_decode = (\<lambda>_. Inl ''no''), bd_base64 = id\<rparr> tiny_enc NotReady ?q
      (srun demo_outside ''s'' b []) = Some (Inl not_initialized)"
    by (simp add: request_answer_def server_new_def start_request_def service_handle_def
        small_request_def)
  then have "request_answer (o_engine demo_outside) (o_decoders demo_outside) (o_env demo_outside)
      (o_build demo_outside) (o_enc demo_outside) NotReady ?q (srun demo_outside ''s'' b [])
      = Some (Inl not_initialized)"
    by (simp add: demo_outside_def)
  from replies_well_formed [OF refl this] show ?thesis by (simp add: small_request_def)
qed

end
