(* ===== verification/Helpers.thy ===== *)
theory Helpers
  imports Guest
begin

text \<open>
  The helpers a guest may call (\<^verbatim>\<open>src/helpers.rs\<close>), one definition per function in the
  file's order, the completions of the asynchronous ones, and the table that exports them.
  A target with 64-bit \<^verbatim>\<open>usize\<close> is assumed: the conversions from \<^verbatim>\<open>u64\<close> succeed.
\<close>

section \<open>Time, events and the host\<close>

definition h_sleep :: "'m helper" where
  "h_sleep e w ms r2 r3 r4 r5 =
     ctx w (\<lambda>c. Post (SleepTask (timeout_ms ms)) (wait_for ''timer'' w))"

definition complete_sleep :: "'m hworld \<Rightarrow> 'm hres" where
  "complete_sleep w = Ret 0 (wait_over w)"

definition h_yield :: "'m helper" where
  "h_yield e w r1 r2 r3 r4 r5 = Post YieldTask w"

definition complete_yield :: "'m hworld \<Rightarrow> 'm hres" where
  "complete_yield w = Ret 0 w"

definition h_mono :: "'m helper" where
  "h_mono e w r1 r2 r3 r4 r5 =
     ctx w (\<lambda>c. Ret (of_nat ((now_ns e - gstarted c) div 1000000)) w)"

definition h_unix :: "'m helper" where
  "h_unix e w r1 r2 r3 r4 r5 = Ret (of_nat (nat (unix_ns e) div 1000000)) w"

definition h_config :: "'m helper" where
  "h_config e w r1 r2 r3 r4 r5 = ctx w (\<lambda>c. insert_handle (Json (gconfig c)) c w)"

definition h_drop :: "'m helper" where
  "h_drop e w h r2 r3 r4 r5 = ctx w (\<lambda>c.
     case map_of (handles c) h of
       Some _ \<Rightarrow> Ret 0 (w\<lparr>wguest := Some (c\<lparr>handles := AList.delete h (handles c)\<rparr>)\<rparr>)
     | None \<Rightarrow> Ret (status INVALID) w)"

definition h_event :: "'m helper" where
  "h_event e w ms r2 r3 r4 r5 =
     ctx w (\<lambda>c. Post (EventTask (timeout_ms ms)) (wait_for ''event'' w))"

text \<open>\<open>None\<close> when the wait timed out, otherwise what \<open>mailbox_receive\<close> gave.\<close>

definition complete_event :: "json option \<Rightarrow> 'm hworld \<Rightarrow> 'm hres" where
  "complete_event result w = (let w = wait_over w in ctx w (\<lambda>c.
     case result of
       Some v \<Rightarrow> insert_handle (Json v) c w
     | None \<Rightarrow> Ret (status TIMEOUT) w))"

definition grants :: "capability \<Rightarrow> string \<Rightarrow> json \<Rightarrow> bool" where
  "grants cap capability args \<longleftrightarrow>
     cap_name cap = capability \<and>
     list_all (\<lambda>(k, v). case vget args k of Some x \<Rightarrow> value_eq x v | None \<Rightarrow> False)
       (cap_arguments cap)"

definition h_call :: "'m helper" where
  "h_call e w p n h ms r5 = with_text e w p n (\<lambda>capability. ctx w (\<lambda>c.
     case json_of c h of
       None \<Rightarrow> Ret (status INVALID) w
     | Some args \<Rightarrow>
         if \<not> list_ex (\<lambda>cap. grants cap capability args) (capabilities c)
         then Ret (status DENIED) w
         else Post (CallTask (gid c) capability args (timeout_ms ms))
           (wait_for ''host_rpc'' w)))"

text \<open>The result is the one \<open>host.call\<close> returned: a status code or a value.\<close>

definition complete_call :: "int + json \<Rightarrow> 'm hworld \<Rightarrow> 'm hres" where
  "complete_call result w = (let w = wait_over w in ctx w (\<lambda>c.
     case result of
       Inr v \<Rightarrow> insert_handle (Json v) c w
     | Inl x \<Rightarrow> Ret (status x) w))"

definition log_frame :: "string \<Rightarrow> string \<Rightarrow> json" where
  "log_frame i message =
     jobj [(''jsonrpc'', String ''2.0''), (''method'', String ''sf.log''),
       (''params'', jobj [(''object_id'', String i), (''message'', String message)])]"

definition h_log :: "'m helper" where
  "h_log e w p n r3 r4 r5 =
     (if 1024 < n then Ret (status LIMIT) w
      else with_text e w p n (\<lambda>message. ctx w (\<lambda>c.
        let c = (if 1000000000 \<le> now_ns e - log_window c
                 then c\<lparr>log_window := now_ns e, logs := 0\<rparr> else c)
        in if 10 \<le> logs c then Ret (status LIMIT) (w\<lparr>wguest := Some c\<rparr>)
           else let c = c\<lparr>logs := logs c + 1\<rparr>;
                    (ok, q) = try_data (to_vec e) (gid c) (log_frame (gid c) message) (hout w)
                in Ret (if ok then 0 else status LIMIT) (w\<lparr>wguest := Some c, hout := q\<rparr>))))"

section \<open>JSON values\<close>

definition h_parse :: "'m helper" where
  "h_parse e w p n r3 r4 r5 =
     (if of_nat MAX_VALUE_BYTES < n then Ret (status LIMIT) w
      else with_text e w p n (\<lambda>input.
        case from_str e input of
          Inl _ \<Rightarrow> Ret (status INVALID) w
        | Inr v \<Rightarrow>
            if \<not> valid_value (to_vec e) v then Ret (status LIMIT) w
            else ctx w (\<lambda>c. insert_handle (Json v) c w)))"

definition h_get :: "'m helper" where
  "h_get e w h p n r4 r5 = with_text e w p n (\<lambda>key. ctx w (\<lambda>c.
     case Option.bind (json_of c h) (\<lambda>v. vget v key) of
       Some v \<Rightarrow> insert_handle (Json v) c w
     | None \<Rightarrow> Ret (status INVALID) w))"

definition h_at :: "'m helper" where
  "h_at e w h i r3 r4 r5 = ctx w (\<lambda>c.
     case Option.bind (json_of c h) (\<lambda>v. vat v (unat i)) of
       Some v \<Rightarrow> insert_handle (Json v) c w
     | None \<Rightarrow> Ret (status INVALID) w)"

definition h_kind :: "'m helper" where
  "h_kind e w h r2 r3 r4 r5 = ctx w (\<lambda>c. Ret
     (case json_of c h of
        Some Null \<Rightarrow> 0
      | Some (Bool _) \<Rightarrow> 1
      | Some (Number _) \<Rightarrow> 2
      | Some (String _) \<Rightarrow> 3
      | Some (Array _) \<Rightarrow> 4
      | Some (Object _) \<Rightarrow> 5
      | None \<Rightarrow> status INVALID) w)"

definition le_bytes :: "u64 \<Rightarrow> bytes" where
  "le_bytes v = map (\<lambda>i. char_of (unat (drop_bit (8 * i) v))) [0..<8]"

definition h_i64 :: "'m helper" where
  "h_i64 e w h p r3 r4 r5 = ctx w (\<lambda>c.
     case Option.bind (json_of c h) as_i64 of
       None \<Rightarrow> Ret (status INVALID) w
     | Some v \<Rightarrow> (case user_memory_mut e (mem w) p 8 of
           None \<Rightarrow> Fault
         | Some store \<Rightarrow> Ret 0 (w\<lparr>mem := store (le_bytes v)\<rparr>)))"

definition h_bool :: "'m helper" where
  "h_bool e w h r2 r3 r4 r5 = ctx w (\<lambda>c. Ret
     (case Option.bind (json_of c h) as_bool of
        Some v \<Rightarrow> of_bool v
      | None \<Rightarrow> status INVALID) w)"

definition h_string_read :: "'m helper" where
  "h_string_read e w h p n r4 r5 = ctx w (\<lambda>c.
     case Option.bind (json_of c h) as_str of
       None \<Rightarrow> Ret (status INVALID) w
     | Some v \<Rightarrow>
         if of_nat MAX_VALUE_BYTES < n then Ret (status LIMIT) w
         else (case user_memory_mut e (mem w) p n of
             None \<Rightarrow> Fault
           | Some store \<Rightarrow>
               Ret (of_nat (length v))
                 (w\<lparr>mem := store (take (min (unat n) (length v)) v)\<rparr>)))"

definition h_equals :: "'m helper" where
  "h_equals e w h kp kn vp vn =
     with_text e w kp kn (\<lambda>key. with_text e w vp vn (\<lambda>val. ctx w (\<lambda>c. Ret
       (case Option.bind (Option.bind (json_of c h) (\<lambda>v. vget v key)) as_str of
          Some v \<Rightarrow> of_bool (v = val)
        | None \<Rightarrow> status INVALID) w)))"

definition h_object :: "'m helper" where
  "h_object e w r1 r2 r3 r4 r5 = ctx w (\<lambda>c. insert_handle (Json (Object [])) c w)"

definition h_array :: "'m helper" where
  "h_array e w r1 r2 r3 r4 r5 = ctx w (\<lambda>c. insert_handle (Json (Array [])) c w)"

definition h_null :: "'m helper" where
  "h_null e w r1 r2 r3 r4 r5 = ctx w (\<lambda>c. insert_handle (Json Null) c w)"

definition h_string :: "'m helper" where
  "h_string e w p n r3 r4 r5 = with_text e w p n (\<lambda>s.
     if \<not> valid_value (to_vec e) (String s) then Ret (status LIMIT) w
     else ctx w (\<lambda>c. insert_handle (Json (String s)) c w))"

definition h_number :: "'m helper" where
  "h_number e w n r2 r3 r4 r5 = ctx w (\<lambda>c. insert_handle (Json (jint (sint n))) c w)"

definition h_boolean :: "'m helper" where
  "h_boolean e w n r2 r3 r4 r5 = ctx w (\<lambda>c. insert_handle (Json (Bool (n \<noteq> 0))) c w)"

definition replace_handle :: "u64 \<Rightarrow> handle \<Rightarrow> guest \<Rightarrow> 'm hworld \<Rightarrow> 'm hworld" where
  "replace_handle h v c w = w\<lparr>wguest := Some (c\<lparr>handles := AList.update h v (handles c)\<rparr>)\<rparr>"

definition h_set :: "'m helper" where
  "h_set e w h p n v r5 = with_text e w p n (\<lambda>key. ctx w (\<lambda>c.
     case json_of c v of
       None \<Rightarrow> Ret (status INVALID) w
     | Some x \<Rightarrow> (case json_of c h of
           Some (Object m) \<Rightarrow>
             let target = Object (bt_insert key x m) in
             if \<not> valid_value (to_vec e) target then Ret (status LIMIT) w
             else Ret 0 (replace_handle h (Json target) c w)
         | _ \<Rightarrow> Ret (status INVALID) w)))"

definition h_push :: "'m helper" where
  "h_push e w h v r3 r4 r5 = ctx w (\<lambda>c.
     case json_of c v of
       None \<Rightarrow> Ret (status INVALID) w
     | Some x \<Rightarrow> (case json_of c h of
           Some (Array a) \<Rightarrow>
             let target = Array (a @ [x]) in
             if \<not> valid_value (to_vec e) target then Ret (status LIMIT) w
             else Ret 0 (replace_handle h (Json target) c w)
         | _ \<Rightarrow> Ret (status INVALID) w))"

section \<open>Bytes and memory\<close>

definition h_dump :: "'m helper" where
  "h_dump e w h r2 r3 r4 r5 = ctx w (\<lambda>c.
     case json_of c h of
       None \<Rightarrow> Ret (status INVALID) w
     | Some v \<Rightarrow> (case to_vec e v of
           Inr b \<Rightarrow> insert_handle (Bytes b) c w
         | Inl _ \<Rightarrow> Ret (status INVALID) w))"

definition h_bytes :: "'m helper" where
  "h_bytes e w p n r3 r4 r5 =
     (if of_nat MAX_VALUE_BYTES < n then Ret (status LIMIT) w
      else case user_memory e (mem w) p n of
          None \<Rightarrow> Fault
        | Some b \<Rightarrow> ctx w (\<lambda>c. insert_handle (Bytes b) c w))"

definition h_len :: "'m helper" where
  "h_len e w h r2 r3 r4 r5 = ctx w (\<lambda>c. Ret
     (case map_of (handles c) h of
        Some (Bytes b) \<Rightarrow> of_nat (length b)
      | Some (Json (String v)) \<Rightarrow> of_nat (length v)
      | Some (Json (Array v)) \<Rightarrow> of_nat (length v)
      | Some (Json (Object v)) \<Rightarrow> of_nat (length v)
      | _ \<Rightarrow> status INVALID) w)"

definition h_read :: "'m helper" where
  "h_read e w h offset p n r5 =
     (if of_nat MAX_VALUE_BYTES < n then Ret (status LIMIT) w
      else ctx w (\<lambda>c. case map_of (handles c) h of
          Some (Bytes b) \<Rightarrow>
            if length b < unat offset then Ret (status INVALID) w
            else let len = min (unat n) (length b - unat offset) in
              (case user_memory_mut e (mem w) p (of_nat len) of
                 None \<Rightarrow> Fault
               | Some store \<Rightarrow>
                   Ret (of_nat len) (w\<lparr>mem := store (take len (drop (unat offset) b))\<rparr>))
        | _ \<Rightarrow> Ret (status INVALID) w))"

definition h_memcpy :: "'m helper" where
  "h_memcpy e w d p n r4 r5 =
     (if of_nat MAX_VALUE_BYTES < n then Fault
      else case user_memory e (mem w) p n of
          None \<Rightarrow> Fault
        | Some b \<Rightarrow> (case user_memory_mut e (mem w) d n of
              None \<Rightarrow> Fault
            | Some store \<Rightarrow> Ret d (w\<lparr>mem := store b\<rparr>)))"

definition h_memset :: "'m helper" where
  "h_memset e w p v n r4 r5 =
     (if of_nat MAX_VALUE_BYTES < n then Fault
      else case user_memory_mut e (mem w) p n of
          None \<Rightarrow> Fault
        | Some store \<Rightarrow> Ret p (w\<lparr>mem := store (replicate (unat n) (char_of (unat v)))\<rparr>))"

text \<open>\<^verbatim>\<open>cmp\<close> on byte slices.\<close>

fun bytes_cmp :: "bytes \<Rightarrow> bytes \<Rightarrow> int" where
  "bytes_cmp [] [] = 0"
| "bytes_cmp [] (_ # _) = - 1"
| "bytes_cmp (_ # _) [] = 1"
| "bytes_cmp (x # xs) (y # ys) =
     (if byte x < byte y then - 1 else if byte y < byte x then 1 else bytes_cmp xs ys)"

definition h_memcmp :: "'m helper" where
  "h_memcmp e w a b n r4 r5 =
     (if of_nat MAX_VALUE_BYTES < n then Fault
      else case user_memory e (mem w) a n of
          None \<Rightarrow> Fault
        | Some x \<Rightarrow> (case user_memory e (mem w) b n of
              None \<Rightarrow> Fault
            | Some y \<Rightarrow> Ret (status (bytes_cmp x y)) w))"

section \<open>The table\<close>

definition HELPERS :: "(string \<times> 'm helper) list" where
  "HELPERS =
    [(''sf_sleep_ms'', h_sleep), (''sf_yield'', h_yield),
     (''sf_now_mono_ms'', h_mono), (''sf_now_unix_ms'', h_unix),
     (''sf_config'', h_config), (''sf_drop'', h_drop),
     (''sf_event_next'', h_event), (''sf_host_call_raw'', h_call),
     (''sf_log_raw'', h_log), (''sf_json_parse'', h_parse),
     (''sf_json_get_raw'', h_get), (''sf_json_at'', h_at),
     (''sf_json_kind'', h_kind), (''sf_json_i64'', h_i64),
     (''sf_json_bool'', h_bool), (''sf_json_read_string'', h_string_read),
     (''sf_json_string_equals_raw'', h_equals), (''sf_json_object'', h_object),
     (''sf_json_array'', h_array), (''sf_json_null'', h_null),
     (''sf_json_string_raw'', h_string), (''sf_json_number'', h_number),
     (''sf_json_boolean'', h_boolean), (''sf_json_set_raw'', h_set),
     (''sf_json_push'', h_push), (''sf_json_dump'', h_dump),
     (''sf_bytes'', h_bytes), (''sf_bytes_len'', h_len),
     (''sf_bytes_read'', h_read), (''memcpy'', h_memcpy),
     (''memset'', h_memset), (''memcmp'', h_memcmp)]"

end
