(* ===== verification/HelperSafety.thy ===== *)
theory HelperSafety
  imports Helpers
begin

text \<open>
  What every helper keeps. \<open>grows w w'\<close> relates the world before and after a call: the
  invariant survives, the handle counter never goes back, the object keeps its identity,
  configuration and capabilities, and every handle it gained was issued by the counter in
  between. The wait reason and the isolation of objects from one another follow.
\<close>

section \<open>One call\<close>

definition grows :: "'m hworld \<Rightarrow> 'm hworld \<Rightarrow> bool" where
  "grows w w' \<longleftrightarrow> guest_inv w \<longrightarrow>
     guest_inv w' \<and> next_handle w \<le> next_handle w' \<and>
     rel_option (\<lambda>c c'. gid c' = gid c \<and> gconfig c' = gconfig c \<and>
         capabilities c' = capabilities c \<and>
         dom (map_of (handles c')) \<subseteq>
           dom (map_of (handles c)) \<union> {next_handle w ..< next_handle w'})
       (wguest w) (wguest w')"

lemma grows_refl [simp]: "grows w w"
  by (cases "wguest w") (auto simp: grows_def)

lemma grows_trans:
  assumes "grows u v" "grows v w"
  shows "grows u w"
proof (cases "wguest u")
  case None
  with assms show ?thesis by (auto simp: grows_def)
next
  case (Some c)
  show ?thesis
    unfolding grows_def
  proof
    assume u: "guest_inv u"
    with assms(1) Some obtain c1 where c1: "wguest v = Some c1" "guest_inv v"
        "next_handle u \<le> next_handle v"
        "gid c1 = gid c" "gconfig c1 = gconfig c" "capabilities c1 = capabilities c"
        "dom (map_of (handles c1)) \<subseteq>
          dom (map_of (handles c)) \<union> {next_handle u ..< next_handle v}"
      unfolding grows_def by (auto simp: option_rel_Some1)
    with assms(2) obtain c2 where c2: "wguest w = Some c2" "guest_inv w"
        "next_handle v \<le> next_handle w"
        "gid c2 = gid c1" "gconfig c2 = gconfig c1" "capabilities c2 = capabilities c1"
        "dom (map_of (handles c2)) \<subseteq>
          dom (map_of (handles c1)) \<union> {next_handle v ..< next_handle w}"
      unfolding grows_def by (auto simp: option_rel_Some1)
    have "{next_handle u ..< next_handle v} \<subseteq> {next_handle u ..< next_handle w}"
      "{next_handle v ..< next_handle w} \<subseteq> {next_handle u ..< next_handle w}"
      using c1(3) c2(3) by auto
    with c1(7) c2(7) have "dom (map_of (handles c2)) \<subseteq>
        dom (map_of (handles c)) \<union> {next_handle u ..< next_handle w}"
      by blast
    with Some c1 c2 show "guest_inv w \<and> next_handle u \<le> next_handle w \<and>
        rel_option (\<lambda>c c'. gid c' = gid c \<and> gconfig c' = gconfig c \<and>
          capabilities c' = capabilities c \<and>
          dom (map_of (handles c')) \<subseteq>
            dom (map_of (handles c)) \<union> {next_handle u ..< next_handle w})
        (wguest u) (wguest w)"
      by auto
  qed
qed

lemma grows_frame [simp]:
  "grows w (w\<lparr>hwait := r\<rparr>)" "grows w (w\<lparr>mem := m\<rparr>)"
  "grows w (wait_for r w)" "grows w (wait_over w)"
  by (cases "wguest w"; auto simp: grows_def wait_for_def wait_over_def guest_inv_def)+

lemma wguest_wait [simp]: "wguest (wait_over w) = wguest w" "wguest (wait_for r w) = wguest w"
  by (simp_all add: wait_over_def wait_for_def)

lemma grows_insert [simp]:
  assumes c: "wguest w = Some c"
  shows "res_inv (grows w) (insert_handle v c w)"
proof (cases "MAX_HANDLES \<le> length (handles c) \<or> \<not> next_handle w < I64_MAX")
  case True
  then show ?thesis
    by (cases "MAX_HANDLES \<le> length (handles c)") (simp_all add: insert_handle_def)
next
  case False
  define w' where "w' = w\<lparr>wguest := Some (c\<lparr>handles := AList.update (next_handle w) v (handles c)\<rparr>),
           next_handle := next_handle w + 1\<rparr>"
  from False have i: "insert_handle v c w = Ret (next_handle w) w'"
    by (simp add: insert_handle_def w'_def)
  have "guest_inv w \<Longrightarrow> guest_inv w'"
    using guest_inv_insert [of w c v] c i by simp
  moreover have "next_handle w < next_handle w'"
    using False inc_handle [of "next_handle w"] by (simp add: w'_def)
  ultimately have "grows w w'" using c
    by (auto simp: grows_def w'_def)
  with i show ?thesis by simp
qed

lemma res_inv_trans: "grows u w \<Longrightarrow> res_inv (grows w) r \<Longrightarrow> res_inv (grows u) r"
  by (cases r) (auto intro: grows_trans)

lemma grows_replace:
  assumes "wguest w = Some c" "json_of c h = Some x"
  shows "grows w (replace_handle h v c w)"
proof -
  have h: "map_of (handles c) h \<noteq> None"
    using assms(2) by (auto simp: json_of_def split: option.splits)
  with guest_inv_replace [OF _ assms(1) h, of v] assms(1) show ?thesis
    by (auto simp: grows_def replace_handle_def)
qed

lemma grows_remove:
  assumes "wguest w = Some c"
  shows "grows w (w\<lparr>wguest := Some (c\<lparr>handles := AList.delete h (handles c)\<rparr>)\<rparr>)"
  using guest_inv_remove [OF _ assms, of h] assms by (auto simp: grows_def split: if_splits)

lemma grows_log:
  assumes "wguest w = Some c" "logs c' \<le> 10" "outbox_inv (hout w) \<Longrightarrow> outbox_inv q"
    and "gid c' = gid c" "gconfig c' = gconfig c" "capabilities c' = capabilities c"
    and "handles c' = handles c"
  shows "grows w (w\<lparr>wguest := Some c', hout := q\<rparr>)"
  using assms by (auto simp: grows_def guest_inv_def guest_ok_def)

text \<open>Each helper, then all of them.\<close>

lemma grows_h_log: "res_inv (grows w) (h_log e w r1 r2 r3 r4 r5)"
proof -
  have "res_inv (grows w) (ctx w (\<lambda>c.
        let c = (if 1000000000 \<le> now_ns e - log_window c
                 then c\<lparr>log_window := now_ns e, logs := 0\<rparr> else c)
        in if 10 \<le> logs c then Ret (status LIMIT) (w\<lparr>wguest := Some c\<rparr>)
           else let c = c\<lparr>logs := logs c + 1\<rparr>;
                    (ok, q) = try_data (to_vec e) (gid c) (log_frame (gid c) message) (hout w)
                in Ret (if ok then 0 else status LIMIT) (w\<lparr>wguest := Some c, hout := q\<rparr>)))"
    for message
  proof (rule res_inv_ctx)
    fix c assume c: "wguest w = Some c"
    have same: "grows w (w\<lparr>wguest := Some (c\<lparr>log_window := t, logs := n\<rparr>), hout := q\<rparr>)"
      if "n \<le> 10" "outbox_inv (hout w) \<Longrightarrow> outbox_inv q" for t n q
      using that by (intro grows_log [OF c]) auto
    have same': "grows w (w\<lparr>wguest := Some (c\<lparr>logs := n\<rparr>), hout := q\<rparr>)"
      if "n \<le> 10" "outbox_inv (hout w) \<Longrightarrow> outbox_inv q" for n q
      using that by (intro grows_log [OF c]) auto
    have full: "grows w (w\<lparr>wguest := Some c\<rparr>)"
      using c by (auto simp: grows_def guest_inv_def)
    note q = outbox_inv_try_data [of "hout w" "to_vec e" "gid c" "log_frame (gid c) message"]
    show "res_inv (grows w) (let c = (if 1000000000 \<le> now_ns e - log_window c
                 then c\<lparr>log_window := now_ns e, logs := 0\<rparr> else c)
        in if 10 \<le> logs c then Ret (status LIMIT) (w\<lparr>wguest := Some c\<rparr>)
           else let c = c\<lparr>logs := logs c + 1\<rparr>;
                    (ok, q) = try_data (to_vec e) (gid c) (log_frame (gid c) message) (hout w)
                in Ret (if ok then 0 else status LIMIT) (w\<lparr>wguest := Some c, hout := q\<rparr>))"
      using full same [of 1] same' q
      by (auto simp: Let_def split: prod.splits)
  qed
  then show ?thesis
    by (auto simp: h_log_def)
qed


lemmas helper_defs =
  h_sleep_def h_yield_def h_mono_def h_unix_def h_config_def h_drop_def h_event_def h_call_def
  h_parse_def h_get_def h_at_def h_kind_def h_i64_def h_bool_def h_string_read_def h_equals_def
  h_object_def h_array_def h_null_def h_string_def h_number_def h_boolean_def h_dump_def
  h_bytes_def h_len_def h_read_def h_memcpy_def h_memset_def h_memcmp_def

lemma grows_h_set: "res_inv (grows w) (h_set e w r1 r2 r3 r4 r5)"
  unfolding h_set_def
  by (intro res_inv_text res_inv_ctx)
    (auto simp: Let_def intro: grows_replace split: option.splits json.splits)

lemma grows_h_push: "res_inv (grows w) (h_push e w r1 r2 r3 r4 r5)"
  unfolding h_push_def
  by (intro res_inv_ctx)
    (auto simp: Let_def intro: grows_replace split: option.splits json.splits)

lemma grows_helper:
  assumes "(name, f) \<in> set HELPERS"
  shows "res_inv (grows w) (f e w r1 r2 r3 r4 r5)"
proof -
  have "list_all (\<lambda>(n, f). res_inv (grows w) (f e w r1 r2 r3 r4 r5))
      (HELPERS :: (string \<times> 'a helper) list)"
    unfolding HELPERS_def list.pred_inject prod.case
    by (intro conjI list.pred_inject(1) grows_h_log grows_h_set grows_h_push; unfold helper_defs)
      (auto simp: Let_def grows_remove intro!: res_inv_text res_inv_ctx
        split: option.splits sum.splits handle.splits json.splits)
  with assms show ?thesis by (auto simp: list_all_iff)
qed

lemma grows_complete:
  "res_inv (grows w) (complete_sleep w)" "res_inv (grows w) (complete_yield w)"
  "res_inv (grows w) (complete_event v w)" "res_inv (grows w) (complete_call r w)"
proof -
  have wait: "res_inv (grows w) x" if "res_inv (grows (wait_over w)) x" for x
    by (rule res_inv_trans [OF grows_frame(4) that])
  show "res_inv (grows w) (complete_sleep w)" "res_inv (grows w) (complete_yield w)"
    by (simp_all add: complete_sleep_def complete_yield_def)
  show "res_inv (grows w) (complete_event v w)"
    unfolding complete_event_def Let_def
    by (rule wait, rule res_inv_ctx) (auto split: option.splits)
  show "res_inv (grows w) (complete_call r w)"
    unfolding complete_call_def Let_def
    by (rule wait, rule res_inv_ctx) (auto split: sum.splits)
qed


text \<open>The wait reason a diagnosis shows is the one of the task the guest is suspended on.\<close>

fun task_wait :: "task \<Rightarrow> string \<Rightarrow> string" where
  "task_wait (SleepTask ms) r = ''timer''"
| "task_wait YieldTask r = r"
| "task_wait (EventTask ms) r = ''event''"
| "task_wait (CallTask obj cap args ms) r = ''host_rpc''"

definition wait_ok :: "string \<Rightarrow> 'm hres \<Rightarrow> bool" where
  "wait_ok r x = (case x of
     Fault \<Rightarrow> True
   | Ret v w \<Rightarrow> hwait w = r
   | Post t w \<Rightarrow> hwait w = task_wait t r)"

lemma wait_ok_simps [simp]:
  "wait_ok r Fault" "wait_ok r (Ret v w) = (hwait w = r)"
  "wait_ok r (Post t w) = (hwait w = task_wait t r)"
  by (simp_all add: wait_ok_def)

lemma wait_ok_intros:
  "(\<And>c. wait_ok r (f c)) \<Longrightarrow> wait_ok r (ctx w f)"
  "(\<And>s. wait_ok r (g s)) \<Longrightarrow> wait_ok r (with_text e w p n g)"
  by (simp_all add: ctx_def with_text_def split: option.splits)

lemma wait_ok_insert [simp]: "wait_ok r (insert_handle v c w) = (hwait w = r)"
  by (simp add: insert_handle_def)

lemma wait_ok_helper:
  assumes "(name, f) \<in> set HELPERS"
  shows "wait_ok (hwait w) (f e w r1 r2 r3 r4 r5)"
proof -
  have "list_all (\<lambda>(n, f). wait_ok (hwait w) (f e w r1 r2 r3 r4 r5))
      (HELPERS :: (string \<times> 'a helper) list)"
    unfolding HELPERS_def list.pred_inject prod.case
    by (intro conjI list.pred_inject(1); unfold helper_defs h_log_def h_set_def h_push_def)
      (auto simp: Let_def wait_for_def replace_handle_def intro!: wait_ok_intros
        split: option.splits sum.splits handle.splits json.splits prod.splits)
  with assms show ?thesis by (auto simp: list_all_iff)
qed

lemma wait_ok_complete:
  "wait_ok ''none'' (complete_sleep w)" "wait_ok (hwait w) (complete_yield w)"
  "wait_ok ''none'' (complete_event v w)" "wait_ok ''none'' (complete_call x w)"
  unfolding complete_sleep_def complete_yield_def complete_event_def complete_call_def
  by (auto simp: Let_def wait_over_def intro!: wait_ok_intros split: option.splits sum.splits)

section \<open>Many guests\<close>

text \<open>
  The objects of one process: each has its own context, wait cell and memory, all share the
  handle counter and the outbox. A step is one helper call of one of them, or the completion
  of its task, or a store by the guest itself, or a new object.
\<close>

record 'm slot =
  sguest :: guest
  swait :: string
  smem :: 'm

record 'm process =
  pslots :: "'m slot list"
  pnext :: u64
  pout :: outbox

definition process_new :: "'m process" where
  "process_new = \<lparr>pslots = [], pnext = 1, pout = outbox_new\<rparr>"

definition enter :: "'m process \<Rightarrow> 'm slot \<Rightarrow> 'm hworld" where
  "enter p s = \<lparr>wguest = Some (sguest s), next_handle = pnext p, hout = pout p,
     hwait = swait s, mem = smem s\<rparr>"

definition put_back :: "'m process \<Rightarrow> nat \<Rightarrow> 'm hworld \<Rightarrow> 'm process" where
  "put_back p i w = (case wguest w of
     None \<Rightarrow> p
   | Some c \<Rightarrow> \<lparr>pslots = (pslots p)[i := \<lparr>sguest = c, swait = hwait w, smem = mem w\<rparr>],
       pnext = next_handle w, pout = hout w\<rparr>)"

datatype 'm guest_op =
    CallHelper "'m env" string u64 u64 u64 u64 u64
  | SleepDone
  | YieldDone
  | EventDone "json option"
  | CallDone "int + json"
  | Store 'm

fun guest_exec :: "'m guest_op \<Rightarrow> 'm hworld \<Rightarrow> 'm hres" where
  "guest_exec (CallHelper e name r1 r2 r3 r4 r5) w =
     (case map_of HELPERS name of None \<Rightarrow> Fault | Some f \<Rightarrow> f e w r1 r2 r3 r4 r5)"
| "guest_exec SleepDone w = complete_sleep w"
| "guest_exec YieldDone w = complete_yield w"
| "guest_exec (EventDone v) w = complete_event v w"
| "guest_exec (CallDone x) w = complete_call x w"
| "guest_exec (Store m) w = Ret 0 (w\<lparr>mem := m\<rparr>)"

lemma grows_guest_exec: "res_inv (grows w) (guest_exec op w)"
  by (cases op) (auto simp: grows_complete intro: grows_helper dest: map_of_SomeD
      split: option.splits)

datatype 'm process_op =
    Step nat "'m guest_op"
  | Spawn string json "capability list" nat 'm

fun process_exec :: "'m process_op \<Rightarrow> 'm process \<Rightarrow> 'm process" where
  "process_exec (Step i op) p =
     (if i < length (pslots p)
      then (case guest_exec op (enter p (pslots p ! i)) of
          Fault \<Rightarrow> p
        | Ret v w \<Rightarrow> put_back p i w
        | Post t w \<Rightarrow> put_back p i w)
      else p)"
| "process_exec (Spawn i config caps now m) p =
     p\<lparr>pslots := pslots p @ [\<lparr>sguest = guest_new i config caps now, swait = ''none'', smem = m\<rparr>]\<rparr>"

definition owned :: "'m slot \<Rightarrow> u64 set" where
  "owned s = dom (map_of (handles (sguest s)))"

definition process_inv :: "'m process \<Rightarrow> bool" where
  "process_inv p \<longleftrightarrow>
     0 < pnext p \<and> pnext p \<le> I64_MAX \<and> outbox_inv (pout p) \<and>
     (\<forall>s \<in> set (pslots p). guest_ok (sguest s) (pnext p)) \<and>
     (\<forall>i < length (pslots p). \<forall>j < length (pslots p).
        i \<noteq> j \<longrightarrow> owned (pslots p ! i) \<inter> owned (pslots p ! j) = {})"

lemma process_inv_enter: "process_inv p \<Longrightarrow> s \<in> set (pslots p) \<Longrightarrow> guest_inv (enter p s)"
  by (auto simp: process_inv_def guest_inv_def enter_def)

lemma guest_ok_mono: "guest_ok c n \<Longrightarrow> n \<le> m \<Longrightarrow> guest_ok c m"
  by (auto simp: guest_ok_def intro: less_le_trans)

lemma owned_below: "guest_ok (sguest s) n \<Longrightarrow> h \<in> owned s \<Longrightarrow> h < n"
  by (auto simp: guest_ok_def owned_def)

text \<open>What a step does: one slot is replaced, and gains only handles issued in the step.\<close>

lemma slot_eta: "\<lparr>sguest = sguest s, swait = swait s, smem = smem s\<rparr> = s"
  by (cases s) simp

lemma put_back_enter: "put_back p i (enter p (pslots p ! i)) = p"
  by (cases p) (simp add: put_back_def enter_def slot_eta)

lemma process_step_cases:
  assumes "process_inv p" "i < length (pslots p)"
  obtains s n q where
    "process_exec (Step i op) p = \<lparr>pslots = (pslots p)[i := s], pnext = n, pout = q\<rparr>"
    "guest_ok (sguest s) n" "pnext p \<le> n" "n \<le> I64_MAX" "outbox_inv q"
    "owned s \<subseteq> owned (pslots p ! i) \<union> {pnext p ..< n}"
proof -
  let ?s = "pslots p ! i"
  note result = that
  have inv: "guest_inv (enter p ?s)" using assms by (intro process_inv_enter) auto
  have step: thesis if w: "grows (enter p ?s) w" and p': "process_exec (Step i op) p = put_back p i w" for w
  proof -
    from w inv obtain c where c: "wguest w = Some c" "guest_inv w" "pnext p \<le> next_handle w"
      "dom (map_of (handles c)) \<subseteq> owned ?s \<union> {pnext p ..< next_handle w}"
      by (auto simp: grows_def enter_def owned_def option_rel_Some1)
    show thesis
      by (rule result [of "\<lparr>sguest = c, swait = hwait w, smem = mem w\<rparr>" "next_handle w" "hout w"];
          (unfold p')?)
        (use c in \<open>auto simp: put_back_def guest_inv_def owned_def\<close>)
  qed
  show thesis
  proof (cases "guest_exec op (enter p ?s)")
    case Fault
    with assms put_back_enter [of p i] have "process_exec (Step i op) p = put_back p i (enter p ?s)"
      by simp
    from step [OF grows_refl this] show thesis .
  next
    case (Ret v w)
    with grows_guest_exec [of "enter p ?s" op] assms step [of w] show thesis by simp
  next
    case (Post t w)
    with grows_guest_exec [of "enter p ?s" op] assms step [of w] show thesis by simp
  qed
qed

lemma process_step_inv:
  assumes inv: "process_inv p" and i: "i < length (pslots p)"
  shows "process_inv (process_exec (Step i op) p)"
proof -
  obtain s n q where p': "process_exec (Step i op) p = \<lparr>pslots = (pslots p)[i := s], pnext = n, pout = q\<rparr>"
    and s: "guest_ok (sguest s) n" "pnext p \<le> n" "n \<le> I64_MAX" "outbox_inv q"
      "owned s \<subseteq> owned (pslots p ! i) \<union> {pnext p ..< n}"
    by (rule process_step_cases [OF inv i])
  have ok: "\<forall>t \<in> set ((pslots p)[i := s]). guest_ok (sguest t) n"
    using inv s(1,2) set_update_subset_insert [of "pslots p" i s]
    unfolding process_inv_def by (blast intro: guest_ok_mono)
  have apart: "owned s \<inter> owned (pslots p ! k) = {}" if "k < length (pslots p)" "k \<noteq> i" for k
  proof -
    have "owned (pslots p ! k) \<inter> {pnext p ..< n} = {}"
      using inv that owned_below [of "pslots p ! k" "pnext p"] unfolding process_inv_def by fastforce
    moreover have "owned (pslots p ! i) \<inter> owned (pslots p ! k) = {}"
      using inv i that unfolding process_inv_def by blast
    ultimately show ?thesis using s(5) by blast
  qed
  have "\<forall>k < length (pslots p). \<forall>j < length (pslots p). k \<noteq> j \<longrightarrow>
      owned ((pslots p)[i := s] ! k) \<inter> owned ((pslots p)[i := s] ! j) = {}"
    using inv apart i unfolding process_inv_def by (auto simp: nth_list_update Int_commute)
  moreover have "0 < n" using inv s(2) unfolding process_inv_def by (auto intro: less_le_trans)
  ultimately show ?thesis using ok s(3,4) unfolding p' by (simp add: process_inv_def)
qed

lemma process_exec_inv:
  assumes inv: "process_inv p"
  shows "process_inv (process_exec op p)"
proof (cases op)
  case (Spawn i config caps now m)
  let ?s = "\<lparr>sguest = guest_new i config caps now, swait = ''none'', smem = m\<rparr>"
  have "guest_ok (sguest ?s) n" for n by (simp add: guest_ok_def guest_new_def)
  moreover have "owned ?s = {}" by (simp add: owned_def guest_new_def)
  ultimately show ?thesis using inv Spawn
    by (auto simp: process_inv_def nth_append less_Suc_eq)
next
  case (Step i op')
  then show ?thesis
    using process_step_inv [OF inv, of i op'] inv by (cases "i < length (pslots p)") simp_all
qed

lemma process_inv_new: "process_inv process_new"
  by (simp add: process_inv_def process_new_def I64_MAX_def)

interpretation hp: machine "\<lambda>p. p = process_new" process_exec process_inv
  by unfold_locales (simp_all add: process_inv_new process_exec_inv)

abbreviation prun :: "'m process_op list \<Rightarrow> 'm process" where
  "prun ops \<equiv> fold process_exec ops process_new"

text \<open>Once issued and not in a table, a handle number never comes back to that table.\<close>

definition absent :: "u64 \<Rightarrow> nat \<Rightarrow> 'm process \<Rightarrow> bool" where
  "absent h i p \<longleftrightarrow> h < pnext p \<and> (i < length (pslots p) \<longrightarrow> h \<notin> owned (pslots p ! i))"

lemma absent_exec:
  assumes inv: "process_inv p" and abs: "absent h i p"
  shows "absent h i (process_exec op p)"
proof (cases op)
  case (Spawn k config caps now m)
  with abs show ?thesis by (auto simp: absent_def nth_append owned_def guest_new_def)
next
  case (Step j op')
  show ?thesis
  proof (cases "j < length (pslots p)")
    case True
    obtain s n q where
      p': "process_exec (Step j op') p = \<lparr>pslots = (pslots p)[j := s], pnext = n, pout = q\<rparr>"
      and s: "pnext p \<le> n" "owned s \<subseteq> owned (pslots p ! j) \<union> {pnext p ..< n}"
      by (rule process_step_cases [OF inv True])
    show ?thesis
      using abs s True unfolding Step p' absent_def
      by (cases "i = j") (auto dest: subsetD intro: less_le_trans simp: leD)
  next
    case False
    with abs Step show ?thesis by simp
  qed
qed

lemma absent_run:
  "process_inv p \<Longrightarrow> absent h i p \<Longrightarrow> absent h i (fold process_exec ops p)"
  by (induction ops arbitrary: p) (simp_all add: absent_exec process_exec_inv)


lemma pnext_exec: "process_inv p \<Longrightarrow> pnext p \<le> pnext (process_exec op p)"
proof (cases op)
  case (Step i op')
  assume inv: "process_inv p"
  show ?thesis
  proof (cases "i < length (pslots p)")
    case True
    obtain s n q where
      p': "process_exec (Step i op') p = \<lparr>pslots = (pslots p)[i := s], pnext = n, pout = q\<rparr>"
      and "pnext p \<le> n"
      by (rule process_step_cases [OF inv True])
    then show ?thesis unfolding Step p' by simp
  qed (simp add: Step)
qed simp

lemma pnext_run: "process_inv p \<Longrightarrow> pnext p \<le> pnext (fold process_exec ops p)"
  by (induction ops arbitrary: p) (auto intro: order_trans pnext_exec process_exec_inv)

section \<open>Properties\<close>

text \<open>
  A small process: one guest of eight bytes of memory, which makes an array, the number 7,
  appends one to the other and drops the number.
\<close>

definition flat_env :: "nat \<Rightarrow> bytes env" where
  "flat_env now =
     \<lparr>user_memory = (\<lambda>m p n. if unat p + unat n \<le> length m
          then Some (take (unat n) (drop (unat p) m)) else None),
      user_memory_mut = (\<lambda>m p n. if unat p + unat n \<le> length m
          then Some (\<lambda>b. take (unat p) m @ b @ drop (unat p + length b) m) else None),
      to_vec = tiny_enc, from_str = (\<lambda>_. Inl ''unexpected''), now_ns = now, unix_ns = 0\<rparr>"

definition demo_spawns :: "bytes process_op list" where
  "demo_spawns = [Spawn ''a'' Null [] 0 ''abcdefgh'', Spawn ''b'' Null [] 0 ''abcdefgh'',
     Step 0 (CallHelper (flat_env 0) ''sf_json_array'' 0 0 0 0 0)]"

definition demo_steps :: "bytes process_op list" where
  "demo_steps = [Step 1 (CallHelper (flat_env 1) ''sf_json_number'' 7 0 0 0 0),
     Step 0 (CallHelper (flat_env 2) ''sf_json_number'' 7 0 0 0 0),
     Step 0 (CallHelper (flat_env 3) ''sf_json_push'' 1 3 0 0 0),
     Step 0 (CallHelper (flat_env 4) ''sf_drop'' 3 0 0 0 0)]"

text \<open>
  C23: whatever the guests of a process call and however their tasks complete, each guest
  holds at most 128 handles and has at most ten log attempts in its window, every handle is
  a positive signed number, so none can be mistaken for an error status, and no two guests
  ever hold the same handle.
\<close>

theorem guests_bounded_and_isolated:
  "let p = prun ops in
    (\<forall>s \<in> set (pslots p). length (handles (sguest s)) \<le> 128 \<and> logs (sguest s) \<le> 10 \<and>
       (\<forall>h \<in> owned s. 0 < sint h)) \<and>
    (\<forall>i < length (pslots p). \<forall>j < length (pslots p).
       i \<noteq> j \<longrightarrow> owned (pslots p ! i) \<inter> owned (pslots p ! j) = {})"
proof -
  have inv: "process_inv (prun ops)" by (rule hp.reach_inv) simp
  have "0 < sint h" if "s \<in> set (pslots (prun ops))" "h \<in> owned s" for s h
  proof -
    from inv that have "0 < h" "h < pnext (prun ops)" "pnext (prun ops) \<le> I64_MAX"
      unfolding process_inv_def guest_ok_def owned_def by blast+
    then show ?thesis by (intro positive_handle) simp_all
  qed
  with inv show ?thesis
    unfolding process_inv_def guest_ok_def MAX_HANDLES_def Let_def by blast
qed

text \<open>
  A handle number seen in an object at two moments has been there all the time in
  between, and no other object ever gets it: numbers are not reissued after a drop.
\<close>

lemma handles_never_reissued:
  assumes "i < length (pslots (prun ops))" "h \<in> owned (pslots (prun ops) ! i)"
    and "j < length (pslots (prun (ops @ later)))"
    and "h \<in> owned (pslots (prun (ops @ later)) ! j)"
    and "k \<le> length later"
  shows "j = i \<and> h \<in> owned (pslots (prun (ops @ take k later)) ! i)"
proof -
  let ?p = "prun ops" and ?q = "prun (ops @ take k later)"
  have inv: "process_inv ?p" "process_inv ?q" by (rule hp.reach_inv, simp)+
  have below: "h < pnext ?p"
    using inv(1) assms(1,2) owned_below [of "pslots ?p ! i"] unfolding process_inv_def by auto
  have "fold process_exec later ?p = fold process_exec (drop k later) ?q"
    by (subst append_take_drop_id [of k later, symmetric]) (simp only: fold_append comp_apply)
  then have end': "prun (ops @ later) = fold process_exec later ?p"
    "prun (ops @ later) = fold process_exec (drop k later) ?q"
    by simp_all
  have present: "\<not> absent h j (prun (ops @ later))" using assms(3,4) by (simp add: absent_def)
  have "j = i"
  proof (rule ccontr)
    assume "j \<noteq> i"
    then have "absent h j ?p"
      using below inv(1) assms(1,2) unfolding absent_def process_inv_def by blast
    with present show False
      using absent_run [OF inv(1), of h j later] unfolding end'(1) by blast
  qed
  moreover have "h \<in> owned (pslots ?q ! i)"
  proof (rule ccontr)
    assume "h \<notin> owned (pslots ?q ! i)"
    moreover have "h < pnext ?q"
      using less_le_trans [OF below pnext_run [OF inv(1), of "take k later"]] by simp
    ultimately have "absent h i ?q" by (simp add: absent_def)
    with present \<open>j = i\<close> show False
      using absent_run [OF inv(2), of h i "drop k later"] unfolding end'(2) by blast
  qed
  ultimately show ?thesis by blast
qed

lemmas demo_eval =
  demo_spawns_def demo_steps_def process_new_def guest_new_def enter_def put_back_def HELPERS_def
  h_array_def h_number_def h_push_def h_drop_def ctx_def insert_handle_def MAX_HANDLES_def
  I64_MAX_def json_of_def flat_env_def replace_handle_def valid_value_def tiny_enc_def
  MAX_VALUE_BYTES_def visit.simps owned_def jint_def

lemma demo_spawns_run: "pslots (prun demo_spawns) =
    [\<lparr>sguest = (guest_new ''a'' Null [] 0)\<lparr>handles := [(1, Json (Array []))]\<rparr>,
      swait = ''none'', smem = ''abcdefgh''\<rparr>,
     \<lparr>sguest = guest_new ''b'' Null [] 0, swait = ''none'', smem = ''abcdefgh''\<rparr>]"
  by (simp add: demo_eval)

lemma demo_run_handles: "map (handles \<circ> sguest) (pslots (prun (demo_spawns @ demo_steps))) =
    [[(1, Json (Array [jint 7]))], [(2, Json (jint 7))]]"
  by (simp add: demo_eval)


theorem guests_bounded_and_isolated_witness:
  "let p = prun demo_spawns in
    owned (pslots p ! 0) = {1} \<and> length (pslots p) = 2 \<and>
    (\<forall>s \<in> set (pslots p). length (handles (sguest s)) \<le> 128 \<and> logs (sguest s) \<le> 10 \<and>
       (\<forall>h \<in> owned s. 0 < sint h)) \<and>
    (\<forall>i < length (pslots p). \<forall>j < length (pslots p).
       i \<noteq> j \<longrightarrow> owned (pslots p ! i) \<inter> owned (pslots p ! j) = {})"
  using guests_bounded_and_isolated [of demo_spawns]
  by (simp add: demo_spawns_run owned_def)

lemma handles_never_reissued_witness:
  "1 \<in> owned (pslots (prun (demo_spawns @ take 2 demo_steps)) ! 0)"
proof -
  have "length (pslots (prun (demo_spawns @ demo_steps))) = 2"
    using arg_cong [OF demo_run_handles, of length] by simp
  moreover from this have "owned (pslots (prun (demo_spawns @ demo_steps)) ! 0) = {1}"
    using arg_cong [OF demo_run_handles, of "\<lambda>xs. xs ! 0"] by (simp add: owned_def)
  ultimately show ?thesis
    using handles_never_reissued [of 0 demo_spawns 1 0 demo_steps 2]
    by (simp add: demo_spawns_run owned_def demo_steps_def)
qed

text \<open>
  The wait reason that a diagnosis of the object shows is the one of the task it is
  suspended on: a helper that returns at once leaves it, an asynchronous one sets it to its
  task's reason, and the completion of a sleep, an event wait or a host call resets it.
\<close>

lemma wait_reason_tracks_task:
  "(case guest_exec (CallHelper e name r1 r2 r3 r4 r5) w of
      Fault \<Rightarrow> True
    | Ret r w' \<Rightarrow> hwait w' = hwait w
    | Post t w' \<Rightarrow> hwait w' = task_wait t (hwait w)) \<and>
   (case guest_exec SleepDone w of Ret r w' \<Rightarrow> hwait w' = ''none'' | _ \<Rightarrow> False) \<and>
   (case guest_exec YieldDone w of Ret r w' \<Rightarrow> hwait w' = hwait w | _ \<Rightarrow> False) \<and>
   (case guest_exec (EventDone v) w of
      Fault \<Rightarrow> wguest w = None | Ret r w' \<Rightarrow> hwait w' = ''none'' | Post t w' \<Rightarrow> False) \<and>
   (case guest_exec (CallDone x) w of
      Fault \<Rightarrow> wguest w = None | Ret r w' \<Rightarrow> hwait w' = ''none'' | Post t w' \<Rightarrow> False)"
proof (intro conjI)
  show "case guest_exec (CallHelper e name r1 r2 r3 r4 r5) w of
      Fault \<Rightarrow> True
    | Ret r w' \<Rightarrow> hwait w' = hwait w
    | Post t w' \<Rightarrow> hwait w' = task_wait t (hwait w)"
    using wait_ok_helper [of name _ w e r1 r2 r3 r4 r5] map_of_SomeD [of HELPERS name]
    unfolding wait_ok_def by (auto split: option.splits)
qed (auto simp: complete_sleep_def complete_yield_def complete_event_def complete_call_def
    ctx_def insert_handle_def wait_over_def Let_def split: option.splits sum.splits)

end
