(* ===== verification/HelperLog.thy ===== *)
theory HelperLog
  imports HelperSafety OutboxOrder
begin

text \<open>
  The log limit of \<^verbatim>\<open>h_log\<close>: over any run of one guest, whatever else it does, the messages
  that get out within one second are bounded.
\<close>

section \<open>Runs of one guest\<close>

fun res_world :: "'m hworld \<Rightarrow> 'm hres \<Rightarrow> 'm hworld" where
  "res_world w Fault = w"
| "res_world w (Ret v w') = w'"
| "res_world w (Post t w') = w'"

definition logs_message :: "'m guest_op \<Rightarrow> 'm hworld \<Rightarrow> bool" where
  "logs_message op w =
     (case op of
        CallHelper e name r1 r2 r3 r4 r5 \<Rightarrow>
          name = ''sf_log_raw'' \<and>
          (case guest_exec op w of Ret v w' \<Rightarrow> v = 0 | _ \<Rightarrow> False)
      | _ \<Rightarrow> False)"

text \<open>Number of log messages that a run queues.\<close>

fun messages :: "'m guest_op list \<Rightarrow> 'm hworld \<Rightarrow> nat" where
  "messages [] w = 0"
| "messages (op # ops) w =
     of_bool (logs_message op w) + messages ops (res_world w (guest_exec op w))"

definition during :: "nat \<Rightarrow> 'm guest_op \<Rightarrow> bool" where
  "during t op = (case op of
      CallHelper e name r1 r2 r3 r4 r5 \<Rightarrow> t \<le> now_ns e \<and> now_ns e < t + 1000000000
    | _ \<Rightarrow> True)"

section \<open>Only h_log touches the counter\<close>

definition log_state :: "'m hworld \<Rightarrow> (nat \<times> nat) option" where
  "log_state w = map_option (\<lambda>c. (log_window c, logs c)) (wguest w)"

definition keeps_log :: "'m hworld \<Rightarrow> 'm hres \<Rightarrow> bool" where
  "keeps_log w r \<longleftrightarrow> log_state (res_world w r) = log_state w"

lemma keeps_log_intros:
  "(\<And>c. wguest w = Some c \<Longrightarrow> keeps_log w (f c)) \<Longrightarrow> keeps_log w (ctx w f)"
  "(\<And>s. keeps_log w (g s)) \<Longrightarrow> keeps_log w (with_text e w p n g)"
  "wguest w = Some c \<Longrightarrow> keeps_log w (insert_handle v c w)"
  "keeps_log w Fault"
  "log_state w' = log_state w \<Longrightarrow> keeps_log w (Ret r w')"
  "log_state w' = log_state w \<Longrightarrow> keeps_log w (Post t w')"
  by (auto simp: ctx_def with_text_def keeps_log_def insert_handle_def log_state_def
      split: option.splits)

lemma keeps_log_helper:
  assumes "(name, f) \<in> set HELPERS" "name \<noteq> ''sf_log_raw''"
  shows "keeps_log w (f e w r1 r2 r3 r4 r5)"
proof -
  have "list_all (\<lambda>(n, f). n = ''sf_log_raw'' \<or> keeps_log w (f e w r1 r2 r3 r4 r5))
      (HELPERS :: (string \<times> 'a helper) list)"
    unfolding HELPERS_def list.pred_inject prod.case
    apply (intro conjI list.pred_inject(1))
                       apply (unfold helper_defs h_set_def h_push_def)
                       apply (simp_all add: list.inject char.inject)
    apply (auto simp: Let_def intro!: keeps_log_intros
        simp: log_state_def wait_for_def replace_handle_def
        split: option.splits sum.splits handle.splits json.splits)
    done
  with assms show ?thesis by (auto simp: list_all_iff)
qed

lemma keeps_log_complete:
  "keeps_log w (complete_sleep w)" "keeps_log w (complete_yield w)"
  "keeps_log w (complete_event v w)" "keeps_log w (complete_call x w)"
  by (auto simp: complete_sleep_def complete_yield_def complete_event_def complete_call_def
      keeps_log_def log_state_def ctx_def insert_handle_def wait_over_def Let_def
      split: option.split sum.split)

lemma keeps_log_op:
  assumes "\<And>e r1 r2 r3 r4 r5. op \<noteq> CallHelper e ''sf_log_raw'' r1 r2 r3 r4 r5"
  shows "keeps_log w (guest_exec op w)"
proof (cases op)
  case (CallHelper e name r1 r2 r3 r4 r5)
  with assms have "name \<noteq> ''sf_log_raw''" by blast
  then show ?thesis unfolding CallHelper guest_exec.simps
    by (cases "map_of HELPERS name :: 'a helper option")
      (auto intro: keeps_log_intros keeps_log_helper dest: map_of_SomeD)
next
  case (Store m)
  then show ?thesis by (simp add: keeps_log_def log_state_def)
qed (simp_all only: guest_exec.simps keeps_log_complete)

lemma status_LIMIT_0 [simp]: "status LIMIT \<noteq> 0"
  using status_negative(2) by force

text \<open>
  One logged message moves the counter: in a window that is still open by one, otherwise it
  opens a window at the current time with one message in it.
\<close>

lemma h_log_cases:
  assumes "h_log e w p n r3 r4 r5 = r" "wguest w = Some c"
  obtains "log_state (res_world w r) = log_state w" "\<And>w'. r \<noteq> Ret 0 w'"
  | "now_ns e - log_window c < 1000000000" "logs c < 10"
    "log_state (res_world w r) = Some (log_window c, logs c + 1)"
  | "1000000000 \<le> now_ns e - log_window c"
    "log_state (res_world w r) = Some (now_ns e, 1)"
  using assms that status_LIMIT_0
  by (auto simp: h_log_def with_text_def ctx_def Let_def log_state_def
      split: if_splits option.splits prod.splits)


lemma logs_messageD: "logs_message op w \<Longrightarrow> \<exists>w'. guest_exec op w = Ret 0 w'"
  unfolding logs_message_def by (auto simp del: guest_exec.simps split: guest_op.splits hres.splits)

definition budget :: "nat \<Rightarrow> 'm hworld \<Rightarrow> nat" where
  "budget t w = (case log_state w of
      None \<Rightarrow> 0
    | Some (win, n) \<Rightarrow> 10 - n + (if t \<le> win then 0 else 10))"

lemma budget_step:
  assumes "during t op"
  shows "of_bool (logs_message op w) + budget t (res_world w (guest_exec op w)) \<le> budget t w"
proof (cases "\<exists>e r1 r2 r3 r4 r5. op = CallHelper e ''sf_log_raw'' r1 r2 r3 r4 r5")
  case False
  then have "\<not> logs_message op w" by (cases op) (auto simp: logs_message_def)
  with keeps_log_op [of op w] False show ?thesis by (simp add: keeps_log_def budget_def)
next
  case True
  then obtain e r1 r2 r3 r4 r5 where op: "op = CallHelper e ''sf_log_raw'' r1 r2 r3 r4 r5" by blast
  have exec: "guest_exec op w = h_log e w r1 r2 r3 r4 r5"
    unfolding op by (simp add: HELPERS_def)
  have now: "t \<le> now_ns e" "now_ns e < t + 1000000000" using assms op by (simp_all add: during_def)
  have one: "of_bool (logs_message op w) \<le> (1 :: nat)" by simp
  show ?thesis
  proof (cases "wguest w")
    case None
    then have "h_log e w r1 r2 r3 r4 r5 = Fault \<or> h_log e w r1 r2 r3 r4 r5 = Ret (status LIMIT) w"
      by (auto simp: h_log_def with_text_def ctx_def split: option.splits)
    then show ?thesis
    proof
      assume "h_log e w r1 r2 r3 r4 r5 = Fault"
      with exec op show ?thesis by (simp add: logs_message_def)
    next
      assume "h_log e w r1 r2 r3 r4 r5 = Ret (status LIMIT) w"
      with exec op show ?thesis by (simp add: logs_message_def status_LIMIT_0)
    qed
  next
    case (Some c)
    then have b: "budget t w = 10 - logs c + (if t \<le> log_window c then 0 else 10)"
      by (simp add: budget_def log_state_def)
    show ?thesis
    proof (cases rule: h_log_cases [OF exec [symmetric] Some])
      case 1
      have "\<not> logs_message op w" using 1(2) exec logs_messageD [of op w] by metis
      with 1 show ?thesis by (simp add: budget_def)
    next
      case 2
      with one b show ?thesis by (simp add: budget_def)
    next
      case 3
      with now have "\<not> t \<le> log_window c" by linarith
      with 3 one b now show ?thesis by (simp add: budget_def)
    qed
  qed
qed

lemma messages_budget: "\<forall>op \<in> set ops. during t op \<Longrightarrow> messages ops w \<le> budget t w"
proof (induction ops arbitrary: w)
  case (Cons op ops)
  then have "messages ops (res_world w (guest_exec op w)) \<le> budget t (res_world w (guest_exec op w))"
    by simp
  with budget_step [of t op w] Cons.prems show ?case by simp
qed simp

section \<open>Properties\<close>



definition demo_log :: "nat \<Rightarrow> bytes guest_op" where
  "demo_log now = CallHelper (flat_env now) ''sf_log_raw'' 0 2 0 0 0"

definition demo_guest :: "bytes hworld" where
  "demo_guest = \<lparr>wguest = Some (guest_new ''a'' Null [] 0), next_handle = 1, hout = outbox_new,
     hwait = ''none'', mem = ''hi''\<rparr>"


end
