(* ===== verification/HelperJson.thy ===== *)
theory HelperJson
  imports HelperLog
begin

text \<open>
  What the helpers on JSON values, bytes and memory compute, and when a host call is allowed.
\<close>

section \<open>Values\<close>

lemma status_INVALID_0 [simp]: "status INVALID \<noteq> 0"
  using status_negative(1) by force

lemma valid_array_small: "valid_value enc (Array a) \<Longrightarrow> length a < 4096"
proof -
  assume "valid_value enc (Array a)"
  then have "nodes (Array a) \<le> 4096" by (simp add: valid_value_iff)
  moreover have "length a \<le> sum_list (map nodes a)"
  proof (induction a)
    case (Cons v a)
    have "0 < nodes v" by simp
    with Cons show ?case unfolding list.map sum_list.Cons list.size by linarith
  qed simp
  ultimately show ?thesis by simp
qed


lemma insert_handle_cases:
  assumes "guest_inv w" "wguest w = Some c"
  obtains "insert_handle v c w = Ret (status LIMIT) w"
  | r c' w' where "insert_handle v c w = Ret r w'" "0 < sint r" "map_of (handles c) r = None"
    "wguest w' = Some c'" "map_of (handles c') = (map_of (handles c))(r \<mapsto> v)"
proof -
  obtain r w' where r: "insert_handle v c w = Ret r w'"
    by (cases "insert_handle v c w") (auto simp: insert_handle_def split: if_splits)
  from insert_handle_result [OF assms r] show thesis
    using that r by blast
qed

lemma vget_insert: "vget (Object (bt_insert k x m)) k' = (if k' = k then Some x else vget (Object m) k')"
  by simp

lemma json_of_replace [simp]:
  "json_of (c\<lparr>handles := AList.update h (Json v) (handles c)\<rparr>) k =
     (if k = h then Some v else json_of c k)"
  by (simp add: json_of_def)

lemma h_set_eq:
  assumes "guest_text e w p n = Some key" "wguest w = Some c"
  shows "h_set e w h p n v r5 = (case json_of c v of
       None \<Rightarrow> Ret (status INVALID) w
     | Some x \<Rightarrow> (case json_of c h of
           Some (Object m) \<Rightarrow>
             let target = Object (bt_insert key x m) in
             if \<not> valid_value (to_vec e) target then Ret (status LIMIT) w
             else Ret 0 (replace_handle h (Json target) c w)
         | _ \<Rightarrow> Ret (status INVALID) w))"
  using assms by (simp add: h_set_def with_text_def ctx_def)

text \<open>
  Setting a member is all or nothing. When it succeeds the target holds the new value
  under the key, every other member, every other handle and everything else is as before,
  and the target is within the structural limit; otherwise an error status is returned and
  nothing has changed.
\<close>

lemma json_set_atomic:
  assumes "h_set e w h p n v r5 = Ret r w'" and "wguest w = Some c"
  shows "(\<exists>key x m target. guest_text e w p n = Some key \<and> json_of c v = Some x \<and>
      json_of c h = Some (Object m) \<and> r = 0 \<and> w' = replace_handle h (Json target) c w \<and>
      valid_value (to_vec e) target \<and> is_object target \<and>
      (\<forall>k. vget target k = (if k = key then Some x else vget (Object m) k))) \<or>
    (r = status INVALID \<or> r = status LIMIT) \<and> w' = w"
proof -
  obtain key where key: "guest_text e w p n = Some key"
    using assms(1) by (cases "guest_text e w p n") (simp_all add: h_set_def with_text_def)
  note eq = assms(1) [unfolded h_set_eq [OF key assms(2)]]
  show ?thesis
  proof (cases "\<exists>x m. json_of c v = Some x \<and> json_of c h = Some (Object m)")
    case True
    then obtain x m where x: "json_of c v = Some x" "json_of c h = Some (Object m)" by blast
    let ?t = "Object (bt_insert key x m)"
    show ?thesis
    proof (cases "valid_value (to_vec e) ?t")
      case True
      with eq x have "r = 0" "w' = replace_handle h (Json ?t) c w" by (simp_all add: Let_def)
      moreover have "\<forall>k. vget ?t k = (if k = key then Some x else vget (Object m) k)"
        by (simp only: vget_insert) simp
      ultimately show ?thesis using key x True is_object.simps(1) by blast
    next
      case False
      with eq x show ?thesis by (simp add: Let_def)
    qed
  next
    case False
    with eq have "r = status INVALID \<and> w' = w"
      by (auto split: option.splits json.splits)
    then show ?thesis by simp
  qed
qed

lemma h_set_ok:
  assumes "h_set e w h p n v r5 = Ret 0 w'" and "wguest w = Some c"
  obtains key x m where "guest_text e w p n = Some key" "json_of c v = Some x"
    "json_of c h = Some (Object m)"
    "w' = replace_handle h (Json (Object (bt_insert key x m))) c w"
proof -
  obtain key where key: "guest_text e w p n = Some key"
    using assms(1) by (cases "guest_text e w p n") (simp_all add: h_set_def with_text_def)
  from assms(1) [unfolded h_set_eq [OF key assms(2)]] that [OF key] show thesis
    by (auto simp: Let_def split: option.splits json.splits if_splits)
qed

lemma replace_world:
  assumes "guest_inv w" "wguest w = Some c" "json_of c h = Some x"
  shows "guest_inv (replace_handle h v c w)"
  using grows_replace [OF assms(2,3)] assms(1) by (simp add: grows_def)

text \<open>
  What was set is what is read back: after a successful \<^verbatim>\<open>sf_json_set_raw\<close>, getting the
  same key from the same object gives a new positive handle of exactly that value, or the
  handle table is full and the guest is told so.
\<close>

lemma json_set_then_get:
  assumes inv: "guest_inv w" and set: "h_set e w h p n v r5 = Ret 0 w'"
    and c: "wguest w = Some c" and key: "guest_text e w' q k = guest_text e w p n"
  shows "\<exists>c'' r w''. h_get e w' h q k r4 r5' = Ret r w'' \<and>
    (0 < sint r \<and> wguest w'' = Some c'' \<and> json_of c'' r = json_of c v \<and> json_of c r = None \<or>
     r = status LIMIT \<and> w'' = w')"
proof -
  obtain key x m where s: "guest_text e w p n = Some key" "json_of c v = Some x"
    "json_of c h = Some (Object m)"
    "w' = replace_handle h (Json (Object (bt_insert key x m))) c w"
    by (rule h_set_ok [OF set c])
  let ?c = "c\<lparr>handles := AList.update h (Json (Object (bt_insert key x m))) (handles c)\<rparr>"
  have w': "wguest w' = Some ?c" by (simp add: s(4) replace_handle_def)
  have inv': "guest_inv w'" unfolding s(4) by (rule replace_world [OF inv c s(3)])
  have get: "h_get e w' h q k r4 r5' = insert_handle (Json x) ?c w'"
    using key s(1) w' by (simp add: h_get_def with_text_def ctx_def)
  show ?thesis
  proof (cases rule: insert_handle_cases [OF inv' w', of "Json x"])
    case 1
    with get show ?thesis by simp
  next
    case (2 r c' w'')
    then have "json_of c' r = Some x" "json_of c r = None"
      by (auto simp: json_of_def split: if_splits)
    with 2 get s(2) show ?thesis by auto
  qed
qed

text \<open>
  Appending is all or nothing, and the element appended is the one found at the old
  length.
\<close>

lemma json_push_then_at:
  assumes inv: "guest_inv w" and push: "h_push e w h v r3 r4 r5 = Ret 0 w'"
    and c: "wguest w = Some c"
  shows "\<exists>a c'' r w''. json_of c h = Some (Array a) \<and>
    h_at e w' h (of_nat (length a)) r3' r4' r5' = Ret r w'' \<and>
    (0 < sint r \<and> wguest w'' = Some c'' \<and> json_of c'' r = json_of c v \<and> json_of c r = None \<or>
     r = status LIMIT \<and> w'' = w')"
proof -
  obtain x a where s: "json_of c v = Some x" "json_of c h = Some (Array a)"
    "valid_value (to_vec e) (Array (a @ [x]))"
    "w' = replace_handle h (Json (Array (a @ [x]))) c w"
    using push c by (auto simp: h_push_def ctx_def Let_def split: option.splits json.splits if_splits)
  let ?c = "c\<lparr>handles := AList.update h (Json (Array (a @ [x]))) (handles c)\<rparr>"
  have small: "length a < 4096" using valid_array_small [OF s(3)] by simp
  have w': "wguest w' = Some ?c" by (simp add: s(4) replace_handle_def)
  have inv': "guest_inv w'" unfolding s(4) by (rule replace_world [OF inv c s(2)])
  have get: "h_at e w' h (of_nat (length a)) r3' r4' r5' = insert_handle (Json x) ?c w'"
    using w' small by (simp add: h_at_def ctx_def unsigned_of_nat take_bit_nat_eq_self nth_append)
  show ?thesis
  proof (cases rule: insert_handle_cases [OF inv' w', of "Json x"])
    case 1
    with get s(2) show ?thesis by auto
  next
    case (2 r c' w'')
    then have "json_of c' r = Some x" "json_of c r = None"
      by (auto simp: json_of_def split: if_splits)
    with 2 get s(1,2) show ?thesis by auto
  qed
qed

section \<open>Host calls\<close>

text \<open>
  C22: a host call leaves the guest exactly when the capability text is readable, the
  arguments handle is a JSON value, and one of the object's own capabilities has that name
  and every argument it pins has the pinned value; it then carries the object's own id, and
  a timeout of at most a day.
\<close>

theorem host_call_authorised:
  "h_call e w p n h ms r5 = Post t w' \<longleftrightarrow>
    (\<exists>cap c args. guest_text e w p n = Some cap \<and> wguest w = Some c \<and> json_of c h = Some args \<and>
      (\<exists>g \<in> set (capabilities c). cap_name g = cap \<and>
         (\<forall>(k, v) \<in> set (cap_arguments g). \<exists>x. vget args k = Some x \<and> value_eq x v)) \<and>
      t = CallTask (gid c) cap args (min ms 86400000) \<and> w' = w\<lparr>hwait := ''host_rpc''\<rparr>)"
proof -
  have g: "grants g cap args \<longleftrightarrow> cap_name g = cap \<and>
      (\<forall>(k, v) \<in> set (cap_arguments g). \<exists>x. vget args k = Some x \<and> value_eq x v)" for g cap args
    by (auto simp: grants_def list_all_iff split: option.splits)
  show ?thesis
    unfolding h_call_def with_text_def ctx_def list_ex_iff g timeout_ms_def wait_for_def
    by (auto split: option.splits)
qed

section \<open>Bytes\<close>

text \<open>Guest memory: what was stored through a writable slice is read back.\<close>

definition memory_law :: "'m env \<Rightarrow> bool" where
  "memory_law e \<longleftrightarrow> (\<forall>m p n store b.
     user_memory_mut e m p n = Some store \<and> length b \<le> unat n \<longrightarrow>
     user_memory e (store b) p (of_nat (length b)) = Some b)"

lemma memory_lawD:
  "memory_law e \<Longrightarrow> user_memory_mut e m p n = Some store \<Longrightarrow> length b \<le> unat n \<Longrightarrow>
   user_memory e (store b) p (of_nat (length b)) = Some b"
  by (simp add: memory_law_def)

lemma unat_le: "k \<le> unat (n :: u64) \<Longrightarrow> unat (of_nat k :: u64) = k"
proof -
  assume "k \<le> unat n"
  moreover have "unat n < 2 ^ LENGTH(64)" by (rule unsigned_less)
  ultimately show ?thesis by (simp add: unsigned_of_nat take_bit_nat_eq_self)
qed

text \<open>
  A read copies exactly the window of the bytes that starts at the offset and is as long
  as the buffer or the rest, whichever is shorter, to the start of the buffer, and returns
  that length; nothing else of the guest's state changes.
\<close>

lemma bytes_read_window:
  assumes law: "memory_law e" and c: "wguest w = Some c" "map_of (handles c) h = Some (Bytes b)"
    and n: "unat n \<le> MAX_VALUE_BYTES" and off: "unat off \<le> length b"
    and r: "h_read e w h off p n r5 = Ret r w'"
  shows "unat r = min (unat n) (length b - unat off) \<and>
    user_memory e (mem w') p r = Some (take (unat n) (drop (unat off) b)) \<and>
    w' = w\<lparr>mem := mem w'\<rparr>"
proof -
  let ?len = "min (unat n) (length b - unat off)"
  have "\<not> of_nat MAX_VALUE_BYTES < n"
    using n by (simp add: word_less_nat_alt MAX_VALUE_BYTES_def)
  with c off r obtain store where s: "user_memory_mut e (mem w) p (of_nat ?len) = Some store"
    "r = of_nat ?len" "w' = w\<lparr>mem := store (take ?len (drop (unat off) b))\<rparr>"
    by (auto simp: h_read_def ctx_def Let_def split: option.splits)
  have u: "unat (of_nat ?len :: u64) = ?len" by (rule unat_le [of _ n]) simp
  have len: "length (take ?len (drop (unat off) b)) = ?len" by simp
  have "user_memory e (store (take ?len (drop (unat off) b))) p (of_nat ?len) =
      Some (take ?len (drop (unat off) b))"
    using memory_lawD [OF law s(1), of "take ?len (drop (unat off) b)"] unfolding len u by simp
  then have "user_memory e (mem w') p (of_nat ?len) = Some (take ?len (drop (unat off) b))"
    unfolding s(3) by simp
  moreover have "take ?len (drop (unat off) b) = take (unat n) (drop (unat off) b)"
    by (simp add: min_def)
  ultimately show ?thesis using u s by simp
qed

lemma bytes_cmp_spec:
  "bytes_cmp x y = (if x = y then 0 else if (x, y) \<in> lexord {(a, b). byte a < byte b} then - 1 else 1)"
  by (induction x y rule: bytes_cmp.induct) auto

text \<open>
  \<^verbatim>\<open>memcmp\<close> is the lexicographic comparison of the two slices as unsigned bytes: 0
  exactly when they are equal, negative when the first is smaller; it changes nothing.
\<close>

lemma memcmp_lexicographic:
  assumes "h_memcmp e w a b n r4 r5 = Ret r w'"
  shows "\<exists>x y. user_memory e (mem w) a n = Some x \<and> user_memory e (mem w) b n = Some y \<and>
    w' = w \<and> sint r = (if x = y then 0
      else if (x, y) \<in> lexord {(a, b). byte a < byte b} then - 1 else 1)"
proof -
  obtain x y where "user_memory e (mem w) a n = Some x" "user_memory e (mem w) b n = Some y"
    "r = status (bytes_cmp x y)" "w' = w"
    using assms by (auto simp: h_memcmp_def split: if_splits option.splits)
  moreover have "sint (status (bytes_cmp x y)) = bytes_cmp x y"
    by (rule sint_status) (simp_all add: bytes_cmp_spec)
  ultimately show ?thesis by (simp add: bytes_cmp_spec)
qed


section \<open>The properties at work\<close>

text \<open>
  A guest with an object, an array, the value \<open>null\<close> and three bytes, allowed to call
  \<open>kv\<close> when the argument \<open>k\<close> is \<open>null\<close>.
\<close>

definition demo_context :: guest where
  "demo_context = (guest_new ''a'' Null
       [\<lparr>cap_name = ''kv'', cap_arguments = [(''k'', Null)]\<rparr>] 0)
     \<lparr>handles := [(1, Json (Object [(''k'', Null)])), (2, Json (Array [])), (3, Json Null),
        (4, Bytes ''xyz'')]\<rparr>"

definition demo_world :: "bytes hworld" where
  "demo_world = \<lparr>wguest = Some demo_context, next_handle = 5, hout = outbox_new,
     hwait = ''none'', mem = ''kvkv....''\<rparr>"

lemma flat_memory: "memory_law (flat_env now)"
proof -
  have "user_memory (flat_env now) (store b) p (of_nat (length b)) = Some b"
    if s: "user_memory_mut (flat_env now) m p n = Some store" and b: "length b \<le> unat n"
    for m p n store b
  proof -
    from s have "unat p + unat n \<le> length m" "store b = take (unat p) m @ b @ drop (unat p + length b) m"
      by (auto simp: flat_env_def split: if_splits)
    with b show ?thesis by (simp add: flat_env_def unat_le [OF b])
  qed
  then show ?thesis unfolding memory_law_def by blast
qed

lemma demo_world_inv: "guest_inv demo_world"
proof -
  have "guest_ok demo_context 5"
    by (auto simp: guest_ok_def demo_context_def guest_new_def MAX_HANDLES_def amap_def
        split: if_splits)
  then show ?thesis by (simp add: guest_inv_def demo_world_def I64_MAX_def)
qed

lemma demo_text:
  "guest_text (flat_env t) demo_world 1 1 = Some ''v''"
  "guest_text (flat_env t) demo_world 0 2 = Some ''kv''"
  by (simp_all add: guest_text_def demo_world_def flat_env_def MAX_VALUE_BYTES_def utf8_ascii)

lemmas demo_world_eval =
  demo_world_def demo_context_def guest_new_def json_of_def ctx_def with_text_def
  valid_value_iff tiny_enc_def MAX_VALUE_BYTES_def Let_def

lemma demo_set:
  "h_set (flat_env 0) demo_world 1 1 1 3 0 =
     Ret 0 (replace_handle 1 (Json (Object [(''k'', Null), (''v'', Null)])) demo_context demo_world)"
proof -
  have "json_of demo_context 3 = Some Null" "json_of demo_context 1 = Some (Object [(''k'', Null)])"
    by (simp_all add: json_of_def demo_context_def)
  moreover have "wguest demo_world = Some demo_context" by (simp add: demo_world_def)
  ultimately show ?thesis
    using h_set_eq [OF demo_text(1)]
    by (simp add: flat_env_def valid_value_iff tiny_enc_def MAX_VALUE_BYTES_def Let_def)
qed

lemma demo_guest_of [simp]: "wguest demo_world = Some demo_context"
  by (simp add: demo_world_def)

lemma json_set_atomic_witness:
  "\<exists>target. vget target ''v'' = Some Null \<and> vget target ''k'' = Some Null \<and>
    valid_value tiny_enc target"
proof -
  have enc: "to_vec (flat_env 0) = tiny_enc" by (simp add: flat_env_def)
  have obj: "json_of demo_context 1 = Some (Object [(''k'', Null)])"
    "json_of demo_context 3 = Some Null"
    by (simp_all add: json_of_def demo_context_def)
  have "0 \<noteq> status INVALID" "0 \<noteq> status LIMIT"
    using status_INVALID_0 status_LIMIT_0 by metis+
  with json_set_atomic [OF demo_set demo_guest_of] obtain key x m target where
    t: "''v'' = key" "Null = x" "Object [(''k'', Null)] = Object m" "valid_value tiny_enc target"
      "\<forall>k. vget target k = (if k = key then Some x else vget (Object m) k)"
    unfolding enc demo_text(1) obj option.inject by blast
  from t(4) t(5) [folded t(1,2,3)] show ?thesis by (intro exI [of _ target]) simp
qed

lemma json_set_then_get_witness:
  "\<exists>r w''. h_get (flat_env 0)
     (replace_handle 1 (Json (Object [(''k'', Null), (''v'', Null)])) demo_context demo_world)
     1 1 1 0 0 = Ret r w''"
proof -
  have "guest_text (flat_env 0)
     (replace_handle 1 (Json (Object [(''k'', Null), (''v'', Null)])) demo_context demo_world) 1 1 =
     guest_text (flat_env 0) demo_world 1 1"
    by (simp add: guest_text_def replace_handle_def)
  from json_set_then_get [OF demo_world_inv demo_set demo_guest_of this, of 0 0]
  show ?thesis by blast
qed

lemma demo_push:
  "h_push (flat_env 0) demo_world 2 3 0 0 0 =
     Ret 0 (replace_handle 2 (Json (Array [Null])) demo_context demo_world)"
  by (simp add: h_push_def demo_world_eval flat_env_def replace_handle_def)

lemma json_push_then_at_witness:
  "\<exists>r w''. h_at (flat_env 0) (replace_handle 2 (Json (Array [Null])) demo_context demo_world)
     2 0 0 0 0 = Ret r w''"
proof -
  have "json_of demo_context 2 = Some (Array [])" by (simp add: json_of_def demo_context_def)
  with json_push_then_at [OF demo_world_inv demo_push demo_guest_of, of 0 0 0]
  show ?thesis by auto
qed

theorem host_call_authorised_witness:
  "h_call (flat_env 0) demo_world 0 2 1 5 0 =
     Post (CallTask ''a'' ''kv'' (Object [(''k'', Null)]) 5) (demo_world\<lparr>hwait := ''host_rpc''\<rparr>)"
proof -
  have "json_of demo_context 1 = Some (Object [(''k'', Null)])" "gid demo_context = ''a''"
    "capabilities demo_context = [\<lparr>cap_name = ''kv'', cap_arguments = [(''k'', Null)]\<rparr>]"
    by (simp_all add: json_of_def demo_context_def guest_new_def)
  then show ?thesis
    unfolding host_call_authorised demo_text demo_guest_of by simp
qed

lemma bytes_read_window_witness:
  "\<exists>r w'. h_read (flat_env 0) demo_world 4 1 0 8 0 = Ret r w' \<and> unat r = 2 \<and>
     user_memory (flat_env 0) (mem w') 0 r = Some ''yz''"
proof -
  obtain w' where r: "h_read (flat_env 0) demo_world 4 1 0 8 0 = Ret 2 w'"
    by (simp add: h_read_def demo_world_eval flat_env_def)
  have b: "map_of (handles demo_context) 4 = Some (Bytes ''xyz'')" by (simp add: demo_context_def)
  from bytes_read_window [OF flat_memory demo_guest_of b _ _ r] r show ?thesis
    by (simp add: MAX_VALUE_BYTES_def)
qed

end
