(* ===== verification/CompilerFiles.thy ===== *)
theory CompilerFiles
  imports BuildRequest HelperJson
begin

text \<open>
  The compiler's sandbox (\<^verbatim>\<open>src/build/compiler.rs\<close>): the compiler is a guest program whose
  only helpers are a memory-only file table, one output buffer and two message channels.
  Guest memory is the parameter \<open>env\<close> as for the other helpers. A helper of the compiler may
  fault the program after it has changed the context, so a fault carries the context.
\<close>

section \<open>Lossy decoding\<close>

text \<open>
  \<^verbatim>\<open>String::from_utf8_lossy\<close>: every longest prefix of an encoding that cannot be continued
  becomes one replacement character. \<open>opens\<close> are the proper prefixes of encodings.
\<close>

definition replacement :: bytes where
  "replacement = [CHR 0xEF, CHR 0xBF, CHR 0xBD]"

fun opens :: "bytes \<Rightarrow> bool" where
  "opens [a] = within 0xC2 0xF4 a"
| "opens [a, b] =
     (byte a = 0xE0 \<and> within 0xA0 0xBF b \<or>
      (within 0xE1 0xEC a \<or> within 0xEE 0xEF a) \<and> cont b \<or>
      byte a = 0xED \<and> within 0x80 0x9F b \<or>
      byte a = 0xF0 \<and> within 0x90 0xBF b \<or>
      within 0xF1 0xF3 a \<and> cont b \<or>
      byte a = 0xF4 \<and> within 0x80 0x8F b)"
| "opens [a, b, c] =
     ((byte a = 0xF0 \<and> within 0x90 0xBF b \<or>
       within 0xF1 0xF3 a \<and> cont b \<or>
       byte a = 0xF4 \<and> within 0x80 0x8F b) \<and> cont c)"
| "opens _ = False"

function lossy :: "bytes \<Rightarrow> string" where
  "lossy [] = []"
| "lossy (a # s) =
     (if scalar [a] then a # lossy s
      else if scalar (a # take 1 s) then (a # take 1 s) @ lossy (drop 1 s)
      else if scalar (a # take 2 s) then (a # take 2 s) @ lossy (drop 2 s)
      else if scalar (a # take 3 s) then (a # take 3 s) @ lossy (drop 3 s)
      else if opens (a # take 2 s) then replacement @ lossy (drop 2 s)
      else if opens (a # take 1 s) then replacement @ lossy (drop 1 s)
      else replacement @ lossy s)"
  by pat_completeness auto
termination by (relation "measure length") auto

declare lossy.simps(2) [simp del]

lemma replacement_scalar: "scalar replacement"
  by (simp add: replacement_def scalar.simps within_def)

lemma lossy_utf8: "utf8 (lossy s)"
proof (induction s rule: lossy.induct)
  case (2 a s)
  have cons: "utf8 (u @ t)" if "scalar u" "utf8 t" for u t
    using that by (simp add: utf8_scalar_append)
  show ?case
    using "2.IH" cons [of "[a]"] cons [of "a # take 1 s"] cons [of "a # take 2 s"]
      cons [of "a # take 3 s"] cons [OF replacement_scalar]
    by (subst lossy.simps) (auto split: if_splits)
qed simp

lemma lossy_id: "utf8 s \<Longrightarrow> lossy s = s"
proof (induction s rule: lossy.induct)
  case (2 a s)
  from "2.prems" "2.IH" show ?case
    by (subst lossy.simps) (auto simp: utf8.simps(2) split: if_splits)
qed simp

section \<open>The context\<close>

record vfs =
  cinput :: bytes
  cfiles :: "(string \<times> bytes) list"
  copen :: "(u64 \<times> string \<times> nat) list"
  cnext :: u64
  coutput :: bytes
  cerror :: string
  cdiagnostics :: string
  ctruncated :: bool

definition MAX_OUTPUT :: nat where
  "MAX_OUTPUT = 64 * 1024"

definition MAX_TEXT :: nat where
  "MAX_TEXT = 16 * 1024"

text \<open>The context of one compilation: the request's files under \<^verbatim>\<open>/src\<close> and the SDK header.\<close>

definition compile_context :: "bytes \<Rightarrow> build_request \<Rightarrow> vfs" where
  "compile_context sdk req =
     \<lparr>cinput = ''/src/'' @ entry_file req @ [CHR 0x00],
      cfiles = AList.update ''/src/spinfoam.h'' sdk
        (map (\<lambda>(k, v). (''/src/'' @ k, v)) (files req)),
      copen = [], cnext = 0, coutput = [], cerror = [], cdiagnostics = [], ctruncated = False\<rparr>"

datatype 'm cres = Halt vfs | Value u64 vfs 'm

definition NOT_FOUND :: u64 where
  "NOT_FOUND = - 1"

section \<open>The helpers\<close>

definition c_input :: "'m env \<Rightarrow> vfs \<Rightarrow> 'm \<Rightarrow> u64 \<Rightarrow> u64 \<Rightarrow> 'm cres" where
  "c_input e c m ptr len =
     (case user_memory_mut e m ptr len of
        None \<Rightarrow> Halt c
      | Some store \<Rightarrow>
          if unat len \<noteq> length (cinput c) then Halt c else Value len c (store (cinput c)))"

definition c_write :: "'m env \<Rightarrow> vfs \<Rightarrow> 'm \<Rightarrow> u64 \<Rightarrow> u64 \<Rightarrow> 'm cres" where
  "c_write e c m ptr len =
     (case user_memory e m ptr len of
        None \<Rightarrow> Halt c
      | Some b \<Rightarrow>
          if MAX_OUTPUT - length (coutput c) < unat len
          then Halt (c\<lparr>cerror := ''compiler output exceeds 64 KiB''\<rparr>)
          else Value len (c\<lparr>coutput := coutput c @ b\<rparr>) m)"

definition c_fatal :: "'m env \<Rightarrow> vfs \<Rightarrow> 'm \<Rightarrow> u64 \<Rightarrow> u64 \<Rightarrow> 'm cres" where
  "c_fatal e c m ptr len =
     (case user_memory e m ptr (min len 4096) of
        None \<Rightarrow> Halt c
      | Some b \<Rightarrow> Halt (c\<lparr>cerror := lossy b\<rparr>))"

definition c_diagnostic :: "'m env \<Rightarrow> vfs \<Rightarrow> 'm \<Rightarrow> u64 \<Rightarrow> u64 \<Rightarrow> 'm cres" where
  "c_diagnostic e c m ptr len =
     (case user_memory e m ptr (min len (of_nat MAX_TEXT)) of
        None \<Rightarrow> Halt c
      | Some b \<Rightarrow>
          let message = lossy b @ [newline];
              remaining = MAX_TEXT - length (cdiagnostics c)
          in Value len
            (c\<lparr>ctruncated := ctruncated c \<or> MAX_TEXT < unat len \<or> remaining < length message,
               cdiagnostics := cdiagnostics c @ truncate_text message remaining\<rparr>) m)"

definition c_open :: "'m env \<Rightarrow> vfs \<Rightarrow> 'm \<Rightarrow> u64 \<Rightarrow> u64 \<Rightarrow> u64 \<Rightarrow> 'm cres" where
  "c_open e c m ptr len flags =
     (if 256 < len \<or> flags \<noteq> 0 then Value NOT_FOUND c m
      else case user_memory e m ptr len of
          None \<Rightarrow> Halt c
        | Some b \<Rightarrow>
            if \<not> utf8 b then Halt c
            else case virtual_path b of
                None \<Rightarrow> Value NOT_FOUND c m
              | Some name \<Rightarrow>
                  if name \<notin> set (map fst (cfiles c)) \<or> 64 \<le> length (copen c)
                  then Value NOT_FOUND c m
                  else case checked_inc (cnext c) of
                      None \<Rightarrow> Halt c
                    | Some n \<Rightarrow>
                        if 2147483645 < n then Halt c
                        else Value (n + 2)
                          (c\<lparr>cnext := n, copen := AList.update (n + 2) (name, 0) (copen c)\<rparr>) m)"

text \<open>\<open>None\<close> of the inner look-up is the panic of \<^verbatim>\<open>ctx.files[name]\<close>, see the invariant.\<close>

definition c_read :: "'m env \<Rightarrow> vfs \<Rightarrow> 'm \<Rightarrow> u64 \<Rightarrow> u64 \<Rightarrow> u64 \<Rightarrow> 'm cres option" where
  "c_read e c m fd ptr len =
     (case user_memory_mut e m ptr len of
        None \<Rightarrow> Some (Halt c)
      | Some store \<Rightarrow>
          (case map_of (copen c) fd of
             None \<Rightarrow> Some (Value NOT_FOUND c m)
           | Some (name, off) \<Rightarrow>
               (case map_of (cfiles c) name of
                  None \<Rightarrow> None
                | Some b \<Rightarrow>
                    if length b < off then None
                    else let n = min (unat len) (length b - off) in
                      Some (Value (of_nat n)
                        (c\<lparr>copen := AList.update fd (name, off + n) (copen c)\<rparr>)
                        (store (take n (drop off b)))))))"

definition c_close :: "vfs \<Rightarrow> 'm \<Rightarrow> u64 \<Rightarrow> 'm cres" where
  "c_close c m fd = Value 0 (c\<lparr>copen := AList.delete fd (copen c)\<rparr>) m"

text \<open>What the build makes of the context when the program has ended.\<close>

definition hex_digit :: "nat \<Rightarrow> char" where
  "hex_digit d = (if d < 10 then digit d else char_of (87 + d))"

fun show_hex :: "nat \<Rightarrow> string" where
  "show_hex n = (if n < 16 then [hex_digit n] else show_hex (n div 16) @ [hex_digit (n mod 16)])"

declare show_hex.simps [simp del]

definition compile_result :: "vfs \<Rightarrow> string + u64 \<Rightarrow> string + compiler_output" where
  "compile_result c res =
     (if cerror c \<noteq> [] then Inl (cerror c)
      else case res of
          Inl e \<Rightarrow> Inl e
        | Inr code \<Rightarrow>
            if code = 1 \<and> take 4 (coutput c) = [CHR 0x7F, CHR ''E'', CHR ''L'', CHR ''F'']
            then Inr \<lparr>out_elf = coutput c, out_diagnostics = cdiagnostics c, out_truncated = ctruncated c\<rparr>
            else Inl (''compiler failed (0x'' @ show_hex (unat code) @ '')''))"

section \<open>The sandbox as a machine\<close>

datatype 'm vfs_op =
    VInput u64 u64
  | VWrite u64 u64
  | VFatal u64 u64
  | VDiagnostic u64 u64
  | VOpen u64 u64 u64
  | VRead u64 u64 u64
  | VClose u64
  | VStore 'm

fun vfs_step :: "'m env \<Rightarrow> 'm vfs_op \<Rightarrow> vfs \<Rightarrow> 'm \<Rightarrow> 'm cres option" where
  "vfs_step e (VInput p n) c m = Some (c_input e c m p n)"
| "vfs_step e (VWrite p n) c m = Some (c_write e c m p n)"
| "vfs_step e (VFatal p n) c m = Some (c_fatal e c m p n)"
| "vfs_step e (VDiagnostic p n) c m = Some (c_diagnostic e c m p n)"
| "vfs_step e (VOpen p n flags) c m = Some (c_open e c m p n flags)"
| "vfs_step e (VRead fd p n) c m = c_read e c m fd p n"
| "vfs_step e (VClose fd) c m = Some (c_close c m fd)"
| "vfs_step e (VStore m') c m = Some (Value 0 c m')"

definition vfs_exec :: "'m env \<Rightarrow> 'm vfs_op \<Rightarrow> vfs \<times> 'm \<Rightarrow> vfs \<times> 'm" where
  "vfs_exec e op s =
     (case s of (c, m) \<Rightarrow>
      case vfs_step e op c m of
        Some (Value v c' m') \<Rightarrow> (c', m')
      | Some (Halt c') \<Rightarrow> (c', m)
      | None \<Rightarrow> (c, m))"

text \<open>
  At most 64 open files, each a descriptor from 3 to \<open>n + 2\<close>, on an existing file, at an offset
  within it; messages are text; the buffers are bounded.
\<close>

definition vfs_inv :: "vfs \<Rightarrow> bool" where
  "vfs_inv c \<longleftrightarrow>
     amap (copen c) \<and> length (copen c) \<le> 64 \<and> cnext c \<le> 2147483645 \<and>
     (\<forall>fd name off. map_of (copen c) fd = Some (name, off) \<longrightarrow>
        3 \<le> fd \<and> fd \<le> cnext c + 2 \<and>
        (\<exists>b. map_of (cfiles c) name = Some b \<and> off \<le> length b)) \<and>
     length (coutput c) \<le> MAX_OUTPUT \<and> length (cdiagnostics c) \<le> MAX_TEXT \<and>
     utf8 (cdiagnostics c) \<and> utf8 (cerror c)"


text \<open>A readable slice has the length that was asked for.\<close>

definition slice_law :: "'m env \<Rightarrow> bool" where
  "slice_law e \<longleftrightarrow> (\<forall>m p n b. user_memory e m p n = Some b \<longrightarrow> length b = unat n)"

lemma fd_bounds:
  fixes n :: u64
  assumes "n \<le> 2147483645"
  shows "n < n + 1" "n + 1 < n + 1 + 2" "3 \<le> n + 1 + 2" "n + 2 < n + 1 + 2"
proof -
  have n: "unat n \<le> 2147483645" using assms by (simp add: word_le_nat_alt)
  have 1: "unat (n + 1) = unat n + 1" "unat (n + 2) = unat n + 2" "unat (n + 1 + 2) = unat n + 3"
    using n by (simp_all add: unat_word_ariths)
  then show "n < n + 1" "n + 1 < n + 1 + 2" "3 \<le> n + 1 + 2" "n + 2 < n + 1 + 2"
    by (simp_all only: word_less_nat_alt word_le_nat_alt) (simp_all add: 1)
qed

lemma open_inv:
  assumes inv: "vfs_inv c" and name: "name \<in> set (map fst (cfiles c))" "length (copen c) < 64"
    and n: "checked_inc (cnext c) = Some n" "n \<le> 2147483645"
  shows "vfs_inv (c\<lparr>cnext := n, copen := AList.update (n + 2) (name, 0) (copen c)\<rparr>)"
proof -
  have le: "cnext c \<le> 2147483645" using inv by (simp add: vfs_inv_def)
  have n': "n = cnext c + 1" using n(1) by (simp add: checked_inc_Some)
  obtain b where b: "map_of (cfiles c) name = Some b"
    using name(1) by (cases "map_of (cfiles c) name") (auto simp: map_of_eq_None_iff)
  have old: "fd \<le> n + 2" if "fd \<le> cnext c + 2" for fd
    using that fd_bounds(4) [OF le] unfolding n' by simp
  show ?thesis
    using inv b name(2) n(2) old fd_bounds(3) [OF le] unfolding vfs_inv_def
    by (auto simp: length_update n')
qed

lemma read_inv:
  assumes inv: "vfs_inv c" and fd: "map_of (copen c) fd = Some (name, off)"
    and b: "map_of (cfiles c) name = Some b" and n: "off + n \<le> length b"
  shows "vfs_inv (c\<lparr>copen := AList.update fd (name, off + n) (copen c)\<rparr>)"
proof -
  have "length (AList.update fd (name, off + n) (copen c)) = length (copen c)"
    using fd unfolding length_update mem_keys_map_of by simp
  with assms show ?thesis unfolding vfs_inv_def by auto
qed

lemma close_inv: "vfs_inv c \<Longrightarrow> vfs_inv (c\<lparr>copen := AList.delete fd (copen c)\<rparr>)"
  using order_trans [OF length_delete, of "copen c" 64 fd] unfolding vfs_inv_def by auto

lemma read_safe:
  assumes "vfs_inv c"
  shows "c_read e c m fd p n \<noteq> None"
proof (cases "map_of (copen c) fd")
  case (Some x)
  obtain name off where x: "x = (name, off)" by fastforce
  with Some assms obtain b where "map_of (cfiles c) name = Some b" "off \<le> length b"
    unfolding vfs_inv_def by blast
  with Some x show ?thesis by (auto simp: c_read_def Let_def split: option.splits)
qed (auto simp: c_read_def split: option.splits)

lemma diagnostic_inv:
  assumes "vfs_inv c"
  shows "vfs_inv (c\<lparr>ctruncated := t, cdiagnostics := cdiagnostics c @
    truncate_text (lossy b @ [newline]) (MAX_TEXT - length (cdiagnostics c))\<rparr>)"
proof -
  let ?t = "truncate_text (lossy b @ [newline]) (MAX_TEXT - length (cdiagnostics c))"
  have "utf8 [newline]" by (rule utf8_ascii) (simp add: newline_def)
  then have "utf8 ?t" by (intro truncate_utf8 utf8_append lossy_utf8)
  moreover have "length ?t \<le> MAX_TEXT - length (cdiagnostics c)" by (rule truncate_length)
  ultimately show ?thesis using assms by (auto simp: vfs_inv_def intro: utf8_append)
qed

lemma vfs_inv_exec:
  assumes law: "slice_law e" and inv: "vfs_inv (fst s)"
  shows "vfs_inv (fst (vfs_exec e op s))"
proof -
  obtain c m where s: "s = (c, m)" by fastforce
  with inv have c: "vfs_inv c" by simp
  show ?thesis
  proof (cases op)
    case (VInput p n)
    with c s show ?thesis by (auto simp: vfs_exec_def c_input_def split: option.splits)
  next
    case (VWrite p n)
    have "utf8 ''compiler output exceeds 64 KiB''" by (rule utf8_ascii) simp
    moreover have "length b = unat n" if "user_memory e m p n = Some b" for b
      using law that unfolding slice_law_def by blast
    ultimately show ?thesis using c s VWrite
      by (auto simp: vfs_exec_def c_write_def vfs_inv_def split: option.splits)
  next
    case (VFatal p n)
    with c s show ?thesis
      by (auto simp: vfs_exec_def c_fatal_def vfs_inv_def lossy_utf8 split: option.splits)
  next
    case (VDiagnostic p n)
    with c s show ?thesis
      by (auto simp: vfs_exec_def c_diagnostic_def Let_def diagnostic_inv split: option.splits)
  next
    case (VOpen p n flags)
    show ?thesis
      unfolding s VOpen vfs_exec_def vfs_step.simps c_open_def prod.case
      using c open_inv [OF c]
      by (simp add: not_less not_le split: option.split)
  next
    case (VRead fd p n)
    show ?thesis
      unfolding s VRead vfs_exec_def vfs_step.simps c_read_def prod.case
      using c read_inv [OF c] by (auto simp: Let_def split: option.splits)
  next
    case (VClose fd)
    with c s show ?thesis by (simp add: vfs_exec_def c_close_def close_inv)
  next
    case (VStore m')
    with c s show ?thesis by (simp add: vfs_exec_def)
  qed
qed


lemma compile_context_inv: "vfs_inv (compile_context sdk req)"
  by (simp add: vfs_inv_def compile_context_def amap_def)

lemma vfs_run_inv:
  "slice_law e \<Longrightarrow> vfs_inv (fst s) \<Longrightarrow> vfs_inv (fst (fold (vfs_exec e) ops s))"
  by (induction ops arbitrary: s) (simp_all add: vfs_inv_exec)

text \<open>Fields no helper changes, and the descriptor counter.\<close>

lemma vfs_exec_keeps:
  "cfiles (fst (vfs_exec e op s)) = cfiles (fst s)" "cinput (fst (vfs_exec e op s)) = cinput (fst s)"
  by (cases s; cases op; auto simp: vfs_exec_def c_input_def c_write_def c_fatal_def c_diagnostic_def
      c_open_def c_read_def c_close_def Let_def split: option.splits)+

lemma vfs_run_keeps:
  "cfiles (fst (fold (vfs_exec e) ops s)) = cfiles (fst s)"
  "cinput (fst (fold (vfs_exec e) ops s)) = cinput (fst s)"
  by (induction ops arbitrary: s) (simp_all add: vfs_exec_keeps)

lemma vfs_exec_next:
  assumes "vfs_inv (fst s)"
  shows "cnext (fst s) \<le> cnext (fst (vfs_exec e op s))"
proof -
  have "cnext (fst s) \<le> cnext (fst s) + 1"
    using assms fd_bounds(1) [of "cnext (fst s)"] by (simp add: vfs_inv_def)
  then show ?thesis
    by (cases s; cases op; auto simp: vfs_exec_def c_input_def c_write_def c_fatal_def
        c_diagnostic_def c_open_def c_read_def c_close_def Let_def checked_inc_Some
        split: option.splits)
qed

lemma vfs_run_next:
  "slice_law e \<Longrightarrow> vfs_inv (fst s) \<Longrightarrow> cnext (fst s) \<le> cnext (fst (fold (vfs_exec e) ops s))"
proof (induction ops arbitrary: s)
  case (Cons op ops)
  from Cons.IH [OF Cons.prems(1) vfs_inv_exec [OF Cons.prems]] vfs_exec_next [OF Cons.prems(2)]
  show ?case by (auto intro: order_trans)
qed simp

section \<open>Reading a file\<close>

text \<open>The bytes a read has put into guest memory.\<close>

definition read_data :: "'m env \<Rightarrow> u64 \<Rightarrow> 'm vfs_op \<Rightarrow> vfs \<times> 'm \<Rightarrow> bytes" where
  "read_data e fd op s =
     (case op of
        VRead fd' p n \<Rightarrow>
          if fd' = fd then
            (case vfs_step e op (fst s) (snd s) of
               Some (Value v c m) \<Rightarrow> (case user_memory e m p v of Some b \<Rightarrow> b | None \<Rightarrow> [])
             | _ \<Rightarrow> [])
          else []
      | _ \<Rightarrow> [])"

fun all_data :: "'m env \<Rightarrow> u64 \<Rightarrow> 'm vfs_op list \<Rightarrow> vfs \<times> 'm \<Rightarrow> bytes" where
  "all_data e fd [] s = []"
| "all_data e fd (op # ops) s = read_data e fd op s @ all_data e fd ops (vfs_exec e op s)"

lemma other_fd:
  assumes "vfs_inv c" "map_of (copen c) fd = Some x" "\<forall>p n. op \<noteq> VRead fd p n" "op \<noteq> VClose fd"
  shows "map_of (copen (fst (vfs_exec e op (c, m)))) fd = Some x"
proof -
  have le: "cnext c \<le> 2147483645" using assms(1) by (simp add: vfs_inv_def)
  have "fd \<le> cnext c + 2" using assms(1,2) unfolding vfs_inv_def by (cases x) auto
  then have "fd \<noteq> cnext c + 1 + 2" using fd_bounds(4) [OF le] by auto
  with assms(2-4) show ?thesis
    by (cases op; auto simp: vfs_exec_def c_input_def c_write_def c_fatal_def
        c_diagnostic_def c_open_def c_read_def c_close_def Let_def checked_inc_Some
        split: option.splits)
qed

lemma read_step:
  assumes law: "memory_law e" and fd: "map_of (copen c) fd = Some (name, off)"
    and b: "map_of (cfiles c) name = Some b" and off: "off \<le> length b"
  shows "\<exists>off'. map_of (copen (fst (vfs_exec e (VRead fd p n) (c, m)))) fd = Some (name, off') \<and>
    off \<le> off' \<and> off' \<le> length b \<and>
    read_data e fd (VRead fd p n) (c, m) = take (off' - off) (drop off b)"
proof (cases "user_memory_mut e m p n")
  case None
  with fd off show ?thesis
    by (intro exI [of _ off]) (simp add: vfs_exec_def c_read_def read_data_def)
next
  case (Some store)
  let ?n = "min (unat n) (length b - off)"
  have len: "length (take ?n (drop off b)) = ?n" by simp
  have "user_memory e (store (take ?n (drop off b))) p (of_nat ?n) = Some (take ?n (drop off b))"
    using memory_lawD [OF law Some, of "take ?n (drop off b)"] unfolding len by simp
  with Some fd b off show ?thesis
    by (intro exI [of _ "off + ?n"]) (simp add: vfs_exec_def c_read_def read_data_def Let_def)
qed

lemma take_windows:
  assumes "i \<le> j" "j \<le> k"
  shows "take (j - i) (drop i b) @ take (k - j) (drop j b) = take (k - i) (drop i b)"
proof -
  have "take ((j - i) + (k - j)) (drop i b) =
      take (j - i) (drop i b) @ take (k - j) (drop (j - i) (drop i b))"
    by (rule take_add)
  moreover have "(j - i) + (k - j) = k - i" "drop (j - i) (drop i b) = drop j b"
    using assms by simp_all
  ultimately show ?thesis by simp
qed

lemma reads_sequential:
  assumes "memory_law e" "slice_law e"
  shows "vfs_inv (fst s) \<Longrightarrow> map_of (copen (fst s)) fd = Some (name, off) \<Longrightarrow>
    map_of (cfiles (fst s)) name = Some b \<Longrightarrow> VClose fd \<notin> set ops \<Longrightarrow>
    \<exists>off'. map_of (copen (fst (fold (vfs_exec e) ops s))) fd = Some (name, off') \<and>
      off \<le> off' \<and> off' \<le> length b \<and> all_data e fd ops s = take (off' - off) (drop off b)"
proof (induction ops arbitrary: s off)
  case Nil
  then have "off \<le> length b" unfolding vfs_inv_def by (metis option.inject)
  with Nil show ?case by simp
next
  case (Cons op ops)
  obtain c m where s: "s = (c, m)" by fastforce
  have off: "off \<le> length b" using Cons.prems(1-3) unfolding vfs_inv_def by (metis option.inject)
  have "\<exists>o1. map_of (copen (fst (vfs_exec e op s))) fd = Some (name, o1) \<and> off \<le> o1 \<and>
      o1 \<le> length b \<and> read_data e fd op s = take (o1 - off) (drop off b)"
  proof (cases "\<exists>p n. op = VRead fd p n")
    case True
    with read_step [OF assms(1), of c fd name off b] Cons.prems(2,3) off s show ?thesis by auto
  next
    case False
    then have "read_data e fd op s = []" by (auto simp: read_data_def split: vfs_op.splits)
    moreover have "map_of (copen (fst (vfs_exec e op s))) fd = Some (name, off)"
      using other_fd [of c fd "(name, off)" op e m] Cons.prems s False by auto
    ultimately show ?thesis using off by auto
  qed
  then obtain o1 where o1: "map_of (copen (fst (vfs_exec e op s))) fd = Some (name, o1)"
    "off \<le> o1" "o1 \<le> length b" "read_data e fd op s = take (o1 - off) (drop off b)" by blast
  obtain off' where "map_of (copen (fst (fold (vfs_exec e) ops (vfs_exec e op s)))) fd =
      Some (name, off')" "o1 \<le> off'" "off' \<le> length b"
      "all_data e fd ops (vfs_exec e op s) = take (off' - o1) (drop o1 b)"
    using Cons.IH [OF vfs_inv_exec [OF assms(2) Cons.prems(1)] o1(1)] Cons.prems(3,4)
    by (auto simp: vfs_exec_keeps)
  moreover have "take (o1 - off) (drop off b) @ take (off' - o1) (drop o1 b) =
      take (off' - off) (drop off b)"
    by (rule take_windows [OF o1(2) \<open>o1 \<le> off'\<close>])
  ultimately show ?case using o1 by auto
qed


section \<open>Properties\<close>

text \<open>
  C15: whatever the compiler does with its helpers, its sandbox stays within bounds: the
  files are those of the request and the SDK header, at most 64 files are open, every
  descriptor is between 3 and \<open>2 ^ 31 - 1\<close> and names a file of the table at an offset
  inside it, so a read can neither panic nor leave the file; the output is at most 64 KiB,
  the diagnostics are at most 16 KiB of valid UTF-8.
\<close>

theorem compiler_sandbox_bounded:
  assumes "slice_law e"
  shows "let c0 = compile_context sdk req; c = fst (fold (vfs_exec e) ops (c0, m)) in
    cfiles c = cfiles c0 \<and> length (copen c) \<le> 64 \<and>
    (\<forall>fd name off. map_of (copen c) fd = Some (name, off) \<longrightarrow>
       3 \<le> unat fd \<and> unat fd < 2 ^ 31 \<and>
       (\<exists>b. map_of (cfiles c) name = Some b \<and> off \<le> length b)) \<and>
    (\<forall>fd p n. c_read e c (snd (fold (vfs_exec e) ops (c0, m))) fd p n \<noteq> None) \<and>
    length (coutput c) \<le> 65536 \<and> length (cdiagnostics c) \<le> 16384 \<and> utf8 (cdiagnostics c)"
proof -
  let ?c0 = "compile_context sdk req"
  let ?s = "fold (vfs_exec e) ops (?c0, m)"
  have inv: "vfs_inv (fst ?s)"
    by (rule vfs_run_inv [OF assms]) (simp add: compile_context_inv)
  have "3 \<le> unat fd \<and> unat fd < 2 ^ 31" if fd: "3 \<le> fd" "fd \<le> cnext (fst ?s) + 2" for fd
  proof -
    have "cnext (fst ?s) \<le> 2147483645" using inv by (simp add: vfs_inv_def)
    then have "unat (cnext (fst ?s)) \<le> 2147483645" by (simp add: word_le_nat_alt)
    then have "unat (cnext (fst ?s) + 2) \<le> 2147483647" by (simp add: unat_word_ariths)
    with fd show ?thesis by (simp add: word_le_nat_alt)
  qed
  with inv read_safe [OF inv] vfs_run_keeps(1) [of e ops "(?c0, m)"] show ?thesis
    unfolding vfs_inv_def MAX_OUTPUT_def MAX_TEXT_def Let_def by auto
qed

lemma c_open_value:
  assumes "c_open e c m p n flags = Value fd c' m'"
  shows "fd = NOT_FOUND \<and> c' = c \<or>
    (\<exists>x name. virtual_path x = Some name \<and> name \<in> set (map fst (cfiles c)) \<and>
       fd = cnext c + 1 + 2 \<and> map_of (copen c') fd = Some (name, 0))"
proof (cases "256 < n \<or> flags \<noteq> 0")
  case True
  with assms show ?thesis by (auto simp: c_open_def)
next
  case False
  show ?thesis
  proof (cases "user_memory e m p n")
    case None
    with False assms show ?thesis by (simp add: c_open_def)
  next
    case (Some x)
    show ?thesis
    proof (cases "virtual_path x")
      case None
      with Some False assms show ?thesis by (simp add: c_open_def split: if_splits)
    next
      case path: (Some name)
      show ?thesis
      proof (cases "name \<in> set (map fst (cfiles c)) \<and> length (copen c) < 64")
        case True
        with path Some False assms
        have "fd = cnext c + 1 + 2 \<and> map_of (copen c') fd = Some (name, 0)"
          by (auto simp: c_open_def checked_inc_Some not_le split: if_splits option.splits)
        with path True show ?thesis by blast
      next
        case no: False
        then have "name \<notin> set (map fst (cfiles c)) \<or> 64 \<le> length (copen c)" by auto
        with path Some False assms show ?thesis by (simp add: c_open_def split: if_splits)
      qed
    qed
  qed
qed

text \<open>
  A descriptor is given out once: what opening a file returns is either the not-found
  value, with nothing changed, or a descriptor that was never open before in this
  compilation, positioned at the start of a file of the table under \<^verbatim>\<open>/src\<close>.
\<close>

lemma descriptors_fresh:
  assumes "slice_law e" and "fold (vfs_exec e) ops (compile_context sdk req, m) = (c, m1)"
    and "c_open e c m1 p n flags = Value fd c' m2"
  shows "fd = NOT_FOUND \<and> c' = c \<or>
    (\<exists>name b ps. map_of (copen c') fd = Some (name, 0) \<and> map_of (cfiles c) name = Some b \<and>
       name = slash # join_slash (''src'' # ps) \<and> (\<forall>q \<in> set ps. named q)) \<and>
    (\<forall>k. map_of (copen (fst (fold (vfs_exec e) (take k ops) (compile_context sdk req, m)))) fd = None)"
proof -
  let ?s = "\<lambda>k. fold (vfs_exec e) (take k ops) (compile_context sdk req, m)"
  have inv: "vfs_inv (fst (?s k))" for k
    by (rule vfs_run_inv [OF assms(1)]) (simp add: compile_context_inv)
  have run: "fold (vfs_exec e) (drop k ops) (?s k) = (c, m1)" for k
    using assms(2) by (metis append_take_drop_id comp_apply fold_append)
  have below: "cnext (fst (?s k)) \<le> cnext c" for k
    using vfs_run_next [OF assms(1) inv, of k "drop k ops"] run [of k] by simp
  have c: "vfs_inv c" using inv [of "length ops"] assms(2) by simp
  have le: "cnext c \<le> 2147483645" using c by (simp add: vfs_inv_def)
  show ?thesis
  proof (cases "fd = NOT_FOUND \<and> c' = c")
    case False
    then obtain x name where o: "virtual_path x = Some name" "name \<in> set (map fst (cfiles c))"
      "fd = cnext c + 1 + 2" "map_of (copen c') fd = Some (name, 0)"
      using c_open_value [OF assms(3)] by (elim disjE) auto
    obtain ps where ps: "name = slash # join_slash (''src'' # ps)" "\<forall>q \<in> set ps. named q"
      using virtual_path_parts [OF o(1)] .
    obtain content where content: "map_of (cfiles c) name = Some content"
      using o(2) by (cases "map_of (cfiles c) name") (auto simp: map_of_eq_None_iff)
    have "map_of (copen (fst (?s k))) fd = None" for k
    proof (rule ccontr)
      assume "map_of (copen (fst (?s k))) fd \<noteq> None"
      then have "fd \<le> cnext (fst (?s k)) + 2" using inv [of k] unfolding vfs_inv_def by auto
      also have "\<dots> \<le> cnext c + 2"
      proof -
        have "unat (cnext c) \<le> 2147483645" "unat (cnext (fst (?s k))) \<le> unat (cnext c)"
          using le below [of k] by (simp_all add: word_le_nat_alt)
        then show ?thesis by (simp add: word_le_nat_alt unat_word_ariths)
      qed
      finally show False using fd_bounds(4) [OF le] o(3) by simp
    qed
    with o(4) content ps show ?thesis by blast
  qed simp
qed

text \<open>
  Reading is sequential. As long as a descriptor stays open, what its reads put into
  guest memory, joined together, is one contiguous piece of its file, beginning where the
  descriptor stood and ending where it now stands, whatever other files are opened, read and
  closed in between.
\<close>

lemma file_reads_sequential:
  assumes "memory_law e" and "slice_law e" and "VClose fd \<notin> set later"
    and "fold (vfs_exec e) ops (compile_context sdk req, m) = s"
    and "map_of (copen (fst s)) fd = Some (name, off)" and "map_of (cfiles (fst s)) name = Some b"
  shows "\<exists>off'. map_of (copen (fst (fold (vfs_exec e) later s))) fd = Some (name, off') \<and>
    off \<le> off' \<and> off' \<le> length b \<and> all_data e fd later s = take (off' - off) (drop off b)"
proof -
  have "vfs_inv (fst s)"
    using vfs_run_inv [OF assms(2), of "(compile_context sdk req, m)" ops] assms(4)
    by (simp add: compile_context_inv)
  from reads_sequential [OF assms(1,2) this assms(5,6,3)] show ?thesis .
qed

section \<open>A compilation for examples\<close>

text \<open>Guest memory begins with a path; the compiler opens the file and reads it in two parts.\<close>

definition demo_memory :: bytes where
  "demo_memory = ''/src/main.c.........''"

definition demo_source :: build_request where
  "demo_source = \<lparr>sdk_version = 1, files = [(''main.c'', ''hello'')], entry_file = ''main.c''\<rparr>"

lemma flat_slices: "slice_law (flat_env now)"
  by (auto simp: slice_law_def flat_env_def)

definition demo_vfs :: vfs where
  "demo_vfs = (compile_context ''sdk'' demo_source)
     \<lparr>cnext := 1, copen := [(3, ''/src/main.c'', 0)]\<rparr>"

lemma demo_open: "c_open (flat_env 0) (compile_context ''sdk'' demo_source) demo_memory 0 11 0 =
    Value 3 demo_vfs demo_memory"
proof -
  have "virtual_path ''/src/main.c'' = Some ''/src/main.c''" by (simp add: virtual_path_def slash_def)
  moreover have "utf8 ''/src/main.c''" by (rule utf8_ascii) simp
  ultimately show ?thesis
    by (simp add: c_open_def flat_env_def demo_memory_def compile_context_def demo_source_def
        demo_vfs_def checked_inc_def)
qed

lemma demo_opened: "fold (vfs_exec (flat_env 0)) [VOpen 0 11 0]
    (compile_context ''sdk'' demo_source, demo_memory) = (demo_vfs, demo_memory)"
  by (simp add: vfs_exec_def demo_open)

theorem compiler_sandbox_bounded_witness:
  "\<exists>b. map_of (cfiles demo_vfs) ''/src/main.c'' = Some b \<and> length (copen demo_vfs) \<le> 64"
proof -
  have fd: "map_of (copen demo_vfs) 3 = Some (''/src/main.c'', 0)" by (simp add: demo_vfs_def)
  from compiler_sandbox_bounded [OF flat_slices [of 0], where sdk = "''sdk''" and req = demo_source
      and ops = "[VOpen 0 11 0]" and m = demo_memory]
  show ?thesis using fd unfolding Let_def demo_opened fst_conv by blast
qed

lemma descriptors_fresh_witness:
  "map_of (copen (compile_context ''sdk'' demo_source)) 3 = None"
proof -
  have "3 \<noteq> NOT_FOUND" by (simp add: NOT_FOUND_def)
  with descriptors_fresh [OF flat_slices _ demo_open, where ops = "[]" and sdk = "''sdk''"
      and req = demo_source and m = demo_memory]
  show ?thesis by simp
qed

lemma file_reads_sequential_witness:
  "all_data (flat_env 0) 3 [VRead 3 11 2, VRead 3 11 9] (demo_vfs, demo_memory) = ''hello''"
proof -
  have fd: "map_of (copen (fst (demo_vfs, demo_memory))) 3 = Some (''/src/main.c'', 0)"
    by (simp add: demo_vfs_def)
  have b: "map_of (cfiles (fst (demo_vfs, demo_memory))) ''/src/main.c'' = Some ''hello''"
    by (simp add: demo_vfs_def compile_context_def demo_source_def)
  have end': "map_of (copen (fst (fold (vfs_exec (flat_env 0)) [VRead 3 11 2, VRead 3 11 9]
      (demo_vfs, demo_memory)))) 3 = Some (''/src/main.c'', 5)"
    by (simp add: vfs_exec_def c_read_def flat_env_def demo_memory_def demo_vfs_def
        compile_context_def demo_source_def Let_def)
  from file_reads_sequential [OF flat_memory flat_slices _ demo_opened fd b,
      of "[VRead 3 11 2, VRead 3 11 9]"] end'
  show ?thesis by auto
qed

end
