(* ===== verification/Compilation.thy ===== *)
theory Compilation
  imports CompilerFiles
begin

text \<open>
  One compilation (\<^verbatim>\<open>run\<close> of \<^verbatim>\<open>src/build/compiler.rs\<close>) and the \<^verbatim>\<open>compile\<close> method around it.

  The compiler is a program of the virtual machine, so what it does is a parameter: the
  helper calls it makes, in order, and how it ends. A helper that faults ends it at once.
  Loading and JIT are the virtual machine's; their result is a parameter too, as are the two
  things that can end the compilation from outside, cancellation and the deadline.
\<close>

section \<open>The program's run\<close>

text \<open>\<^verbatim>\<open>HELPERS\<close>: the names by which the compiler calls its helpers.\<close>

definition COMPILER_HELPERS :: "(string \<times> (u64 \<Rightarrow> u64 \<Rightarrow> u64 \<Rightarrow> 'm vfs_op)) list" where
  "COMPILER_HELPERS =
     [(''tcc_ebpf_input_copy'', \<lambda>a b _. VInput a b), (''tcc_ebpf_write'', \<lambda>a b _. VWrite a b),
      (''tcc_ebpf_fatal'', \<lambda>a b _. VFatal a b), (''tcc_ebpf_open_file'', VOpen),
      (''tcc_ebpf_read_file'', VRead), (''tcc_ebpf_close_file'', \<lambda>a _ _. VClose a),
      (''tcc_ebpf_diagnostic'', \<lambda>a b _. VDiagnostic a b)]"

text \<open>The calls up to the first that faults; the flag says that one did.\<close>

fun guest_run :: "'m env \<Rightarrow> 'm vfs_op list \<Rightarrow> vfs \<Rightarrow> 'm \<Rightarrow> vfs \<times> 'm \<times> bool" where
  "guest_run e [] c m = (c, m, False)"
| "guest_run e (op # ops) c m =
     (case vfs_step e op c m of
        Some (Value v c m) \<Rightarrow> guest_run e ops c m
      | Some (Halt c) \<Rightarrow> (c, m, True)
      | None \<Rightarrow> (c, m, True))"

record 'm compiler_program =
  calls :: "'m vfs_op list"
  memory :: 'm
  ending :: "string + u64"

text \<open>The first eight bytes of \<^verbatim>\<open>calldata\<close>: the length of the input, little-endian.\<close>

fun le_bytes :: "nat \<Rightarrow> nat \<Rightarrow> bytes" where
  "le_bytes 0 n = []"
| "le_bytes (Suc k) n = char_of (n mod 256) # le_bytes k (n div 256)"

definition calldata :: "vfs \<Rightarrow> bytes" where
  "calldata c = le_bytes 8 (length (cinput c)) @ replicate 504 (CHR 0x00)"

text \<open>
  \<^verbatim>\<open>run\<close>: what the biased \<^verbatim>\<open>select!\<close> of cancellation and timeout gives. The compiler's run
  may depend on the call data it is started with.
\<close>

definition compile_operation ::
    "'m env \<Rightarrow> bytes \<Rightarrow> build_request \<Rightarrow> string + (bytes \<Rightarrow> 'm compiler_program) \<Rightarrow>
     string + compiler_output" where
  "compile_operation e sdk req loaded =
     (case loaded of
        Inl msg \<Rightarrow> Inl msg
      | Inr prog \<Rightarrow>
          let c = compile_context sdk req; g = prog (calldata c) in
          (case guest_run e (calls g) c (memory g) of
             (c, _, faulted) \<Rightarrow> compile_result c (if faulted then Inl ''helper fault'' else ending g)))"

definition compiler_run ::
    "bool \<Rightarrow> bool \<Rightarrow> 'm env \<Rightarrow> bytes \<Rightarrow> build_request \<Rightarrow> string + (bytes \<Rightarrow> 'm compiler_program) \<Rightarrow>
     string + compiler_output" where
  "compiler_run cancel late e sdk req loaded =
     (if cancel then Inl ''build cancelled''
      else if late then Inl ''compiler exceeded 15 second deadline''
      else compile_operation e sdk req loaded)"

text \<open>\<^verbatim>\<open>compile\<close>, from the parameters to the reply.\<close>

definition compile_method ::
    "(json \<Rightarrow> string + build_request) \<Rightarrow> (bytes \<Rightarrow> bytes) \<Rightarrow> (bytes \<Rightarrow> string) \<Rightarrow> bool \<Rightarrow> 'm env \<Rightarrow>
     bytes \<Rightarrow> string + (bytes \<Rightarrow> 'm compiler_program) \<Rightarrow> json \<Rightarrow> builds \<Rightarrow> rpc_result" where
  "compile_method dec sha2 base64 late e sdk loaded params b =
     (case compile_begin dec params b of
        Inl err \<Rightarrow> Inl err
      | Inr req \<Rightarrow>
          Inr (compile_end sha2 base64 (compiler_run (cancelled b) late e sdk req loaded) b))"

section \<open>What was written\<close>

text \<open>The bytes a call of \<^verbatim>\<open>write\<close> takes from the program's memory.\<close>

definition written :: "'m env \<Rightarrow> 'm vfs_op \<Rightarrow> 'm \<Rightarrow> bytes" where
  "written e op m =
     (case op of VWrite p n \<Rightarrow> (case user_memory e m p n of Some b \<Rightarrow> b | None \<Rightarrow> []) | _ \<Rightarrow> [])"

fun all_written :: "'m env \<Rightarrow> 'm vfs_op list \<Rightarrow> vfs \<Rightarrow> 'm \<Rightarrow> bytes" where
  "all_written e [] c m = []"
| "all_written e (op # ops) c m =
     written e op m @
     (case vfs_step e op c m of Some (Value v c m) \<Rightarrow> all_written e ops c m | _ \<Rightarrow> [])"

lemma step_output:
  "vfs_step e op c m = Some (Value v c' m') \<Longrightarrow> coutput c' = coutput c @ written e op m"
  by (cases op)
    (auto simp: written_def c_input_def c_write_def c_fatal_def c_diagnostic_def c_open_def
      c_read_def c_close_def Let_def split: option.splits if_splits)

lemma guest_output:
  "guest_run e ops c m = (c', m', False) \<Longrightarrow> coutput c' = coutput c @ all_written e ops c m"
proof (induction ops arbitrary: c m)
  case (Cons op ops)
  then obtain v c1 m1 where s: "vfs_step e op c m = Some (Value v c1 m1)"
    "guest_run e ops c1 m1 = (c', m', False)"
    by (auto split: option.splits cres.splits)
  from Cons.IH [OF s(2)] step_output [OF s(1)] s(1) show ?case by simp
qed simp

lemma guest_run_fold:
  "guest_run e ops c m = (c', m', f) \<Longrightarrow> \<exists>k. fst (fold (vfs_exec e) (take k ops) (c, m)) = c'"
proof (induction ops arbitrary: c m)
  case (Cons op ops)
  show ?case
  proof (cases "\<exists>v c1 m1. vfs_step e op c m = Some (Value v c1 m1)")
    case True
    then obtain v c1 m1 where s: "vfs_step e op c m = Some (Value v c1 m1)" by blast
    with Cons obtain k where "fst (fold (vfs_exec e) (take k ops) (c1, m1)) = c'" by auto
    then have "fst (fold (vfs_exec e) (take (Suc k) (op # ops)) (c, m)) = c'"
      using s by (simp add: vfs_exec_def)
    then show ?thesis by blast
  next
    case False
    with Cons.prems have "fst (vfs_exec e op (c, m)) = c'"
      by (auto simp: vfs_exec_def split: option.splits cres.splits)
    then have "fst (fold (vfs_exec e) (take 1 (op # ops)) (c, m)) = c'" by simp
    then show ?thesis by blast
  qed
qed auto

section \<open>Call data\<close>

fun le_value :: "bytes \<Rightarrow> nat" where
  "le_value [] = 0"
| "le_value (c # cs) = of_char c + 256 * le_value cs"

lemma le_roundtrip: "n < 256 ^ k \<Longrightarrow> length (le_bytes k n) = k \<and> le_value (le_bytes k n) = n"
  by (induction k arbitrary: n) (auto simp: less_mult_imp_div_less mult.commute)

lemma calldata_input:
  assumes "validate req = Inr ()"
  shows "length (calldata (compile_context sdk req)) = 512 \<and>
    le_value (take 8 (calldata (compile_context sdk req))) = length (cinput (compile_context sdk req))"
proof -
  have "valid_path (entry_file req)"
    using assms unfolding validate_def by (auto simp: list_ex_iff split: if_splits)
  then have "length (cinput (compile_context sdk req)) < 256 ^ 8"
    by (simp add: compile_context_def valid_path_def)
  from le_roundtrip [OF this] show ?thesis by (simp add: calldata_def)
qed

section \<open>Properties\<close>

lemma compile_result_Inr:
  "compile_result c res = Inr out \<Longrightarrow> res = Inr 1 \<and>
     take 4 (coutput c) = [CHR 0x7F, CHR ''E'', CHR ''L'', CHR ''F''] \<and>
     out = \<lparr>out_elf = coutput c, out_diagnostics = cdiagnostics c, out_truncated = ctruncated c\<rparr>"
  unfolding compile_result_def by (cases res) (simp_all split: if_splits)

lemma run_success:
  assumes slices: "slice_law e" and run: "compiler_run cancel late e sdk req (Inr prog) = Inr out"
  shows "let c = compile_context sdk req; g = prog (calldata c) in
    ending g = Inr 1 \<and> out_elf out = all_written e (calls g) c (memory g) \<and>
    take 4 (out_elf out) = [CHR 0x7F, CHR ''E'', CHR ''L'', CHR ''F''] \<and> length (out_elf out) \<le> 65536 \<and>
    length (out_diagnostics out) \<le> 16384 \<and> utf8 (out_diagnostics out)"
proof -
  let ?c = "compile_context sdk req"
  let ?g = "prog (calldata ?c)"
  obtain c' m' f where g: "guest_run e (calls ?g) ?c (memory ?g) = (c', m', f)"
    by (cases "guest_run e (calls ?g) ?c (memory ?g)")
  from run have res: "compile_result c' (if f then Inl ''helper fault'' else ending ?g) = Inr out"
    using g by (simp add: compiler_run_def compile_operation_def Let_def split: if_splits)
  from compile_result_Inr [OF this]
  have ok: "\<not> f" "ending ?g = Inr 1" "take 4 (coutput c') = [CHR 0x7F, CHR ''E'', CHR ''L'', CHR ''F'']"
    "out = \<lparr>out_elf = coutput c', out_diagnostics = cdiagnostics c', out_truncated = ctruncated c'\<rparr>"
    by (simp_all split: if_splits)
  have "coutput c' = coutput ?c @ all_written e (calls ?g) ?c (memory ?g)"
    using g ok(1) by (intro guest_output) simp
  moreover obtain k where "fst (fold (vfs_exec e) (take k (calls ?g)) (?c, memory ?g)) = c'"
    using guest_run_fold [OF g] by blast
  then have "vfs_inv c'"
    using vfs_run_inv [OF slices, of "(?c, memory ?g)" "take k (calls ?g)"] by (simp add: compile_context_inv)
  ultimately show ?thesis
    using ok by (simp add: Let_def vfs_inv_def MAX_OUTPUT_def MAX_TEXT_def compile_context_def)
qed

text \<open>
  C19: a build that is reported as succeeded is what the compiler produced. The request was
  valid and builds are enabled; the reply carries the encoding and the digest of exactly the
  bytes the compiler wrote, in the order it wrote them; they are an ELF file of at most
  64 KiB; and the compiler ended by itself with code 1.
\<close>

theorem build_reply_faithful:
  assumes "slice_law e"
    and "compile_method dec sha2 base64 late e sdk (Inr prog) params b = Inr v"
    and "vget v ''state'' = Some (String ''succeeded'')"
  shows "\<exists>req. dec params = Inr req \<and> validate req = Inr () \<and> unavailable b = None \<and> \<not> cancelled b \<and> \<not> late \<and>
    (let c = compile_context sdk req; g = prog (calldata c); elf = all_written e (calls g) c (memory g);
         result = vindex v ''result'' in
       vget result ''elf'' = Some (String (base64 elf)) \<and>
       vget result ''sha256'' = Some (String (sha256 sha2 elf)) \<and>
       take 4 elf = [CHR 0x7F, CHR ''E'', CHR ''L'', CHR ''F''] \<and> length elf \<le> 65536 \<and>
       ending g = Inr 1)"
proof -
  obtain req where req: "compile_begin dec params b = Inr req"
    and v: "v = compile_end sha2 base64 (compiler_run (cancelled b) late e sdk req (Inr prog)) b"
    using assms(2) by (auto simp: compile_method_def split: sum.splits)
  from req have begun: "dec params = Inr req" "validate req = Inr ()" "unavailable b = None"
    by (auto simp: compile_begin_def split: sum.splits option.splits)
  from v assms(3) obtain out where out: "compiler_run (cancelled b) late e sdk req (Inr prog) = Inr out"
    "\<not> cancelled b"
    by (auto simp: compile_end_def vget_jobj split: sum.splits if_splits)
  then have "\<not> late" by (auto simp: compiler_run_def split: if_splits)
  moreover have "vget (vindex v ''result'') ''elf'' = Some (String (base64 (out_elf out)))"
    "vget (vindex v ''result'') ''sha256'' = Some (String (sha256 sha2 (out_elf out)))"
    using out unfolding v by (simp_all add: compile_end_def vindex_def vget_jobj)
  moreover note ok = run_success [OF assms(1) out(1), unfolded Let_def]
  then have elf: "all_written e (calls (prog (calldata (compile_context sdk req)))) (compile_context sdk req)
      (memory (prog (calldata (compile_context sdk req)))) = out_elf out" by simp
  ultimately show ?thesis
    using ok begun out(2) by (intro exI [of _ req]) (unfold Let_def elf, blast)
qed

definition demo_compiler :: "bytes compiler_program" where
  "demo_compiler = \<lparr>calls = [VWrite 0 2, VWrite 2 3], memory = [CHR 0x7F, CHR ''E'', CHR ''L'', CHR ''F'', CHR ''x''],
     ending = Inr 1\<rparr>"

definition demo_builds :: builds where
  "demo_builds = \<lparr>unavailable = None, fingerprint = ''f'', cancelled = False\<rparr>"

lemma demo_written: "all_written (flat_env 0) (calls demo_compiler) (compile_context ''sdk'' demo_build)
    (memory demo_compiler) = memory demo_compiler"
  by (simp add: demo_compiler_def written_def flat_env_def c_write_def compile_context_def MAX_OUTPUT_def)

lemma demo_compile_run: "compiler_run False False (flat_env 0) ''sdk'' demo_build (Inr (\<lambda>_. demo_compiler)) =
    Inr \<lparr>out_elf = memory demo_compiler, out_diagnostics = [], out_truncated = False\<rparr>"
  by (simp add: compiler_run_def compile_operation_def demo_compiler_def flat_env_def c_write_def
      compile_context_def MAX_OUTPUT_def compile_result_def)

theorem build_reply_faithful_witness:
  "take 4 (all_written (flat_env 0) (calls demo_compiler) (compile_context ''sdk'' demo_build)
     (memory demo_compiler)) = [CHR 0x7F, CHR ''E'', CHR ''L'', CHR ''F'']"
proof -
  have "validate demo_build = Inr ()"
    using demo_paths demo_parents by (simp add: validate_def demo_build_def)
  then have begun: "compile_begin (\<lambda>_. Inr demo_build) Null demo_builds = Inr demo_build"
    by (simp add: compile_begin_def demo_builds_def)
  have running: "\<not> cancelled demo_builds" by (simp add: demo_builds_def)
  obtain v where v: "compile_method (\<lambda>_. Inr demo_build) id id False (flat_env 0) ''sdk''
      (Inr (\<lambda>_. demo_compiler)) Null demo_builds = Inr v" "vget v ''state'' = Some (String ''succeeded'')"
    using demo_compile_run running
    by (simp add: compile_method_def begun compile_end_def vget_jobj)
  from build_reply_faithful [OF flat_slices v] show ?thesis by (auto simp: Let_def)
qed

end
