(* ===== verification/SessionLog.thy ===== *)
theory SessionLog
  imports Replies Program "HOL-Library.Sublist"
begin

text \<open>
  The log of a session: what each step of \<open>Serving\<close> does with the bytes of the input, with
  requests and with control frames. The log is read off the steps, and nothing of the program
  looks at it; a session together with its log is again a machine. On it rest the properties
  of the session from end to end: what happens to every byte of the input, that every request
  is answered once, and in which order the answers reach the output.
\<close>

section \<open>Events\<close>

text \<open>
  \<open>Received x\<close>: a chunk of input, its end or an error arrived; \<open>Routed b\<close>: the frame \<open>b\<close> was read and routed; \<open>Lost b\<close>: the bytes \<open>b\<close> of a frame read in
  part went with its future. A task was \<open>Accepted\<close>, \<open>Answered\<close> with its result and the frame
  that was queued for it, if any, or \<open>Aborted\<close>. Other control frames are \<open>Queued\<close>. The writer
  took a control frame (\<open>SentControl\<close>) or a frame of an object (\<open>SentData\<close>).
\<close>

datatype event =
    Received "string + bytes"
  | Routed bytes
  | Lost bytes
  | Accepted request
  | Answered request rpc_result "bytes list"
  | Aborted request
  | Queued bytes
  | SentControl bytes
  | SentData bytes

definition new_control :: "outbox \<Rightarrow> outbox \<Rightarrow> bytes list" where
  "new_control q q' = drop (length (control q)) (control q')"

definition lost :: "bytes \<Rightarrow> event list" where
  "lost b = (if b = [] then [] else [Lost b])"

definition select_events :: "'p outside \<Rightarrow> bool \<Rightarrow> bool \<Rightarrow> 'p server \<Rightarrow> event list" where
  "select_events out t i st =
     (let st' = select_poll (o_enc out) (o_parse out) t i st in
      if sv_shutdown (sr_service st) \<or> t \<or> i \<or> oclosed (sr_out st) \<or> sr_joinable st \<noteq> []
      then lost (sr_partial st)
      else case frame_poll (sr_partial st) (sr_input st) of
          (None, _, _) \<Rightarrow> []
        | (Some (FrameBytes b), _, _) \<Rightarrow>
            Routed b # map Accepted (drop (length (sv_tasks (sr_service st))) (sv_tasks (sr_service st'))) @
              map Queued (new_control (sr_out st) (sr_out st'))
        | (Some _, f, _) \<Rightarrow> lost f)"

definition main_events :: "'p outside \<Rightarrow> bool \<Rightarrow> bool \<Rightarrow> 'p server \<Rightarrow> event list" where
  "main_events out t i st =
     (case sr_phase st of
        Serving \<Rightarrow> select_events out t i st
      | Leaving \<Rightarrow> map Aborted (sv_tasks (sr_service st))
      | _ \<Rightarrow> [])"

text \<open>The two halves of a poll of a request task: a segment of the method, and the answer.\<close>

definition request_segment :: "'p outside \<Rightarrow> wake \<Rightarrow> request \<Rightarrow> 'p server \<Rightarrow> stage option \<times> 'p service" where
  "request_segment out wk q st =
     (case sr_stage st (rq_id q) of
        NotPolled \<Rightarrow> start_request (o_decoders out) (o_env out) (o_build out) (o_enc out) q st
      | sg \<Rightarrow> (case advance_request (o_engine out) (o_build out) (o_enc out) wk sg st of
          (sg, sv) \<Rightarrow> (Some sg, sv)))"

definition request_events :: "'p outside \<Rightarrow> wake \<Rightarrow> request \<Rightarrow> 'p server \<Rightarrow> event list" where
  "request_events out wk q st =
     (case request_segment out wk q st of
        (x, sv) \<Rightarrow>
          map Queued (new_control (sr_out st) (sv_out sv)) @
          (case x of
             Some (Answering res) \<Rightarrow>
               (case request_finish (o_enc out) q res sv of
                  (done, sv') \<Rightarrow> if done then [Answered q res (new_control (sv_out sv) (sv_out sv'))] else [])
           | _ \<Rightarrow> []))"

definition output_events :: "'p server \<Rightarrow> event list" where
  "output_events st =
     (let q = sr_out st in
      case sr_phase st of
        Over _ \<Rightarrow> []
      | _ \<Rightarrow> map (if control q \<noteq> [] \<and> (control_burst q < 8 \<or> ready q = []) then SentControl else SentData)
          (takes (sr_writer st) q))"

fun events :: "'p outside \<Rightarrow> serve_op \<Rightarrow> 'p server \<Rightarrow> event list" where
  "events out (Input x) st = [Received x]"
| "events out (MainPoll t i late) st = main_events out t i st"
| "events out (ReqPoll i wk) st =
     (case (if sr_phase st = Serving then task_of i (sr_service st) else None) of
        None \<Rightarrow> []
      | Some q \<Rightarrow> request_events out wk q st)"
| "events out (Output pick x) st = output_events st"
| "events out op st = map Queued (new_control (sr_out st) (sr_out (serve_exec out op st)))"

section \<open>A session with its log\<close>

fun log_exec :: "'p outside \<Rightarrow> serve_op \<Rightarrow> event list \<times> 'p server \<Rightarrow> event list \<times> 'p server" where
  "log_exec out op (tr, st) = (tr @ events out op st, serve_exec out op st)"

abbreviation slog :: "'p outside \<Rightarrow> string \<Rightarrow> builds \<Rightarrow> serve_op list \<Rightarrow> event list \<times> 'p server" where
  "slog out s b ops \<equiv> fold (log_exec out) ops ([], server_new s b)"

lemma log_server: "snd (fold (log_exec out) ops (tr, st)) = fold (serve_exec out) ops st"
  by (induction ops arbitrary: tr st) simp_all

lemma slogD: "slog out s b ops = (tr, st) \<Longrightarrow> st = srun out s b ops"
  using log_server [of out ops "[]" "server_new s b"] by simp

section \<open>Steps\<close>

lemma request_poll_segment:
  "request_poll (o_engine out) (o_decoders out) (o_env out) (o_build out) (o_enc out) wk q st =
   (case request_segment out wk q st of
      (None, sv) \<Rightarrow> task_over q (Some ''panic'') (request_drop q sv) st
    | (Some (Answering res), sv) \<Rightarrow> answer_request (o_enc out) q res sv st
    | (Some sg, sv) \<Rightarrow> st\<lparr>sr_service := sv, sr_stage := (sr_stage st)(rq_id q := sg)\<rparr>)"
  by (simp add: request_poll_def request_segment_def)

lemma out_rel_start:
  "start_request d env be enc q st = (x, sv) \<Longrightarrow> out_rel enc (sr_out st) (sv_out sv)"
  using out_rel_handle [of enc "sr_service st" d env "rq_method q" "rq_params q"]
  by (auto simp: start_request_def split: prod.splits method_step.splits)

lemma out_rel_advance:
  "advance_request e be enc wk sg st = (sg', sv) \<Longrightarrow> out_rel enc (sr_out st) (sv_out sv)"
  using out_rel_stop [of enc "sv_runtime (sr_service st)"]
  by (auto simp: advance_request_def Let_def same_world(2) split: stage.splits wake.splits if_splits prod.splits poll.splits)
    (metis snd_conv)+

lemma out_rel_segment: "request_segment out wk q st = (x, sv) \<Longrightarrow> out_rel (o_enc out) (sr_out st) (sv_out sv)"
  unfolding request_segment_def
  by (auto dest: out_rel_start out_rel_advance split: stage.splits prod.splits)

section \<open>What the log says\<close>

fun queued_by :: "event \<Rightarrow> bytes list" where
  "queued_by (Answered q res bs) = bs"
| "queued_by (Queued b) = [b]"
| "queued_by ev = []"

fun control_by :: "event \<Rightarrow> bytes list" where
  "control_by (SentControl b) = [b]"
| "control_by ev = []"

fun taken_by :: "event \<Rightarrow> bytes list" where
  "taken_by (SentControl b) = [b]"
| "taken_by (SentData b) = [b]"
| "taken_by ev = []"

fun accepted_by :: "event \<Rightarrow> request list" where
  "accepted_by (Accepted q) = [q]"
| "accepted_by ev = []"

fun ended_by :: "event \<Rightarrow> request list" where
  "ended_by (Answered q res bs) = [q]"
| "ended_by (Aborted q) = [q]"
| "ended_by ev = []"

fun received_by :: "event \<Rightarrow> reader" where
  "received_by (Received x) = [x]"
| "received_by ev = []"

fun consumed_by :: "event \<Rightarrow> bytes list" where
  "consumed_by (Routed b) = [b]"
| "consumed_by (Lost b) = [b]"
| "consumed_by ev = []"

abbreviation over_log :: "(event \<Rightarrow> 'a list) \<Rightarrow> event list \<Rightarrow> 'a list" where
  "over_log f tr \<equiv> concat (map f tr)"

declare concat_eq_Nil_conv [simp del]

lemma by_comp [simp]:
  "queued_by \<circ> Queued = (\<lambda>x. [x])" "control_by \<circ> Queued = (\<lambda>_. [])" "taken_by \<circ> Queued = (\<lambda>_. [])"
  "accepted_by \<circ> Queued = (\<lambda>_. [])" "ended_by \<circ> Queued = (\<lambda>_. [])"
  "received_by \<circ> Queued = (\<lambda>_. [])" "consumed_by \<circ> Queued = (\<lambda>_. [])"
  "queued_by \<circ> Accepted = (\<lambda>_. [])" "control_by \<circ> Accepted = (\<lambda>_. [])" "taken_by \<circ> Accepted = (\<lambda>_. [])"
  "accepted_by \<circ> Accepted = (\<lambda>x. [x])" "ended_by \<circ> Accepted = (\<lambda>_. [])"
  "received_by \<circ> Accepted = (\<lambda>_. [])" "consumed_by \<circ> Accepted = (\<lambda>_. [])"
  "queued_by \<circ> Aborted = (\<lambda>_. [])" "control_by \<circ> Aborted = (\<lambda>_. [])" "taken_by \<circ> Aborted = (\<lambda>_. [])"
  "accepted_by \<circ> Aborted = (\<lambda>_. [])" "ended_by \<circ> Aborted = (\<lambda>x. [x])"
  "received_by \<circ> Aborted = (\<lambda>_. [])" "consumed_by \<circ> Aborted = (\<lambda>_. [])"
  by (simp_all add: fun_eq_iff)

lemma taken_comp [simp]: "taken_by \<circ> SentControl = (\<lambda>x. [x])" "taken_by \<circ> SentData = (\<lambda>x. [x])"
  by (simp_all add: fun_eq_iff)

lemma concat_units [simp]: "concat (map (\<lambda>x. [x]) xs) = xs" "concat (map (\<lambda>_. []) xs) = []"
  by (induction xs) simp_all

lemma over_log_lost [simp]:
  "over_log queued_by (lost b) = []" "over_log control_by (lost b) = []" "over_log taken_by (lost b) = []"
  "over_log accepted_by (lost b) = []" "over_log ended_by (lost b) = []" "over_log received_by (lost b) = []"
  "concat (over_log consumed_by (lost b)) = b"
  by (simp_all add: lost_def)

section \<open>Control frames\<close>

lemma new_control: "out_rel enc q q' \<Longrightarrow> control q @ new_control q q' = control q'"
  by (auto simp: out_rel_def new_control_def)

lemma new_control_same [simp]: "control q' = control q \<Longrightarrow> new_control q q' = []"
  by (simp add: new_control_def)

lemma shutdown_world: "rworld (snd (shutdown_poll ids r)) = rworld r"
proof (induction ids r rule: shutdown_poll.induct)
  case (2 i ids r)
  obtain d r1 where s: "object_stop_poll i r = (d, r1)" by fastforce
  with same_world(5) [OF this] "2.IH" [OF s [symmetric]] show ?case by (cases d) simp_all
qed simp

lemma main_keeps_control:
  assumes "sr_phase st \<noteq> Serving"
  shows "control (sr_out (main_poll enc parse t i l st)) = control (sr_out st)"
proof -
  have drops: "sv_runtime (fold request_drop qs sv) = sv_runtime sv" for qs and sv :: "'a service"
    by (induction qs arbitrary: sv) simp_all
  have poll: "control (sr_out (objects_poll enc ids st)) = control (sr_out st)" for ids and st :: "'a server"
    using shutdown_world [of ids "sv_runtime (sr_service st)"]
    by (cases "shutdown_poll ids (sv_runtime (sr_service st))")
      (simp add: objects_poll_def Let_def close_output_def outbox_close_def)
  show ?thesis
    using assms poll
    by (cases "sr_phase st")
      (auto simp: main_poll_def abort_tasks_def drops flush_poll_def shutdown_begin_def
        split: prod.split write_state.split option.split)
qed


lemma finish_waits: "request_finish enc q res sv = (False, sv') \<Longrightarrow> control (sv_out sv') = control (sv_out sv)"
  by (auto simp: request_finish_def outbox_control_def Let_def split: prod.splits poll.splits sum.splits if_splits)

lemma request_poll_control:
  "control (sr_out st) @ over_log queued_by (request_events out wk q st) = control (sr_out
     (request_poll (o_engine out) (o_decoders out) (o_env out) (o_build out) (o_enc out) wk q st))"
proof -
  obtain x sv where s: "request_segment out wk q st = (x, sv)" by fastforce
  note seg = new_control [OF out_rel_segment [OF s]]
  have ans: "control (sr_out st) @ over_log queued_by (request_events out wk q st) =
      control (sr_out (answer_request (o_enc out) q res sv st))" if "x = Some (Answering res)" for res
  proof -
    obtain go sv' where f: "request_finish (o_enc out) q res sv = (go, sv')" by fastforce
    have "control (sv_out sv) @ new_control (sv_out sv) (sv_out sv') = control (sv_out sv')"
      using new_control [OF out_rel_finish [of "o_enc out" sv q res]] f by simp
    with f seg finish_waits [of "o_enc out" q res sv sv'] that s show ?thesis
      by (simp add: request_events_def answer_request_def task_over_def flip: append_assoc)
  qed
  show ?thesis
    using ans seg unfolding request_poll_segment s
    by (cases x) (auto simp: request_events_def s task_over_def split: stage.split)
qed

lemma output_control:
  assumes "\<forall>x. sr_phase st \<noteq> Over x"
  shows "control (sr_out st) = over_log control_by (output_events st) @ control (sr_out (output_poll pick x st))"
proof -
  obtain w q where s: "writer_step pick x (sr_writer st) (sr_out st) = (w, q)" by fastforce
  have "control (sr_out st) = over_log control_by (output_events st) @ control q"
  proof (cases "w_state (sr_writer st)")
    case WTake
    with s assms show ?thesis
      by (cases "sr_phase st")
        (auto simp: writer_step_def take_step_def takes_def output_events_def outbox_next_def Let_def
          split: if_splits list.splits option.splits)
  qed (use s assms in \<open>cases "sr_phase st";
      auto simp: writer_step_def wake_step_def write_step_def write_error_def flush_step_def takes_def
        output_events_def outbox_close_def Let_def split: if_splits io.splits\<close>)+
  with assms s show ?thesis by (cases "sr_phase st") (simp_all add: output_poll_def)
qed

lemma select_poll_out: "out_rel enc (sr_out st) (sr_out (select_poll enc parse t i st))"
proof -
  have "out_rel enc (sr_out st) (sv_out sv)" if "route enc parse b (sr_service st) = (go, sv)" for b go sv
    using out_rel_route [of enc "sr_service st" parse b] that by simp
  then show ?thesis
    by (auto simp: select_poll_def leave_def Let_def
        split: option.split list.split frame_result.split prod.split)
qed

text \<open>The ways a poll of the loop can go.\<close>

lemma select_cases:
  obtains (over) e js where "select_poll enc parse t i st = leave e (st\<lparr>sr_joinable := js\<rparr>)"
      "sv_shutdown (sr_service st) \<or> t \<or> i \<or> oclosed (sr_out st) \<or> sr_joinable st \<noteq> []"
  | (joined) js where "select_poll enc parse t i st = st\<lparr>sr_joinable := js, sr_partial := []\<rparr>"
      "sr_joinable st = None # js"
  | (waits) f r where "select_poll enc parse t i st = st\<lparr>sr_partial := f, sr_input := r\<rparr>"
      "\<not> (sv_shutdown (sr_service st) \<or> t \<or> i \<or> oclosed (sr_out st) \<or> sr_joinable st \<noteq> [])"
      "frame_poll (sr_partial st) (sr_input st) = (None, f, r)"
  | (ended) x e f r where "select_poll enc parse t i st = leave e (st\<lparr>sr_input := r\<rparr>)"
      "\<not> (sv_shutdown (sr_service st) \<or> t \<or> i \<or> oclosed (sr_out st) \<or> sr_joinable st \<noteq> [])"
      "frame_poll (sr_partial st) (sr_input st) = (Some x, f, r)" "\<forall>b. x \<noteq> FrameBytes b"
  | (routed) b f r go sv st' where "frame_poll (sr_partial st) (sr_input st) = (Some (FrameBytes b), f, r)"
      "\<not> (sv_shutdown (sr_service st) \<or> t \<or> i \<or> oclosed (sr_out st) \<or> sr_joinable st \<noteq> [])"
      "route enc parse b (sr_service st) = (go, sv)"
      "st' = st\<lparr>sr_input := r, sr_partial := [], sr_service := sv\<rparr>"
      "select_poll enc parse t i st = (if go then st' else leave None st')"
proof (cases "sv_shutdown (sr_service st) \<or> t \<or> i \<or> oclosed (sr_out st)")
  case True
  then have "select_poll enc parse t i st = leave None (st\<lparr>sr_joinable := sr_joinable st\<rparr>)"
    unfolding select_poll_def by (simp only: if_True) simp
  with True over show thesis by blast
next
  case False
  show thesis
  proof (cases "sr_joinable st")
    case (Cons x js)
    with False over joined show thesis by (cases x) (auto simp: select_poll_def)
  next
    case Nil
    obtain y f r where p: "frame_poll (sr_partial st) (sr_input st) = (y, f, r)"
      by (cases "frame_poll (sr_partial st) (sr_input st)")
    show thesis
    proof (cases y)
      case None
      with False Nil p waits [where f = f and r = r] show thesis by (simp add: select_poll_def)
    next
      case (Some x)
      show thesis
      proof (cases x)
        case (FrameBytes b)
        obtain go sv where "route enc parse b (sr_service st) = (go, sv)" by fastforce
        with False Nil p Some FrameBytes routed [of b f r go sv] show thesis
          by (simp add: select_poll_def Let_def)
      qed (use False Nil p Some ended [where f = f and r = r] in \<open>auto simp: select_poll_def\<close>)
    qed
  qed
qed

lemma select_sends_nothing: "over_log control_by (select_events out t i st) = []" "over_log taken_by (select_events out t i st) = []"
proof -
  have "over_log control_by (select_events out t i st) = [] \<and> over_log taken_by (select_events out t i st) = []"
  proof (cases rule: select_cases [of "o_enc out" "o_parse out" t i st])
    case (ended x e f r)
    then show ?thesis by (cases x) (simp_all add: select_events_def)
  qed (simp_all add: select_events_def Let_def)
  then show "over_log control_by (select_events out t i st) = []" "over_log taken_by (select_events out t i st) = []"
    by simp_all
qed

lemma select_control:
  "control (sr_out st) @ over_log queued_by (select_events out t i st) =
     control (sr_out (select_poll (o_enc out) (o_parse out) t i st))"
proof (cases rule: select_cases [of "o_enc out" "o_parse out" t i st])
  case (routed b f r go sv st')
  with new_control [OF select_poll_out [of "o_enc out" st "o_parse out" t i]] show ?thesis
    by (simp add: select_events_def Let_def)
next
  case (ended x e f r)
  then show ?thesis by (cases x) (simp_all add: select_events_def leave_def)
qed (simp_all add: select_events_def leave_def)

lemma step_control:
  "control (sr_out st) @ over_log queued_by (events out op st) =
   over_log control_by (events out op st) @ control (sr_out (serve_exec out op st))"
proof (cases op)
  case (MainPoll t i l)
  have "over_log control_by (main_events out t i st) = []"
    by (cases "sr_phase st") (simp_all add: main_events_def select_sends_nothing del: concat_eq_Nil_conv)
  moreover have "control (sr_out st) @ over_log queued_by (main_events out t i st) =
      control (sr_out (main_poll (o_enc out) (o_parse out) t i l st))"
    using select_control [of st out t i] main_keeps_control [of st "o_enc out" "o_parse out" t i l]
    by (cases "sr_phase st") (simp_all add: main_events_def main_poll_def)
  ultimately show ?thesis using MainPoll by simp
next
  case (ReqPoll i wk)
  have "over_log control_by (request_events out wk q st) = []" for q
    by (auto simp: request_events_def split: prod.split option.split stage.split)
  with ReqPoll request_poll_control [of st out wk] show ?thesis by (simp split: option.split)
next
  case (Output pick x)
  have "over_log queued_by (output_events st) = []"
    by (simp add: output_events_def takes_def Let_def split: serve_phase.split write_state.split next_result.split)
  moreover have "\<exists>x. sr_phase st = Over x \<Longrightarrow> over_log control_by (output_events st) = [] \<and> output_poll pick x st = st"
    by (auto simp: output_events_def output_poll_def)
  ultimately show ?thesis using Output output_control [of st pick x] by (cases "\<exists>x. sr_phase st = Over x") auto
next
  case (ObjPoll i res)
  with new_control [OF out_rel_task [of "o_enc out" "sv_runtime (sr_service st)" i res]] show ?thesis by simp
next
  case (GuestAct i a)
  with new_control [OF out_rel_act [of "o_enc out" "sv_runtime (sr_service st)" i a]] show ?thesis by simp
qed simp

section \<open>Frames taken by the writer\<close>

lemma main_writer: "sr_writer (main_poll enc parse t i l st) = sr_writer st"
proof -
  have "sr_writer (select_poll enc parse t i st) = sr_writer st"
    by (cases rule: select_cases [of enc parse t i st]) (simp_all add: leave_def)
  then show ?thesis
    by (simp add: main_poll_def objects_poll_def flush_poll_def Let_def
        split: serve_phase.split prod.split write_state.split option.split)
qed

lemma step_taken:
  "in_line (sr_writer st) (concat (over_log taken_by (events out op st))) (sr_writer (serve_exec out op st))"
proof -
  have same: "in_line w [] w" for w by (cases "w_state w") (auto simp: in_line_def unwritten_def)
  show ?thesis
  proof (cases op)
    case (MainPoll t i l)
    then have "over_log taken_by (events out op st) = []"
      by (cases "sr_phase st") (simp_all add: main_events_def select_sends_nothing)
    with MainPoll show ?thesis by (simp add: main_writer same)
  next
    case (ReqPoll i wk)
    have "over_log taken_by (request_events out wk q st) = []" for q
      by (simp add: request_events_def split: prod.split option.split stage.split)
    with ReqPoll same show ?thesis by (simp add: request_poll_same split: option.split)
  next
    case (Output pick x)
    have "over_log taken_by (output_events st) = (case sr_phase st of Over _ \<Rightarrow> [] | _ \<Rightarrow> takes (sr_writer st) (sr_out st))"
      by (simp add: output_events_def Let_def split: serve_phase.split)
    with Output same step_in_line [of "sr_writer st" "sr_out st" pick x] show ?thesis
      by (cases "writer_step pick x (sr_writer st) (sr_out st)"; cases "sr_phase st") (simp_all add: output_poll_def)
  qed (simp_all add: same)
qed

lemma ended_takes_nothing:
  assumes "w_state (sr_writer st) = WEnd z"
  shows "sr_writer (serve_exec out op st) = sr_writer st \<and> over_log taken_by (events out op st) = []"
proof (cases op)
  case (Output pick x)
  with ended_step [OF assms, of pick x "sr_out st"] show ?thesis
    by (cases "sr_phase st") (auto simp: output_events_def output_poll_def)
next
  case (MainPoll t i l)
  then show ?thesis
    by (cases "sr_phase st") (simp_all add: main_writer main_events_def select_sends_nothing)
next
  case (ReqPoll i wk)
  then show ?thesis
    by (simp add: request_poll_same request_events_def split: option.split prod.split stage.split)
qed simp_all

section \<open>Requests\<close>

lemma mset_removeAll_distinct: "distinct xs \<Longrightarrow> x \<in> set xs \<Longrightarrow> add_mset x (mset (removeAll x xs)) = mset xs"
  by (induction xs) (auto simp: removeAll_id)

lemma sr_inv_tasks: "sr_inv enc st \<Longrightarrow> distinct (sv_tasks (sr_service st))"
  by (auto simp: sr_inv_def serv_ok_def sv_inv_def tasks_ok_def distinct_map)

lemma finish_tasks:
  "request_finish enc q res sv = (go, sv') \<Longrightarrow>
   sv_tasks sv' = (if go then removeAll q (sv_tasks sv) else sv_tasks sv)"
  by (auto simp: request_finish_def request_drop_def Let_def split: prod.splits poll.splits)

lemma segment_tasks: "request_segment out wk q st = (x, sv) \<Longrightarrow> sv_tasks sv = sv_tasks (sr_service st)"
  unfolding request_segment_def by (auto dest: same_tasks(2,3) split: stage.splits prod.splits)

lemma segment_no_panic:
  assumes "sr_inv (o_enc out) st"
  shows "fst (request_segment out wk q st) \<noteq> None"
proof -
  have ok: "serv_ok (o_enc out) (sr_writer st) (sr_service st)" using assms by (simp add: sr_inv_def)
  obtain x sv where "start_request (o_decoders out) (o_env out) (o_build out) (o_enc out) q st = (x, sv)"
    by fastforce
  with start_request_ok [OF ok this] show ?thesis
    by (auto simp: request_segment_def split: stage.split prod.split)
qed

lemma request_poll_tasks:
  assumes inv: "sr_inv (o_enc out) st" and q: "q \<in> set (sv_tasks (sr_service st))"
  shows "mset (over_log ended_by (request_events out wk q st)) + mset (sv_tasks (sr_service
     (request_poll (o_engine out) (o_decoders out) (o_env out) (o_build out) (o_enc out) wk q st))) =
   mset (sv_tasks (sr_service st)) \<and> over_log accepted_by (request_events out wk q st) = []"
proof -
  obtain x sv where s: "request_segment out wk q st = (x, sv)" by fastforce
  have t: "sv_tasks sv = sv_tasks (sr_service st)" by (rule segment_tasks [OF s])
  have x: "x \<noteq> None" using segment_no_panic [OF inv, of wk q] s by simp
  have "mset (over_log ended_by (request_events out wk q st)) + mset (sv_tasks (sr_service
      (answer_request (o_enc out) q res sv st))) = mset (sv_tasks (sr_service st))" if "x = Some (Answering res)" for res
  proof -
    obtain go sv' where f: "request_finish (o_enc out) q res sv = (go, sv')" by fastforce
    with finish_tasks [OF f] t s that mset_removeAll_distinct [OF sr_inv_tasks [OF inv] q] show ?thesis
      by (cases go) (simp_all add: request_events_def answer_request_def task_over_def)
  qed
  with x t show ?thesis
    unfolding request_poll_segment s
    by (auto simp: request_events_def s split: stage.split prod.split option.split)
qed

lemma main_tasks:
  assumes "sr_inv enc st" "sr_phase st \<noteq> Serving"
  shows "sv_tasks (sr_service (main_poll enc parse t i l st)) =
    (if sr_phase st = Leaving then [] else sv_tasks (sr_service st))"
proof (cases "sr_phase st")
  case Leaving
  with assms(1) abort_tasks_all [of enc "sr_writer st" "sr_service st"] show ?thesis
    by (simp add: main_poll_def sr_inv_def)
qed (use assms(2) in \<open>simp_all add: main_poll_def objects_poll_def close_output_def flush_poll_def Let_def
    split: prod.split write_state.split option.split\<close>)

text \<open>A frame that is a request with an identifier.\<close>

definition request_of :: "parser \<Rightarrow> bytes \<Rightarrow> request option" where
  "request_of parse b =
     (case parse b of
        Inl e \<Rightarrow> None
      | Inr v \<Rightarrow>
          (case (Option.bind (vget v ''method'') as_str, Option.bind (vget v ''id'') as_str) of
             (Some method, Some i) \<Rightarrow> Some \<lparr>rq_id = i, rq_method = method,
               rq_params = (case vget v ''params'' of Some p \<Rightarrow> p | None \<Rightarrow> Object []),
               rq_permit = (method \<noteq> ''sf.build.compile'')\<rparr>
           | _ \<Rightarrow> None))"

lemma refuse_tasks [simp]: "sv_tasks (snd (refuse enc i e sv)) = sv_tasks sv"
  by (cases "try_control enc (response i (Inl e)) (sv_out sv)") (simp add: refuse_def)

lemma accept_request_of:
  assumes "accept_request enc method v sv = (go, sv')"
  shows "sv_tasks sv' = sv_tasks sv \<or>
    (\<exists>i. vget v ''id'' = Some (String i) \<and> sv_tasks sv' = sv_tasks sv @
       [\<lparr>rq_id = i, rq_method = method,
          rq_params = (case vget v ''params'' of Some p \<Rightarrow> p | None \<Rightarrow> Object []),
          rq_permit = (method \<noteq> ''sf.build.compile'')\<rparr>])"
proof -
  have r: "refuse enc i e sv = (go, sv') \<Longrightarrow> sv_tasks sv' = sv_tasks sv" for i e
    using refuse_tasks [of enc i e sv] by simp
  show ?thesis
  proof (cases "vget v ''id''")
    case (Some j)
    with assms r show ?thesis
      by (cases j) (auto simp: accept_request_def Let_def split: if_splits)
  qed (use assms in \<open>simp add: accept_request_def Let_def\<close>)
qed

lemma route_request_of:
  assumes "route enc parse b sv = (go, sv')"
  shows "sv_tasks sv' = sv_tasks sv \<or> (\<exists>q. request_of parse b = Some q \<and> sv_tasks sv' = sv_tasks sv @ [q])"
proof -
  have r: "refuse enc i e sv = (go, sv') \<Longrightarrow> sv_tasks sv' = sv_tasks sv" for i e
    using refuse_tasks [of enc i e sv] by simp
  show ?thesis
  proof (cases "\<exists>v m. parse b = Inr v \<and> Option.bind (vget v ''method'') as_str = Some m \<and>
      route enc parse b sv = accept_request enc m v sv")
    case True
    then obtain v m where v: "parse b = Inr v" "Option.bind (vget v ''method'') as_str = Some m"
      "accept_request enc m v sv = (go, sv')" using assms by auto
    from accept_request_of [OF v(3)] v(1,2) show ?thesis
      by (auto simp: request_of_def)
  next
    case False
    with assms r show ?thesis
      by (auto simp: route_def split: sum.splits if_splits option.splits)
  qed
qed

lemma select_tasks:
  "sv_tasks (sr_service (select_poll (o_enc out) (o_parse out) t i st)) =
     sv_tasks (sr_service st) @ over_log accepted_by (select_events out t i st)"
  "over_log ended_by (select_events out t i st) = []"
  "list_all (\<lambda>q. \<exists>b. request_of (o_parse out) b = Some q \<and> over_log consumed_by (select_events out t i st) = [b])
     (over_log accepted_by (select_events out t i st)) \<and>
   length (over_log accepted_by (select_events out t i st)) \<le> 1"
proof -
  let ?ev = "select_events out t i st" and ?st' = "select_poll (o_enc out) (o_parse out) t i st"
  have "sv_tasks (sr_service ?st') = sv_tasks (sr_service st) @ over_log accepted_by ?ev \<and>
      over_log ended_by ?ev = [] \<and>
      (over_log accepted_by ?ev = [] \<or> (\<exists>b q. over_log accepted_by ?ev = [q] \<and> over_log consumed_by ?ev = [b] \<and>
         request_of (o_parse out) b = Some q))"
  proof (cases rule: select_cases [of "o_enc out" "o_parse out" t i st])
    case (routed b f r go sv st')
    then have "sr_service ?st' = sv" by (simp add: leave_def)
    with routed(1,2) route_request_of [OF routed(3)] show ?thesis
      by (auto simp: select_events_def Let_def)
  next
    case (ended x e f r)
    then show ?thesis by (cases x) (simp_all add: select_events_def leave_def)
  qed (simp_all add: select_events_def leave_def)
  then show "sv_tasks (sr_service ?st') = sv_tasks (sr_service st) @ over_log accepted_by ?ev"
    "over_log ended_by ?ev = []"
    "list_all (\<lambda>q. \<exists>b. request_of (o_parse out) b = Some q \<and> over_log consumed_by ?ev = [b])
     (over_log accepted_by ?ev) \<and> length (over_log accepted_by ?ev) \<le> 1"
    by auto
qed

lemma step_requests:
  assumes inv: "sr_inv (o_enc out) st"
  shows "mset (sv_tasks (sr_service st)) + mset (over_log accepted_by (events out op st)) =
    mset (over_log ended_by (events out op st)) + mset (sv_tasks (sr_service (serve_exec out op st)))"
proof (cases op)
  case (MainPoll t i l)
  show ?thesis
  proof (cases "sr_phase st = Serving")
    case True
    with MainPoll select_tasks [of out t i st] show ?thesis by (simp add: main_events_def main_poll_def)
  next
    case False
    with MainPoll main_tasks [OF inv False, of "o_parse out" t i l] show ?thesis
      by (cases "sr_phase st") (simp_all add: main_events_def)
  qed
next
  case (ReqPoll j wk)
  show ?thesis
  proof (cases "sr_phase st = Serving \<and> task_of j (sr_service st) \<noteq> None")
    case True
    then obtain q where q: "task_of j (sr_service st) = Some q" by blast
    with True request_poll_tasks [OF inv, of q wk] task_ofD [OF q] ReqPoll show ?thesis by simp
  qed (use ReqPoll in auto)
next
  case (Output pick x)
  have "over_log accepted_by (output_events st) = []" "over_log ended_by (output_events st) = []"
    by (simp_all add: output_events_def takes_def Let_def split: serve_phase.split write_state.split next_result.split)
  moreover have "sv_tasks (sr_service (output_poll pick x st)) = sv_tasks (sr_service st)"
    by (simp add: output_poll_def split: serve_phase.split prod.split)
  ultimately show ?thesis using Output by simp
qed simp_all

section \<open>Input\<close>

definition line :: "bytes \<Rightarrow> bool" where
  "line b \<longleftrightarrow> (\<exists>s. b = s @ [newline] \<and> newline \<notin> set s)"

lemma position_line: "position_newline b = Some n \<Longrightarrow> line (take (Suc n) b)"
proof (induction b arbitrary: n)
  case (Cons c b)
  show ?case
  proof (cases "c = newline")
    case True
    with Cons.prems show ?thesis by (simp add: line_def)
  next
    case False
    with Cons obtain k where k: "n = Suc k" "line (take (Suc k) b)" by (auto split: option.splits)
    then obtain s where "take (Suc k) b = s @ [newline]" "newline \<notin> set s" by (auto simp: line_def)
    with False k(1) show ?thesis unfolding line_def by (intro exI [of _ "c # s"]) simp
  qed
qed simp

lemma line_append: "newline \<notin> set f \<Longrightarrow> line b \<Longrightarrow> line (f @ b)"
  by (metis (no_types, lifting) Un_iff append_assoc line_def set_append)

text \<open>A poll of a frame future loses nothing.\<close>

lemma frame_poll_bytes:
  "frame_poll f r = (x, f', r') \<Longrightarrow> newline \<notin> set f \<Longrightarrow>
   f @ remaining r = f' @ remaining r' \<and>
   (case x of
      Some (FrameBytes b) \<Rightarrow> f' = b \<and> line b \<and> length b \<le> MAX_FRAME
    | _ \<Rightarrow> newline \<notin> set f')"
proof (induction f r arbitrary: x f' r' rule: frame_poll.induct)
  case (3 f b r)
  show ?case
  proof (cases "b = []")
    case True
    with "3.prems" show ?thesis by (auto split: if_splits)
  next
    case b: False
    show ?thesis
    proof (cases "position_newline b")
      case None
      then have nb: "newline \<notin> set b" by (simp add: position_None)
      show ?thesis
      proof (cases "MAX_FRAME < length f + length b")
        case True
        with b None "3.prems" show ?thesis by (auto simp: Let_def)
      next
        case False
        with b None "3.prems"(1) have "frame_poll (f @ b) r = (x, f', r')" by (simp add: Let_def)
        from "3.IH" [OF b refl refl] this None False "3.prems"(2) nb show ?thesis
          by (simp add: remaining_def)
      qed
    next
      case (Some n)
      from position_less [OF Some] have n: "n < length b" .
      show ?thesis
      proof (cases "MAX_FRAME < length f + Suc n")
        case True
        with b Some "3.prems" show ?thesis by (auto simp: Let_def)
      next
        case False
        with b Some "3.prems"(1) have x: "x = Some (FrameBytes (f @ take (Suc n) b))" "f' = f @ take (Suc n) b"
          "r' = (if Suc n = length b then r else Inr (drop (Suc n) b) # r)"
          by (auto simp: Let_def split: if_splits)
        have "line f'" using line_append [OF "3.prems"(2) position_line [OF Some]] x(2) by simp
        moreover have "f @ remaining (Inr b # r) = f' @ remaining r'"
          using n by (simp add: x(2,3) remaining_def)
        ultimately show ?thesis using False n by (simp add: x(1,2))
      qed
    qed
  qed
qed (auto simp: remaining_def)

lemma lost_line [simp]: "newline \<notin> set b \<Longrightarrow> ev \<in> set (lost b) \<Longrightarrow> \<exists>b. ev = Lost b \<and> newline \<notin> set b"
  by (auto simp: lost_def split: if_splits)

fun bytes_ok :: "event \<Rightarrow> bool" where
  "bytes_ok (Routed b) = (line b \<and> length b \<le> MAX_FRAME)"
| "bytes_ok (Lost b) = (newline \<notin> set b)"
| "bytes_ok ev = True"

lemma bytes_ok_lost [simp]: "list_all bytes_ok (lost b) = (newline \<notin> set b)"
  by (auto simp: lost_def)

lemma bytes_ok_map [simp]: "list_all bytes_ok (map Queued bs)" "list_all bytes_ok (map Accepted qs)"
  "list_all bytes_ok (map Aborted qs)"
  by (simp_all add: list_all_iff)

lemma select_bytes:
  assumes "newline \<notin> set (sr_partial st)"
  shows "sr_partial st @ remaining (sr_input st) = concat (over_log consumed_by (select_events out t i st)) @
      sr_partial (select_poll (o_enc out) (o_parse out) t i st) @
      remaining (sr_input (select_poll (o_enc out) (o_parse out) t i st)) \<and>
    newline \<notin> set (sr_partial (select_poll (o_enc out) (o_parse out) t i st)) \<and>
    list_all bytes_ok (select_events out t i st)"
proof (cases rule: select_cases [of "o_enc out" "o_parse out" t i st])
  case (routed b f r go sv st')
  from frame_poll_bytes [OF routed(1) assms] routed show ?thesis
    by (simp add: select_events_def Let_def leave_def)
next
  case (ended x e f r)
  from frame_poll_bytes [OF ended(3) assms] ended show ?thesis
    by (cases x) (simp_all add: select_events_def leave_def)
next
  case (waits f r)
  from frame_poll_bytes [OF waits(3) assms] waits show ?thesis by (simp add: select_events_def)
qed (use assms in \<open>simp_all add: select_events_def leave_def\<close>)

lemma select_received: "over_log received_by (select_events out t i st) = []"
proof (cases rule: select_cases [of "o_enc out" "o_parse out" t i st])
  case (ended x e f r)
  then show ?thesis by (cases x) (simp_all add: select_events_def)
qed (simp_all add: select_events_def Let_def)

lemma select_phase: "sr_phase st = Serving \<Longrightarrow> sr_phase (select_poll enc parse t i st) \<noteq> Serving \<Longrightarrow>
    sr_partial (select_poll enc parse t i st) = []"
  by (cases rule: select_cases [of enc parse t i st]) (simp_all add: leave_def split: if_splits)

text \<open>Everything but the loop leaves the input alone.\<close>

lemma main_input:
  "sr_phase st \<noteq> Serving \<Longrightarrow> sr_partial (main_poll enc parse t i l st) = sr_partial st \<and>
   sr_input (main_poll enc parse t i l st) = sr_input st \<and> sr_phase (main_poll enc parse t i l st) \<noteq> Serving"
  by (simp add: main_poll_def objects_poll_def flush_poll_def Let_def
      split: serve_phase.split prod.split write_state.split option.split)

lemma request_poll_partial:
  "sr_partial (request_poll e d env be enc wk q st) = sr_partial st"
  by (simp add: request_poll_def answer_request_def task_over_def
      split: prod.split option.split stage.split bool.split)

lemma remaining_append [simp]: "remaining (r @ r') = remaining r @ remaining r'" "remaining [] = []"
  by (simp_all add: remaining_def)

lemma quiet_input:
  "over_log received_by (request_events out wk q st) = []" "over_log consumed_by (request_events out wk q st) = []"
  "list_all bytes_ok (request_events out wk q st)"
  "over_log received_by (output_events st) = []" "over_log consumed_by (output_events st) = []"
  "list_all bytes_ok (output_events st)"
  by (simp_all add: request_events_def output_events_def takes_def Let_def
      split: prod.split option.split stage.split serve_phase.split write_state.split next_result.split)

definition input_ok :: "'p server \<Rightarrow> bool" where
  "input_ok st \<longleftrightarrow> newline \<notin> set (sr_partial st) \<and> (sr_phase st \<noteq> Serving \<longrightarrow> sr_partial st = [])"

lemma step_input:
  assumes "input_ok st"
  shows "sr_partial st @ remaining (sr_input st) @ remaining (over_log received_by (events out op st)) =
      concat (over_log consumed_by (events out op st)) @
      sr_partial (serve_exec out op st) @ remaining (sr_input (serve_exec out op st)) \<and>
    input_ok (serve_exec out op st) \<and> list_all bytes_ok (events out op st)"
proof (cases op)
  case (MainPoll t i l)
  show ?thesis
  proof (cases "sr_phase st = Serving")
    case True
    with assms MainPoll select_bytes [of st out t i] select_phase [OF True, of "o_enc out" "o_parse out" t i]
    show ?thesis by (auto simp: input_ok_def main_events_def main_poll_def select_received)
  next
    case False
    with assms MainPoll main_input [OF False, of "o_enc out" "o_parse out" t i l] show ?thesis
      by (cases "sr_phase st") (simp_all add: input_ok_def main_events_def)
  qed
next
  case (ReqPoll i wk)
  with assms show ?thesis
    by (simp add: input_ok_def quiet_input request_poll_same request_poll_partial split: option.split)
next
  case (Output pick x)
  with assms show ?thesis
    by (cases "writer_step pick x (sr_writer st) (sr_out st)"; cases "sr_phase st")
      (simp_all add: input_ok_def quiet_input output_poll_def)
next
  case (Input x)
  with assms show ?thesis by (simp add: input_ok_def)
qed (use assms in \<open>simp_all add: input_ok_def\<close>)

section \<open>The invariant of the log\<close>

text \<open>What an answer queued: the reply, unless the outbox is closed by now.\<close>

fun answer_ok :: "encoder \<Rightarrow> bool \<Rightarrow> event \<Rightarrow> bool" where
  "answer_ok enc closed (Answered q res bs) =
     (reply_ok (rq_id q) (response (String (rq_id q)) res) \<and>
      (case control_bytes enc (response (String (rq_id q)) res) of
         Inl e \<Rightarrow> bs = []
       | Inr b \<Rightarrow> bs = [b] \<or> bs = [] \<and> closed))"
| "answer_ok enc closed ev = True"

lemma answer_ok_mono: "answer_ok enc c ev \<Longrightarrow> (c \<Longrightarrow> c') \<Longrightarrow> answer_ok enc c' ev"
  by (cases ev) (auto split: sum.splits)

lemma answer_ok_map [simp]: "list_all (answer_ok enc c) (map Queued bs)" "list_all (answer_ok enc c) (map Accepted qs)"
  "list_all (answer_ok enc c) (map Aborted qs)" "list_all (answer_ok enc c) (lost b)"
  by (simp_all add: list_all_iff lost_def)

lemma request_answer_segment:
  "request_answer (o_engine out) (o_decoders out) (o_env out) (o_build out) (o_enc out) wk q st =
   (case fst (request_segment out wk q st) of Some (Answering res) \<Rightarrow> Some res | _ \<Rightarrow> None)"
  by (simp add: request_answer_def request_segment_def split: stage.split prod.split option.split)

lemma stages_reply:
  assumes "stages_ok st" "request_segment out wk q st = (Some (Answering res), sv)"
  shows "reply_ok (rq_id q) (response (String (rq_id q)) res)"
proof (cases res)
  case (Inl e)
  have "request_answer (o_engine out) (o_decoders out) (o_env out) (o_build out) (o_enc out) wk q st = Some (Inl e)"
    using assms(2) Inl by (simp add: request_answer_segment)
  from documented_value [OF answer_documented [OF assms(1) this]] Inl show ?thesis
    by (simp add: reply_ok_def response_def vget_jobj)
qed (simp add: reply_ok_def response_def vget_jobj)

lemma finish_answer:
  assumes "request_finish enc q res sv = (True, sv')"
  shows "case control_bytes enc (response (String (rq_id q)) res) of
      Inl e \<Rightarrow> new_control (sv_out sv) (sv_out sv') = []
    | Inr b \<Rightarrow> new_control (sv_out sv) (sv_out sv') = [b] \<or>
        new_control (sv_out sv) (sv_out sv') = [] \<and> oclosed (sv_out sv')"
  using assms
  by (auto simp: request_finish_def outbox_control_def new_control_def push_control_def Let_def
      split: prod.splits poll.splits sum.splits if_splits)

lemma step_answers:
  assumes "stages_ok st"
  shows "list_all (answer_ok (o_enc out) (oclosed (sr_out (serve_exec out op st)))) (events out op st)"
proof (cases op)
  case (MainPoll t i l)
  have "list_all (answer_ok (o_enc out) c) (select_events out t i st)" for c
  proof (cases rule: select_cases [of "o_enc out" "o_parse out" t i st])
    case (ended x e f r)
    then show ?thesis by (cases x) (simp_all add: select_events_def)
  qed (simp_all add: select_events_def Let_def)
  with MainPoll show ?thesis by (simp add: main_events_def split: serve_phase.split)
next
  case (ReqPoll i wk)
  have "list_all (answer_ok (o_enc out) (oclosed (sr_out
      (request_poll (o_engine out) (o_decoders out) (o_env out) (o_build out) (o_enc out) wk q st))))
    (request_events out wk q st)" for q
  proof -
    obtain x sv where s: "request_segment out wk q st = (x, sv)" by fastforce
    show ?thesis
    proof (cases "\<exists>res sv'. x = Some (Answering res) \<and> request_finish (o_enc out) q res sv = (True, sv')")
      case True
      then obtain res sv' where r: "x = Some (Answering res)" "request_finish (o_enc out) q res sv = (True, sv')"
        by blast
      from stages_reply [OF assms s [unfolded r(1)]] finish_answer [OF r(2)] r s show ?thesis
        unfolding request_poll_segment
        by (simp add: request_events_def answer_request_def task_over_def)
    next
      case False
      with s show ?thesis
        by (auto simp: request_events_def split: option.split stage.split prod.split)
    qed
  qed
  with ReqPoll show ?thesis by (simp split: option.split)
next
  case (Output pick x)
  then show ?thesis
    by (simp add: output_events_def takes_def Let_def split: serve_phase.split write_state.split next_result.split)
qed simp_all

section \<open>A closed outbox stays closed\<close>

lemma main_closed: "oclosed (sr_out st) \<Longrightarrow> oclosed (sr_out (main_poll enc parse t i l st))"
proof -
  assume c: "oclosed (sr_out st)"
  have drops: "sv_runtime (fold request_drop qs sv) = sv_runtime sv" for qs and sv :: "'a service"
    by (induction qs arbitrary: sv) simp_all
  have poll: "oclosed (sr_out (objects_poll enc ids st'))" if "oclosed (sr_out st')" for ids and st' :: "'a server"
    using that shutdown_world [of ids "sv_runtime (sr_service st')"]
    by (cases "shutdown_poll ids (sv_runtime (sr_service st'))")
      (simp add: objects_poll_def Let_def close_output_def outbox_close_def)
  have "oclosed (sr_out (select_poll enc parse t i st))"
    using select_poll_out [of enc st parse t i] c by (simp add: out_rel_def)
  with c poll show ?thesis
    by (cases "sr_phase st")
      (auto simp: main_poll_def abort_tasks_def drops flush_poll_def shutdown_begin_def Let_def
        split: prod.split write_state.split option.split)
qed

lemma request_poll_out:
  fixes out :: "'p outside"
  shows "out_rel (o_enc out) (sr_out st) (sr_out
     (request_poll (o_engine out) (o_decoders out) (o_env out) (o_build out) (o_enc out) wk q st))"
proof -
  obtain x sv where s: "request_segment out wk q st = (x, sv)" by fastforce
  note seg = out_rel_segment [OF s]
  have "out_rel (o_enc out) (sr_out st) (sr_out (answer_request (o_enc out) q res sv st))" for res
    using out_rel_trans [OF seg out_rel_finish [of "o_enc out" sv q res]]
    by (cases "request_finish (o_enc out) q res sv") (simp add: answer_request_def task_over_def split: bool.split)
  with seg show ?thesis
    unfolding request_poll_segment s by (simp add: task_over_def split: option.split stage.split)
qed

lemma step_closed: "oclosed (sr_out st) \<Longrightarrow> oclosed (sr_out (serve_exec out op st))"
proof (cases op)
  case (Output pick x)
  assume "oclosed (sr_out st)"
  with Output writer_outbox [of pick x "sr_writer st" "sr_out st"] show ?thesis
    by (cases "writer_step pick x (sr_writer st) (sr_out st)"; cases "sr_phase st")
      (auto simp: output_poll_def outbox_close_def outbox_next_def split: list.splits option.splits)
next
  case (ReqPoll i wk)
  assume "oclosed (sr_out st)"
  with ReqPoll request_poll_out [of out st wk] show ?thesis by (auto simp: out_rel_def split: option.split)
next
  case (ObjPoll i res)
  assume "oclosed (sr_out st)"
  with ObjPoll out_rel_task [of "o_enc out" "sv_runtime (sr_service st)" i res] show ?thesis by (simp add: out_rel_def)
next
  case (GuestAct i a)
  assume "oclosed (sr_out st)"
  with GuestAct out_rel_act [of "o_enc out" "sv_runtime (sr_service st)" i a] show ?thesis by (simp add: out_rel_def)
qed (simp_all add: main_closed)

section \<open>The invariant of the log\<close>

fun routed_by :: "event \<Rightarrow> bytes list" where
  "routed_by (Routed b) = [b]"
| "routed_by ev = []"

definition requests_in :: "parser \<Rightarrow> bytes list \<Rightarrow> request list" where
  "requests_in parse bs = List.map_filter (request_of parse) bs"

definition requests_ok :: "parser \<Rightarrow> event list \<Rightarrow> 'p server \<Rightarrow> bool" where
  "requests_ok parse tr st \<longleftrightarrow>
     mset (over_log accepted_by tr) = mset (over_log ended_by tr) + mset (sv_tasks (sr_service st)) \<and>
     subseq (over_log accepted_by tr) (requests_in parse (over_log routed_by tr)) \<and>
     ((\<exists>q. Aborted q \<in> set tr) \<longrightarrow> sr_phase st \<notin> {Serving, Leaving})"

definition output_ok :: "event list \<Rightarrow> 'p server \<Rightarrow> bool" where
  "output_ok tr st \<longleftrightarrow>
     over_log queued_by tr = over_log control_by tr @ control (sr_out st) \<and>
     in_line writer_new (concat (over_log taken_by tr)) (sr_writer st)"

definition stream_ok :: "event list \<Rightarrow> 'p server \<Rightarrow> bool" where
  "stream_ok tr st \<longleftrightarrow> input_ok st \<and> list_all bytes_ok tr \<and>
     remaining (over_log received_by tr) = concat (over_log consumed_by tr) @ sr_partial st @ remaining (sr_input st)"

definition log_ok :: "'p outside \<Rightarrow> event list \<times> 'p server \<Rightarrow> bool" where
  "log_ok out x \<longleftrightarrow> (case x of (tr, st) \<Rightarrow>
     sr_inv (o_enc out) st \<and> stages_ok st \<and> requests_ok (o_parse out) tr st \<and> output_ok tr st \<and>
     stream_ok tr st \<and> list_all (answer_ok (o_enc out) (oclosed (sr_out st))) tr)"

lemma select_aborts: "Aborted q \<notin> set (select_events out t i st)"
proof (cases rule: select_cases [of "o_enc out" "o_parse out" t i st])
  case (ended x e f r)
  then show ?thesis by (cases x) (auto simp: select_events_def lost_def)
qed (auto simp: select_events_def lost_def Let_def)

lemma step_phase:
  assumes "(\<exists>q. Aborted q \<in> set (events out op st)) \<or> sr_phase st \<notin> {Serving, Leaving}"
  shows "sr_phase (serve_exec out op st) \<notin> {Serving, Leaving}"
proof (cases op)
  case (MainPoll t i l)
  have "sr_phase (objects_poll enc ids st') \<notin> {Serving, Leaving}" for enc ids and st' :: "'a server"
    by (simp add: objects_poll_def Let_def split: prod.split)
  with assms MainPoll select_aborts [of _ out t i st] show ?thesis
    by (cases "sr_phase st")
      (auto simp: main_events_def main_poll_def flush_poll_def split: prod.split write_state.split option.split)
next
  case (ReqPoll j wk)
  have "Aborted q \<notin> set (request_events out wk p st)" for q p
    by (auto simp: request_events_def split: prod.split option.split stage.split)
  with ReqPoll assms show ?thesis by (auto simp: request_poll_same split: option.splits if_splits)
next
  case (Output pick x)
  have "Aborted q \<notin> set (output_events st)" for q
    by (auto simp: output_events_def Let_def split: serve_phase.split)
  with Output assms show ?thesis
    by (cases "writer_step pick x (sr_writer st) (sr_out st)"; cases "sr_phase st") (simp_all add: output_poll_def)
qed (use assms in auto)

lemma requests_ok_step:
  assumes inv: "sr_inv (o_enc out) st" and ok: "requests_ok (o_parse out) tr st"
  shows "requests_ok (o_parse out) (tr @ events out op st) (serve_exec out op st)"
proof -
  let ?ev = "events out op st"
  have "subseq (over_log accepted_by ?ev) (requests_in (o_parse out) (over_log routed_by ?ev))"
  proof (cases "\<exists>t i l. op = MainPoll t i l \<and> sr_phase st = Serving")
    case True
    then obtain t i l where op: "op = MainPoll t i l" "sr_phase st = Serving" by blast
    have "over_log accepted_by (select_events out t i st) = [] \<or>
        (\<exists>b q. over_log accepted_by (select_events out t i st) = [q] \<and>
           over_log routed_by (select_events out t i st) = [b] \<and> request_of (o_parse out) b = Some q)"
    proof (cases rule: select_cases [of "o_enc out" "o_parse out" t i st])
      case (routed b f r go sv st')
      have "over_log routed_by (map Accepted qs @ map Queued bs) = []" for qs bs
        by (induction qs; induction bs; simp)
      moreover have "sr_service (select_poll (o_enc out) (o_parse out) t i st) = sv"
        using routed(4,5) by (simp add: leave_def)
      ultimately show ?thesis using routed(1,2) route_request_of [OF routed(3)]
        by (auto simp: select_events_def Let_def)
    next
      case (ended x e f r)
      then show ?thesis by (cases x) (simp_all add: select_events_def)
    qed (simp_all add: select_events_def)
    with op show ?thesis
      by (auto simp: main_events_def requests_in_def map_filter_simps)
  next
    case False
    then have "over_log accepted_by ?ev = []"
      by (cases op) (auto simp: main_events_def request_events_def output_events_def takes_def Let_def
          split: serve_phase.split option.split prod.split stage.split write_state.split next_result.split)
    then show ?thesis by simp
  qed
  moreover have "requests_in (o_parse out) (bs @ bs') = requests_in (o_parse out) bs @ requests_in (o_parse out) bs'" for bs bs'
    by (simp add: requests_in_def map_filter_def)
  ultimately have "subseq (over_log accepted_by (tr @ ?ev)) (requests_in (o_parse out) (over_log routed_by (tr @ ?ev)))"
    using ok by (simp add: requests_ok_def list_emb_append_mono)
  moreover have "sr_phase (serve_exec out op st) \<notin> {Serving, Leaving}"
    if "(\<exists>q. Aborted q \<in> set ?ev) \<or> sr_phase st \<notin> {Serving, Leaving}"
    using step_phase [of out op st] that by blast
  ultimately show ?thesis
    using ok step_requests [OF inv, of op] by (auto simp: requests_ok_def)
qed

lemma log_ok_exec: "log_ok out x \<Longrightarrow> log_ok out (log_exec out op x)"
proof -
  assume ok: "log_ok out x"
  obtain tr st where x: "x = (tr, st)" by fastforce
  have "output_ok (tr @ events out op st) (serve_exec out op st)"
  proof -
    have o: "output_ok tr st" using ok x by (simp add: log_ok_def)
    have "in_line writer_new (concat (over_log taken_by (tr @ events out op st))) (sr_writer (serve_exec out op st))"
    proof (cases "\<exists>e. w_state (sr_writer st) = WEnd (Some e)")
      case True
      with ended_takes_nothing [of st _ out op] o show ?thesis by (auto simp: output_ok_def)
    next
      case False
      with in_line_trans [OF _ False step_taken [of st out op]] o show ?thesis by (simp add: output_ok_def)
    qed
    with o step_control [of st out op] show ?thesis by (simp add: output_ok_def)
  qed
  moreover have "stream_ok (tr @ events out op st) (serve_exec out op st)"
    using ok step_input [of st out op] by (auto simp: x log_ok_def stream_ok_def)
  moreover have "list_all (answer_ok (o_enc out) (oclosed (sr_out (serve_exec out op st)))) (tr @ events out op st)"
    using ok step_answers [of st out op] answer_ok_mono step_closed [of st out op]
    by (fastforce simp: x log_ok_def list_all_iff)
  ultimately show ?thesis
    using ok requests_ok_step [of out st tr op] sr.exec_inv [of out st op] stages_exec [of st out op]
    by (simp add: x log_ok_def)
qed

lemma log_ok_new: "log_ok out ([], server_new s b)"
proof -
  have "stages_ok (server_new s b)" by (simp add: stages_ok_def server_new_def)
  then show ?thesis
    using sr_inv_new [of "o_enc out" s b]
    by (simp add: log_ok_def requests_ok_def output_ok_def stream_ok_def input_ok_def server_new_def
        in_line_def writer_new_def requests_in_def map_filter_simps)
qed

interpretation lg: machine "\<lambda>x. x = ([], server_new s b)" "log_exec out" "log_ok out" for s b out
  by unfold_locales (simp_all only: log_ok_new log_ok_exec)

interpretation lgr: refining "\<lambda>x. x = ([], server_new s b)" "log_exec out" "log_ok out"
  "\<lambda>st. st = server_new s b" "serve_exec out" "sr_inv (o_enc out)" snd for s b out
proof unfold_locales
  show "\<exists>ops. snd (log_exec out op x) = fold (serve_exec out) ops (snd x)" if "log_ok out x" for op x
    by (rule exI [of _ "[op]"]) (cases x; simp)
qed simp_all

lemma slog_ok: "slog out s b ops = (tr, st) \<Longrightarrow> log_ok out (tr, st)"
  using lg.reach_inv [OF refl, of out ops s b] by simp

section \<open>The lines of an input\<close>

text \<open>The complete lines, by which a frame is meant when nothing interferes.\<close>

function split_lines :: "bytes \<Rightarrow> bytes list" where
  "split_lines s =
     (case position_newline s of
        None \<Rightarrow> []
      | Some i \<Rightarrow> take (Suc i) s # split_lines (drop (Suc i) s))"
  by pat_completeness auto

termination
proof (relation "measure length")
  show "(drop (Suc i) s, s) \<in> measure length" if "position_newline s = Some i" for s i
    using position_less [OF that] by simp
qed simp

declare split_lines.simps [simp del]

lemma split_lines_none: "newline \<notin> set s \<Longrightarrow> split_lines s = []"
  by (subst split_lines.simps) (simp add: position_None [symmetric])

lemma split_lines_line: "line b \<Longrightarrow> split_lines (b @ s) = b # split_lines s"
  unfolding line_def by (subst split_lines.simps) (auto simp: position_text)

lemma split_lines_concat: "list_all line bs \<Longrightarrow> split_lines (concat bs @ s) = bs @ split_lines s"
  by (induction bs) (simp_all add: split_lines_line)

end
