(* ===== verification/NoBuilds.thy ===== *)
theory NoBuilds
  imports SessionLog
begin

text \<open>
  \<^verbatim>\<open>serve\<close> of \<^verbatim>\<open>src/protocol.rs\<close>, the session of a program that was not given
  \<^verbatim>\<open>--enable-builds\<close>: whatever the client asks, no compilation is ever begun in it.
\<close>

definition serve :: "(bytes \<Rightarrow> bytes) \<Rightarrow> bytes list \<Rightarrow> string \<Rightarrow> 'p server" where
  "serve sha2 parts s = server_new s (builds_new sha2 parts False)"

definition never_builds :: "'p server \<Rightarrow> bool" where
  "never_builds st \<longleftrightarrow> unavailable (sr_builds st) \<noteq> None \<and> (\<forall>i req. sr_stage st i \<noteq> Building req)"

lemma never_builds_segment:
  assumes "never_builds st" "request_segment out wk q st = (x, sv)"
  shows "x \<noteq> Some (Building req)"
  using assms
  by (auto simp: never_builds_def request_segment_def start_request_def advance_request_def compile_begin_def Let_def
      split: prod.splits stage.splits method_step.splits sum.splits option.splits wake.splits poll.splits if_splits)

lemma never_builds_exec:
  assumes ok: "never_builds st"
  shows "never_builds (serve_exec out op st)"
proof (cases op)
  case (MainPoll t i l)
  have objects: "sr_stage (objects_poll enc ids st') = sr_stage st'" "unavailable (sr_builds (objects_poll enc ids st')) = unavailable (sr_builds st')"
    for enc ids and st' :: "'a server"
    by (auto simp: objects_poll_def close_output_def builds_shutdown_def Let_def split: prod.split)
  have "never_builds (main_poll (o_enc out) (o_parse out) t i l st)"
  proof (cases "sr_phase st")
    case Serving
    show ?thesis
      by (cases rule: select_cases [of "o_enc out" "o_parse out" t i st])
        (use ok Serving in \<open>auto simp: never_builds_def main_poll_def leave_def\<close>)
  qed (use ok in \<open>auto simp: never_builds_def main_poll_def objects flush_poll_def
      split: prod.split write_state.split option.split\<close>)
  with MainPoll show ?thesis by simp
next
  case (ReqPoll i wk)
  have "never_builds (request_poll (o_engine out) (o_decoders out) (o_env out) (o_build out) (o_enc out) wk q st)" for q
  proof -
    obtain x sv where s: "request_segment out wk q st = (x, sv)" by fastforce
    from never_builds_segment [OF ok s] ok show ?thesis
      unfolding request_poll_segment s
      by (auto simp: never_builds_def task_over_def answer_request_def split: option.split stage.split prod.split bool.split)
  qed
  with ReqPoll ok show ?thesis by (auto split: option.split)
next
  case (Output pick x)
  with ok show ?thesis by (auto simp: never_builds_def output_poll_def split: serve_phase.split prod.split)
qed (use ok in \<open>auto simp: never_builds_def\<close>)

lemma never_builds_new: "never_builds (serve sha2 parts s)"
  by (simp add: serve_def server_new_def never_builds_def builds_new_def)

interpretation off: machine "\<lambda>st. st = serve sha2 parts s" "serve_exec out" never_builds for sha2 parts s out
  by unfold_locales (use never_builds_new never_builds_exec in blast)+

lemma serve_never_builds: "sr_stage (fold (serve_exec out) ops (serve sha2 parts s)) i \<noteq> Building req"
  using off.reach_inv [OF refl, of out ops sha2 parts s] by (simp add: never_builds_def)

lemma builds_need_the_flag:
  "\<not> enable_builds a \<Longrightarrow> sr_stage (fold (serve_exec out) ops (session_start sha2 im a s)) i \<noteq> Building req"
  using serve_never_builds [of out ops sha2 "[im_object im, im_sdk im, im_revision im]" s i req]
  by (simp add: session_start_def serve_def)

end
