(* ===== verification/EndToEnd.thy ===== *)
theory EndToEnd
  imports SessionLog
begin

text \<open>
  What a client can rely on from its end of the two streams, whatever happens in between: the
  fate of every byte it sends, of every request, and of every answer.
\<close>

section \<open>The input\<close>

fun lost_by :: "event \<Rightarrow> bytes list" where
  "lost_by (Lost b) = [b]"
| "lost_by ev = []"

lemma nothing_lost: "over_log lost_by tr = [] \<Longrightarrow> over_log consumed_by tr = over_log routed_by tr"
proof (induction tr)
  case (Cons ev tr)
  then show ?case by (cases ev) simp_all
qed simp

lemma routed_lines: "list_all bytes_ok tr \<Longrightarrow> list_all line (over_log routed_by tr)"
proof (induction tr)
  case (Cons ev tr)
  then show ?case by (cases ev) simp_all
qed simp

text \<open>
  C1: every byte of the input is accounted for. What has arrived is, in order, the frames
  routed and the pieces lost, then the bytes of the frame being read and what is still to be
  read. A frame routed is one line of at most 256 KiB, a piece lost holds no complete line.
  As long as nothing is lost, the frames routed are the first lines of the input, one after
  the other, and all its lines once the input is read.
\<close>

theorem input_accounted:
  assumes run: "slog out s b ops = (tr, st)"
  defines "arrived \<equiv> remaining (over_log received_by tr)"
  shows "arrived = concat (over_log consumed_by tr) @ sr_partial st @ remaining (sr_input st) \<and>
    (\<forall>f. Routed f \<in> set tr \<longrightarrow> line f \<and> length f \<le> 256 * 1024) \<and>
    (\<forall>f. Lost f \<in> set tr \<longrightarrow> newline \<notin> set f) \<and>
    (over_log lost_by tr = [] \<longrightarrow>
       prefix (over_log routed_by tr) (split_lines arrived) \<and>
       (remaining (sr_input st) = [] \<longrightarrow> over_log routed_by tr = split_lines arrived))"
proof -
  have "stream_ok tr st" using slog_ok [OF run] by (simp add: log_ok_def)
  then have ok: "list_all bytes_ok tr" "newline \<notin> set (sr_partial st)"
    and eq: "arrived = concat (over_log consumed_by tr) @ sr_partial st @ remaining (sr_input st)"
    by (simp_all add: stream_ok_def input_ok_def arrived_def)
  have "split_lines arrived = over_log routed_by tr @ split_lines (sr_partial st @ remaining (sr_input st))"
    if "over_log lost_by tr = []"
    using eq nothing_lost [OF that] split_lines_concat [OF routed_lines [OF ok(1)]] by simp
  with eq ok split_lines_none [OF ok(2)] show ?thesis
    by (auto simp: list_all_iff MAX_FRAME_def)
qed

section \<open>Requests\<close>

fun answered_by :: "event \<Rightarrow> request list" where
  "answered_by (Answered q res bs) = [q]"
| "answered_by ev = []"

fun aborted_by :: "event \<Rightarrow> request list" where
  "aborted_by (Aborted q) = [q]"
| "aborted_by ev = []"

lemma ended_split: "mset (over_log ended_by tr) = mset (over_log answered_by tr) + mset (over_log aborted_by tr)"
proof (induction tr)
  case (Cons ev tr)
  then show ?case by (cases ev) simp_all
qed simp

lemma aborted_member: "q \<in> set (over_log aborted_by tr) \<longleftrightarrow> Aborted q \<in> set tr"
proof (induction tr)
  case (Cons ev tr)
  then show ?case by (cases ev) auto
qed simp

text \<open>
  C2: every request is answered once. The requests accepted are requests of the frames routed,
  in their order; each of them was answered, or was aborted, or is still running, and just one
  of the three; none is aborted before the loop has ended.
\<close>

theorem requests_answered_once:
  assumes run: "slog out s b ops = (tr, st)"
  shows "subseq (over_log accepted_by tr) (requests_in (o_parse out) (over_log routed_by tr)) \<and>
    mset (over_log accepted_by tr) = mset (over_log answered_by tr) + mset (over_log aborted_by tr) +
      mset (sv_tasks (sr_service st)) \<and>
    distinct (map rq_id (sv_tasks (sr_service st))) \<and>
    (sr_phase st \<in> {Serving, Leaving} \<longrightarrow> over_log aborted_by tr = []) \<and>
    (sr_phase st \<notin> {Serving, Leaving} \<longrightarrow> sv_tasks (sr_service st) = [])"
proof -
  have ok: "requests_ok (o_parse out) tr st" "sr_inv (o_enc out) st"
    using slog_ok [OF run] by (simp_all add: log_ok_def)
  have "distinct (map rq_id (sv_tasks (sr_service st)))"
    using ok(2) by (simp add: sr_inv_def serv_ok_def sv_inv_def tasks_ok_def)
  moreover have "sv_tasks (sr_service st) = []" if "sr_phase st \<notin> {Serving, Leaving}"
    using ok(2) that by (cases "sr_phase st") (simp_all add: sr_inv_def)
  moreover have "over_log aborted_by tr = []" if "sr_phase st \<in> {Serving, Leaving}"
    using ok(1) that aborted_member [of _ tr] unfolding requests_ok_def by (metis list.set_intros(1) neq_Nil_conv)
  ultimately show ?thesis using ok(1) ended_split [of tr] by (simp add: requests_ok_def)
qed

text \<open>
  C3: every answer is a reply. When a request has been answered, its reply is well formed:
  it has the request's identifier and a result or a documented error; and its one frame was
  queued, the reply itself or, when that exceeds a frame, the error that says so, unless the
  outbox was closed.
\<close>

theorem answers_are_replies:
  assumes run: "slog out s b ops = (tr, st)" and ans: "Answered q res bs \<in> set tr"
    and small: "encode (o_enc out) (too_large_reply (String (rq_id q))) \<noteq> None"
  defines "reply \<equiv> response (String (rq_id q)) res"
  shows "reply_ok (rq_id q) reply \<and>
    (bs = [] \<and> oclosed (sr_out st) \<or>
     (\<exists>f. bs = [f] \<and> encode (o_enc out)
        (if encode (o_enc out) reply = None then too_large_reply (String (rq_id q)) else reply) = Some f))"
proof -
  have "list_all (answer_ok (o_enc out) (oclosed (sr_out st))) tr"
    using slog_ok [OF run] by (simp add: log_ok_def)
  with ans have ok: "answer_ok (o_enc out) (oclosed (sr_out st)) (Answered q res bs)"
    by (auto simp: list_all_iff)
  have "vget reply ''id'' = Some (String (rq_id q))"
    by (simp add: reply_def response_def vget_jobj split: sum.split)
  with small obtain f where "control_bytes (o_enc out) reply = Inr f" "encode (o_enc out)
      (if encode (o_enc out) reply = None then too_large_reply (String (rq_id q)) else reply) = Some f"
    by (cases "encode (o_enc out) reply") (auto simp: control_bytes_def)
  with ok show ?thesis by (auto simp: reply_def)
qed

section \<open>The output\<close>

lemma control_taken: "subseq (over_log control_by tr) (over_log taken_by tr)"
proof (induction tr)
  case (Cons ev tr)
  then show ?case by (cases ev) (simp_all add: list_emb_Cons)
qed simp

text \<open>
  C4: control frames reach the output in order, once. The frames queued for control, answers
  among them, are those the writer has taken, in this order, followed by those in the queue;
  and unless the output has failed, what was written together with the rest of the frame being
  written is exactly the frames taken, control and data, one after the other.
\<close>

theorem control_frames_written_in_order:
  assumes run: "slog out s b ops = (tr, st)"
  shows "over_log queued_by tr = over_log control_by tr @ control (sr_out st) \<and>
    subseq (over_log control_by tr) (over_log taken_by tr) \<and>
    (if \<exists>e. w_state (sr_writer st) = WEnd (Some e)
     then prefix (w_sent (sr_writer st)) (concat (over_log taken_by tr))
     else w_sent (sr_writer st) @ unwritten (sr_writer st) = concat (over_log taken_by tr))"
proof -
  have "output_ok tr st" using slog_ok [OF run] by (simp add: log_ok_def)
  then show ?thesis
    using control_taken [of tr]
    by (auto simp: output_ok_def in_line_def writer_new_def unwritten_def intro: prefixI [OF sym] split: if_splits)
qed

section \<open>A logged run for examples\<close>

text \<open>A request is read, answered with an error, and its answer written; then one byte arrives.\<close>

definition demo_session :: "serve_op list" where
  "demo_session = [Input (Inr [CHR ''1'', newline]), main_runs, ReqPoll ''a'' NotReady, main_runs,
     Output False IoPending, Output False (IoDone 3), Input (Inr ''2''), main_runs]"

definition demo_log :: "event list" where
  "demo_log = [Received (Inr [CHR ''1'', newline]), Routed [CHR ''1'', newline], Accepted (small_request ''a''),
     Answered (small_request ''a'') (Inl not_initialized) [''{}'' @ [newline]],
     SentControl (''{}'' @ [newline]), Received (Inr ''2'')]"

lemma demo_log_read:
  "fold (log_exec demo_outside) [Input (Inr [CHR ''1'', newline]), main_runs] ([], server_new s b) =
   ([Received (Inr [CHR ''1'', newline]), Routed [CHR ''1'', newline], Accepted (small_request ''a'')],
    (server_new s b)\<lparr>sr_service := accepted (small_request ''a'') (service_new s)\<rparr>)"
  by (simp add: main_events_def select_events_def demo_outside_def server_new_def main_poll_def select_poll_def
      demo_frames demo_routes Let_def accepted_def del: frame_poll.simps)

lemma demo_log_answer:
  "fold (log_exec demo_outside) [ReqPoll ''a'' NotReady, main_runs]
     (tr, (server_new s b)\<lparr>sr_service := accepted (small_request ''a'') (service_new s)\<rparr>) =
   (tr @ [Answered (small_request ''a'') (Inl not_initialized) [''{}'' @ [newline]]],
    (server_new s b)\<lparr>sr_service := demo_done s\<rparr>)"
proof -
  have "task_of ''a'' (accepted (small_request ''a'') (service_new s :: unit service)) = Some (small_request ''a'')"
    by (simp add: task_of_def accepted_def small_request_def)
  moreover have "rq_id (small_request ''a'') = ''a''" "rq_method (small_request ''a'') = ''m''"
    by (simp_all add: small_request_def)
  moreover have "\<not> sv_shutdown (demo_done s)" "\<not> oclosed (wout (sv_world (demo_done s)))"
    "control (wout (sv_world (demo_done s))) = [''{}'' @ [newline]]"
    by (simp_all add: demo_done_def push_control_def outbox_new_def)
  ultimately show ?thesis
    by (simp add: demo_outside_def server_new_def main_poll_def request_poll_def request_events_def
        request_segment_def main_events_def select_events_def lost_def new_control_def
        start_request_def service_handle_def answer_request_def task_over_def demo_finish
        select_poll_def Let_def fun_upd_idem)
qed

lemma demo_log_write:
  "\<exists>st. fold (log_exec demo_outside) [Output False IoPending, Output False (IoDone 3), Input (Inr ''2''), main_runs]
     (tr, (server_new s b)\<lparr>sr_service := demo_done s\<rparr>) =
     (tr @ [SentControl (''{}'' @ [newline]), Received (Inr ''2'')], st) \<and> sr_phase st = Serving \<and>
     sr_partial st = ''2'' \<and> sr_input st = [] \<and> w_sent (sr_writer st) = ''{}'' @ [newline] \<and>
     w_state (sr_writer st) = WWrite [] \<and> \<not> oclosed (sr_out st) \<and> control (sr_out st) = []"
  by (simp add: demo_done_def push_control_def output_events_def main_events_def select_events_def lost_def
      takes_def Let_def serve_eval writer_eval)

lemma demo_logged:
  "\<exists>st. slog demo_outside s b demo_session = (demo_log, st) \<and> sr_phase st = Serving \<and>
     sr_partial st = ''2'' \<and> sr_input st = [] \<and> w_sent (sr_writer st) = ''{}'' @ [newline] \<and>
     w_state (sr_writer st) = WWrite [] \<and> \<not> oclosed (sr_out st) \<and> control (sr_out st) = []"
proof -
  have ops: "demo_session = ([Input (Inr [CHR ''1'', newline]), main_runs] @ [ReqPoll ''a'' NotReady, main_runs]) @
      [Output False IoPending, Output False (IoDone 3), Input (Inr ''2''), main_runs]"
    by (simp add: demo_session_def)
  show ?thesis
    unfolding ops fold_append o_apply demo_log_read demo_log_answer demo_log_def
    using demo_log_write [of "[Received (Inr [CHR ''1'', newline]), Routed [CHR ''1'', newline], Accepted (small_request ''a'')] @
      [Answered (small_request ''a'') (Inl not_initialized) [''{}'' @ [newline]]]" s b] by simp
qed

theorem input_accounted_witness:
  "split_lines [CHR ''1'', newline, CHR ''2''] = [[CHR ''1'', newline]]"
proof -
  obtain st where run: "slog demo_outside ''s'' some_builds demo_session = (demo_log, st)"
    and st: "sr_partial st = ''2''" "sr_input st = []"
    using demo_logged by blast
  from input_accounted [OF run] st(2) show ?thesis
    by (simp add: demo_log_def remaining_def)
qed

theorem requests_answered_once_witness:
  "\<exists>st. slog demo_outside ''s'' some_builds demo_session = (demo_log, st) \<and> sv_tasks (sr_service st) = [] \<and>
     over_log answered_by demo_log = [small_request ''a'']"
proof -
  obtain st where run: "slog demo_outside ''s'' some_builds demo_session = (demo_log, st)"
    using demo_logged by blast
  from requests_answered_once [OF run] run show ?thesis by (simp add: demo_log_def)
qed

theorem answers_are_replies_witness:
  "reply_ok ''a'' (response (String ''a'') (Inl not_initialized)) \<and>
   (\<exists>f. [''{}'' @ [newline]] = [f] \<and> encode tiny_enc
      (if encode tiny_enc (response (String ''a'') (Inl not_initialized)) = None then too_large_reply (String ''a'')
       else response (String ''a'') (Inl not_initialized)) = Some f)"
proof -
  obtain st where run: "slog demo_outside ''s'' some_builds demo_session = (demo_log, st)"
    using demo_logged by blast
  have "Answered (small_request ''a'') (Inl not_initialized) [''{}'' @ [newline]] \<in> set demo_log"
    by (simp add: demo_log_def)
  from answers_are_replies [OF run this] show ?thesis
    by (simp add: small_request_def demo_outside_def encode_def tiny_enc_def MAX_FRAME_def)
qed

theorem control_frames_written_in_order_witness:
  "\<exists>st. slog demo_outside ''s'' some_builds demo_session = (demo_log, st) \<and>
     w_sent (sr_writer st) @ unwritten (sr_writer st) = ''{}'' @ [newline] \<and>
     over_log queued_by demo_log = over_log control_by demo_log @ control (sr_out st)"
proof -
  obtain st where run: "slog demo_outside ''s'' some_builds demo_session = (demo_log, st)"
    and w: "w_state (sr_writer st) = WWrite []"
    using demo_logged by blast
  from control_frames_written_in_order [OF run] run w show ?thesis by (simp add: demo_log_def)
qed

end
