(* ===== verification/Delivery.thy ===== *)
theory Delivery
  imports EndToEnd
begin

text \<open>
  Answers get out: a control frame that is queued is written within a bounded number of steps
  of a writer whose output takes bytes, whatever else the program does meanwhile.
\<close>

section \<open>The writer's state\<close>

lemma next_length: "outbox_inv q \<Longrightarrow> outbox_next q = (Frame b, q') \<Longrightarrow> length b \<le> MAX_FRAME"
proof -
  assume inv: "outbox_inv q" and n: "outbox_next q = (Frame b, q')"
  have "length (fbytes f) \<le> MAX_FRAME" if "odata q k = Some (f # fs)" for k f fs
    using outbox_invD(6) [OF inv, of k] that by (simp add: qsize_def outbox_limits)
  moreover have "length (hd (control q)) \<le> MAX_FRAME" if "control q \<noteq> []"
    using outbox_invD(2) [OF inv, of "hd (control q)"] that by simp
  ultimately show ?thesis
    using n by (auto simp: outbox_next_def split: if_splits list.splits option.splits)
qed

text \<open>A writer that flushes or has ended saw the outbox closed; a frame being written fits.\<close>

definition writer_ok :: "'p server \<Rightarrow> bool" where
  "writer_ok st \<longleftrightarrow>
     (w_state (sr_writer st) = WFlush \<or> (\<exists>x. w_state (sr_writer st) = WEnd x) \<longrightarrow> oclosed (sr_out st)) \<and>
     (\<forall>b. w_state (sr_writer st) = WWrite b \<longrightarrow> length b \<le> MAX_FRAME)"

lemma writer_ok_step:
  assumes inv: "sr_inv (o_enc out) st" and ok: "writer_ok st"
  shows "writer_ok (serve_exec out op st)"
proof (cases "\<exists>pick x. op = Output pick x \<and> (\<forall>y. sr_phase st \<noteq> Over y)")
  case True
  then obtain pick x where op: "op = Output pick x" "\<forall>y. sr_phase st \<noteq> Over y" by blast
  obtain w q where s: "writer_step pick x (sr_writer st) (sr_out st) = (w, q)" by fastforce
  have out: "outbox_inv (sr_out st)" using inv by (simp add: sr_inv_def serv_ok_def wr_inv_def wr_core_def)
  have "w_state w = WFlush \<or> (\<exists>x. w_state w = WEnd x) \<longrightarrow> oclosed q"
    using ok s
    by (auto simp: writer_ok_def writer_step_def take_step_def wake_step_def write_step_def write_error_def
        flush_step_def outbox_close_def outbox_next_def
        split: write_state.splits io.splits if_splits list.splits option.splits)
  moreover have "\<forall>b. w_state w = WWrite b \<longrightarrow> length b \<le> MAX_FRAME"
    using ok s next_length [OF out]
    by (auto simp: writer_ok_def writer_step_def take_step_def wake_step_def write_step_def write_error_def flush_step_def
        split: write_state.splits io.splits if_splits next_result.splits prod.splits)
  ultimately show ?thesis
    using op s by (cases "sr_phase st") (simp_all add: writer_ok_def output_poll_def)
next
  case False
  have "sr_writer (serve_exec out op st) = sr_writer st"
  proof (cases op)
    case (Output pick x)
    with False show ?thesis by (auto simp: output_poll_def)
  qed (simp_all add: main_writer request_poll_same split: option.split)
  with ok step_closed [of st out op] show ?thesis by (auto simp: writer_ok_def)
qed

lemma writer_ok_new: "writer_ok (server_new s b)"
  by (simp add: writer_ok_def server_new_def writer_new_def)

interpretation ow: machine "\<lambda>st. st = server_new s b" "serve_exec out"
  "\<lambda>st. sr_inv (o_enc out) st \<and> writer_ok st" for s b out
  by unfold_locales (simp_all add: sr_inv_new writer_ok_new sr.exec_inv writer_ok_step)

section \<open>How far a frame is from the output\<close>

text \<open>
  \<open>distance k\<close> bounds the steps until the control frame with \<open>k\<close> others before it is taken:
  each frame costs its bytes and a few steps, and at most every other frame is data.
\<close>

definition frame_cost :: nat where
  "frame_cost = MAX_FRAME + 3"

definition state_cost :: "write_state \<Rightarrow> nat" where
  "state_cost w = (case w of WWrite b \<Rightarrow> length b + 1 | WWait \<Rightarrow> 1 | _ \<Rightarrow> 0)"

definition distance :: "nat \<Rightarrow> writer \<Rightarrow> outbox \<Rightarrow> nat" where
  "distance k w q = (2 * k + (if control_burst q < 8 then 1 else 2)) * frame_cost + state_cost (w_state w)"

lemma next_shortens:
  assumes "control q = c # cs" "outbox_inv q"
  shows "\<exists>b q'. outbox_next q = (Frame b, q') \<and> length b \<le> MAX_FRAME \<and> oclosed q' = oclosed q \<and>
    (control q' = cs \<and> b = c \<and> (control_burst q < 8 \<or> ready q = []) \<or> control q' = c # cs \<and> 8 \<le> control_burst q \<and> control_burst q' = 0)"
proof (cases "control_burst q < 8 \<or> ready q = []")
  case True
  with assms outbox_invD(2) [OF assms(2), of c] show ?thesis by (simp add: outbox_next_def)
next
  case False
  then obtain k ks where k: "ready q = k # ks" by (cases "ready q") auto
  with outbox_invD(4) [OF assms(2), of k] outbox_invD(5) [OF assms(2), of k] obtain f fs
    where f: "odata q k = Some (f # fs)" by (cases "odata q k"; cases "the (odata q k)") auto
  have "length (fbytes f) \<le> OBJECT_BYTES"
    using outbox_invD(6) [OF assms(2), of k] f by (simp add: qsize_def)
  then have "length (fbytes f) \<le> MAX_FRAME" by (simp add: outbox_limits)
  with False k f assms(1) show ?thesis by (simp add: outbox_next_def)
qed

text \<open>An output that takes something whenever it is asked, or is not ready.\<close>

fun io_works :: "io \<Rightarrow> bool" where
  "io_works (IoDone n) = (0 < n)"
| "io_works (IoFail e) = False"
| "io_works IoPending = True"

lemma distance_step:
  assumes inv: "wr_core (w, q)" and live: "\<not> oclosed q" "w_state w \<noteq> WFlush" "\<forall>x. w_state w \<noteq> WEnd x"
    and c: "control q = xs @ f # ys" and x: "io_works x" and s: "writer_step pick x w q = (w', q')"
  shows "takes w q = [f] \<and> xs = [] \<and> w_state w = WTake \<and> w_state w' = WWrite f \<and>
      (control_burst q < 8 \<or> ready q = []) \<or>
    (\<exists>xs'. control q' = xs' @ f # ys \<and>
       (x = IoPending \<and> distance (length xs') w' q' \<le> distance (length xs) w q \<or>
        distance (length xs') w' q' < distance (length xs) w q))"
proof (cases "w_state w")
  case WTake
  obtain c cs where cs: "control q = c # cs" using c by (cases xs) auto
  have "outbox_inv q" using inv by (simp add: wr_core_def)
  from next_shortens [OF cs this] obtain b q1 where n: "outbox_next q = (Frame b, q1)" "length b \<le> MAX_FRAME"
    "control q1 = cs \<and> b = c \<and> (control_burst q < 8 \<or> ready q = []) \<or> control q1 = c # cs \<and> 8 \<le> control_burst q \<and> control_burst q1 = 0" by blast
  have w': "w' = w\<lparr>w_state := WWrite b\<rparr>" "q' = q1" "takes w q = [b]"
    using s WTake n(1) by (simp_all add: writer_step_def take_step_def takes_def)
  show ?thesis
  proof (cases "control q1 = cs \<and> b = c \<and> (control_burst q < 8 \<or> ready q = [])")
    case True
    show ?thesis
    proof (cases xs)
      case Nil
      with c cs True w' WTake show ?thesis by simp
    next
      case (Cons z zs)
      with c cs have "z = c" "cs = zs @ f # ys" by simp_all
      with Cons True w' n(2) WTake show ?thesis
        by (intro disjI2 exI [of _ zs]) (simp add: distance_def state_cost_def frame_cost_def)
    qed
  next
    case False
    with n(2,3) c cs w' WTake show ?thesis
      by (intro disjI2 exI [of _ xs]) (auto simp: distance_def state_cost_def frame_cost_def)
  qed
next
  case WWait
  then have "w_seen w < ochanged q"
    using inv c by (auto simp: wr_core_def)
  with WWait s live(1) have "w_state w' = WTake" "q' = q" "takes w q = []"
    by (auto simp: writer_step_def wake_step_def takes_def)
  with WWait c show ?thesis
    by (intro disjI2 exI [of _ xs]) (simp add: distance_def state_cost_def)
next
  case (WWrite b)
  then have t: "takes w q = []" by (simp add: takes_def)
  show ?thesis
  proof (cases "b = [] \<or> x \<noteq> IoPending")
    case True
    with WWrite s x have "q' = q" "state_cost (w_state w') < state_cost (w_state w)"
      by (auto simp: writer_step_def write_step_def state_cost_def split: io.splits if_splits)
    with t c show ?thesis by (intro disjI2 exI [of _ xs]) (simp add: distance_def)
  next
    case False
    with WWrite s have "q' = q" "w' = w" "x = IoPending" by (auto simp: writer_step_def write_step_def)
    with t c show ?thesis by (intro disjI2 exI [of _ xs]) simp
  qed
next
  case WPanic
  with inv show ?thesis by (simp add: wr_core_def)
qed (use live in auto)

section \<open>Delivery\<close>

fun feeds :: "serve_op \<Rightarrow> bool" where
  "feeds (Output pick (IoDone n)) = (0 < n)"
| "feeds op = False"

fun op_works :: "serve_op \<Rightarrow> bool" where
  "op_works (Output pick x) = io_works x"
| "op_works op = True"

lemma closed_run: "oclosed (sr_out st) \<Longrightarrow> oclosed (sr_out (fold (serve_exec out) ops st))"
  by (induction ops arbitrary: st) (simp_all add: step_closed)

lemma not_over: "sr_inv enc st \<Longrightarrow> \<not> oclosed (sr_out st) \<Longrightarrow> \<forall>x. sr_phase st \<noteq> Over x"
  by (auto simp: sr_inv_def)

lemma main_out:
  assumes "\<not> oclosed (sr_out (main_poll enc parse t i l st))"
  shows "out_rel enc (sr_out st) (sr_out (main_poll enc parse t i l st))"
proof -
  have drops: "sv_runtime (fold request_drop qs sv) = sv_runtime sv" for qs and sv :: "'a service"
    by (induction qs arbitrary: sv) simp_all
  have poll: "out_rel enc (sr_out st') (sr_out (objects_poll enc ids st'))"
    if "\<not> oclosed (sr_out (objects_poll enc ids st'))" for ids and st' :: "'a server"
    using shutdown_world [of ids "sv_runtime (sr_service st')"] that
    by (cases "shutdown_poll ids (sv_runtime (sr_service st'))")
      (simp add: objects_poll_def Let_def close_output_def outbox_close_def split: if_splits)
  show ?thesis
  proof (cases "sr_phase st")
    case Joined
    obtain ids r where b: "shutdown_begin (sv_runtime (sr_service st)) = (ids, r)" by fastforce
    then have "rworld r = sv_world (sr_service st)" by (auto simp: shutdown_begin_def)
    with poll [of ids "st\<lparr>sr_service := (sr_service st)\<lparr>sv_runtime := r\<rparr>\<rparr>"] assms Joined b show ?thesis
      by (simp add: main_poll_def)
  next
    case (StopObjects ids)
    with poll [of ids st] assms show ?thesis by (simp add: main_poll_def)
  next
    case Leaving
    then show ?thesis by (simp add: main_poll_def abort_tasks_def drops Let_def)
  qed (use select_poll_out in \<open>simp_all add: main_poll_def flush_poll_def split: write_state.split option.split\<close>)
qed

text \<open>What other steps leave of the writer's affairs.\<close>

lemma other_step:
  assumes "\<forall>pick x. op \<noteq> Output pick x" "\<not> oclosed (sr_out (serve_exec out op st))"
  shows "sr_writer (serve_exec out op st) = sr_writer st \<and> w_sent (sr_writer (serve_exec out op st)) = w_sent (sr_writer st) \<and>
    control_burst (sr_out (serve_exec out op st)) = control_burst (sr_out st) \<and>
    over_log control_by (events out op st) = [] \<and> (\<exists>bs. control (sr_out (serve_exec out op st)) = control (sr_out st) @ bs)"
proof -
  have "sr_writer (serve_exec out op st) = sr_writer st \<and>
    out_rel (o_enc out) (sr_out st) (sr_out (serve_exec out op st)) \<and> over_log control_by (events out op st) = []"
  proof (cases op)
    case (MainPoll t i l)
    have "over_log control_by (main_events out t i st) = []"
      by (cases "sr_phase st") (simp_all add: main_events_def select_sends_nothing)
    with MainPoll assms(2) main_out [of "o_enc out" "o_parse out" t i l st] show ?thesis by (simp add: main_writer)
  next
    case (ReqPoll j wk)
    have "over_log control_by (request_events out wk q st) = []" for q
      by (simp add: request_events_def split: prod.split option.split stage.split)
    with ReqPoll request_poll_out [of out st wk] show ?thesis by (simp add: request_poll_same split: option.split)
  qed (use assms(1) out_rel_task out_rel_act in auto)
  then show ?thesis by (auto simp: out_rel_def)
qed

lemma delivered:
  assumes "sr_inv (o_enc out) st" "writer_ok st" "list_all op_works ops"
    and "\<not> oclosed (sr_out (fold (serve_exec out) ops st))" "control (sr_out st) = xs @ f # ys"
    and "distance (length xs) (sr_writer st) (sr_out st) < length (filter feeds ops)"
  shows "\<exists>ops1 op ops2 tr1 st1. ops = ops1 @ op # ops2 \<and> fold (log_exec out) ops1 (tr, st) = (tr1, st1) \<and>
    over_log control_by tr1 = over_log control_by tr @ xs \<and> events out op st1 = [SentControl f] \<and>
    w_state (sr_writer st1) = WTake \<and> w_state (sr_writer (serve_exec out op st1)) = WWrite f \<and>
    length (filter feeds ops) \<le> distance (length xs) (sr_writer st) (sr_out st) + length (filter feeds ops2) + 1"
  using assms
proof (induction ops arbitrary: st tr xs ys)
  case (Cons op ops)
  let ?st = "serve_exec out op st" and ?tr = "tr @ events out op st"
  have open': "\<not> oclosed (sr_out ?st)" "\<not> oclosed (sr_out st)"
    using Cons.prems(4) closed_run [of ?st out ops] closed_run [of st out "op # ops"] by auto
  have inv: "sr_inv (o_enc out) ?st" "writer_ok ?st"
    using Cons.prems(1,2) by (simp_all only: sr.exec_inv writer_ok_step)
  have later: "list_all op_works ops" "\<not> oclosed (sr_out (fold (serve_exec out) ops ?st))"
    using Cons.prems(3,4) by simp_all
  have ?case if c: "control (sr_out ?st) = xs' @ f # ys'"
    and d: "distance (length xs') (sr_writer ?st) (sr_out ?st) + (if feeds op then 1 else 0) \<le> distance (length xs) (sr_writer st) (sr_out st)"
    and t: "over_log control_by (events out op st) @ xs' = xs" for xs' ys'
  proof -
    have "distance (length xs') (sr_writer ?st) (sr_out ?st) < length (filter feeds ops)"
      using d Cons.prems(6) by (auto split: if_splits)
    from Cons.IH [OF inv later c this, of ?tr] obtain ops1 op' ops2 tr1 st1 where
      r: "ops = ops1 @ op' # ops2" "fold (log_exec out) ops1 (?tr, ?st) = (tr1, st1)"
      "over_log control_by tr1 = over_log control_by ?tr @ xs'" "events out op' st1 = [SentControl f]"
      "w_state (sr_writer st1) = WTake" "w_state (sr_writer (serve_exec out op' st1)) = WWrite f"
      "length (filter feeds ops) \<le> distance (length xs') (sr_writer ?st) (sr_out ?st) + length (filter feeds ops2) + 1"
      by blast
    from r(7) d have "length (filter feeds (op # ops)) \<le> distance (length xs) (sr_writer st) (sr_out st) + length (filter feeds ops2) + 1"
      by (auto split: if_splits)
    with r t show ?thesis by (intro exI [of _ "op # ops1"] exI [of _ op'] exI [of _ ops2] exI [of _ tr1] exI [of _ st1]) simp
  qed note next' = this
  show ?case
  proof (cases "\<exists>pick x. op = Output pick x")
    case True
    then obtain pick x where op: "op = Output pick x" by blast
    obtain w q where s: "writer_step pick x (sr_writer st) (sr_out st) = (w, q)" by fastforce
    have over: "\<forall>x. sr_phase st \<noteq> Over x" by (rule not_over [OF Cons.prems(1) open'(2)])
    with s op have st: "sr_writer ?st = w" "sr_out ?st = q"
      by (cases "sr_phase st"; simp add: output_poll_def)+
    have core: "wr_core (sr_writer st, sr_out st)"
      using Cons.prems(1) by (simp add: sr_inv_def serv_ok_def wr_inv_def)
    have live: "w_state (sr_writer st) \<noteq> WFlush" "\<forall>x. w_state (sr_writer st) \<noteq> WEnd x"
      using Cons.prems(2) open'(2) by (auto simp: writer_ok_def)
    have x: "io_works x" using Cons.prems(3) op by simp
    note step = step_control [of st out op]
    from distance_step [OF core open'(2) live Cons.prems(5) x s] show ?thesis
    proof (elim disjE)
      assume t: "takes (sr_writer st) (sr_out st) = [f] \<and> xs = [] \<and> w_state (sr_writer st) = WTake \<and>
        w_state w = WWrite f \<and> (control_burst (sr_out st) < 8 \<or> ready (sr_out st) = [])"
      with over op Cons.prems(5) have "events out op st = [SentControl f]"
        by (cases "sr_phase st") (auto simp: output_events_def Let_def)
      with t st op show ?thesis
        by (intro exI [of _ "[]"] exI [of _ op] exI [of _ ops] exI [of _ tr] exI [of _ st]) simp
    next
      assume "\<exists>xs'. control q = xs' @ f # ys \<and>
       (x = IoPending \<and> distance (length xs') w q \<le> distance (length xs) (sr_writer st) (sr_out st) \<or>
        distance (length xs') w q < distance (length xs) (sr_writer st) (sr_out st))"
      then obtain xs' where xs': "control q = xs' @ f # ys"
       "x = IoPending \<and> distance (length xs') w q \<le> distance (length xs) (sr_writer st) (sr_out st) \<or>
        distance (length xs') w q < distance (length xs) (sr_writer st) (sr_out st)" by blast
      have "over_log queued_by (events out op st) = []"
        by (simp add: op output_events_def takes_def Let_def split: serve_phase.split write_state.split next_result.split)
      with step xs'(1) st Cons.prems(5) have "over_log control_by (events out op st) @ xs' = xs"
        by simp
      with next' [of xs' ys] xs' st op show ?thesis by (cases x) auto
    qed
  next
    case False
    with other_step [of op out st] open'(1) obtain bs where
      o: "sr_writer ?st = sr_writer st" "control_burst (sr_out ?st) = control_burst (sr_out st)"
      "over_log control_by (events out op st) = []" "control (sr_out ?st) = control (sr_out st) @ bs"
      by auto
    have "\<not> feeds op" using False by (cases op) auto
    with o Cons.prems(5) next' [of xs "ys @ bs"] show ?thesis by (simp add: distance_def)
  qed
qed simp

text \<open>A frame being written is written.\<close>

lemma sent_grows: "prefix (w_sent (sr_writer st)) (w_sent (sr_writer (fold (serve_exec out) ops st)))"
proof (induction ops arbitrary: st)
  case (Cons op ops)
  have "prefix (w_sent (sr_writer st)) (w_sent (sr_writer (serve_exec out op st)))"
  proof (cases op)
    case (Output pick x)
    then show ?thesis
      by (cases "writer_step pick x (sr_writer st) (sr_out st)"; cases "sr_phase st")
        (auto simp: output_poll_def writer_step_def take_step_def wake_step_def write_step_def write_error_def flush_step_def
          split: write_state.splits next_result.splits io.splits if_splits prod.splits)
  qed (simp_all add: main_writer request_poll_same split: option.split)
  with Cons.IH [of "serve_exec out op st"] show ?case by (auto intro: prefix_order.trans)
qed simp

lemma frame_written:
  assumes "sr_inv (o_enc out) st" "\<not> oclosed (sr_out (fold (serve_exec out) ops st))"
    and "w_state (sr_writer st) = WWrite b" "length b \<le> length (filter feeds ops)" "list_all op_works ops"
  shows "prefix (w_sent (sr_writer st) @ b) (w_sent (sr_writer (fold (serve_exec out) ops st)))"
  using assms
proof (induction ops arbitrary: st b)
  case (Cons op ops)
  let ?st = "serve_exec out op st"
  have open': "\<not> oclosed (sr_out ?st)" "\<not> oclosed (sr_out st)"
    using Cons.prems(2) closed_run [of ?st out ops] closed_run [of st out "op # ops"] by auto
  have inv: "sr_inv (o_enc out) ?st" by (rule sr.exec_inv [OF Cons.prems(1)])
  show ?case
  proof (cases "b = []")
    case True
    with sent_grows [of st out "op # ops"] show ?thesis by simp
  next
    case b: False
    show ?thesis
    proof (cases "\<exists>pick x. op = Output pick x")
      case True
      then obtain pick x where op: "op = Output pick x" by blast
      have over: "\<forall>x. sr_phase st \<noteq> Over x" by (rule not_over [OF Cons.prems(1) open'(2)])
      have w: "sr_writer ?st = fst (writer_step pick x (sr_writer st) (sr_out st))"
        using over op by (cases "writer_step pick x (sr_writer st) (sr_out st)"; cases "sr_phase st") (simp_all add: output_poll_def)
      show ?thesis
      proof (cases x)
        case (IoDone n)
        with op Cons.prems(5) have n: "0 < n" by simp
        with w b IoDone Cons.prems(3) have st: "w_state (sr_writer ?st) = WWrite (drop n b)"
          "w_sent (sr_writer ?st) = w_sent (sr_writer st) @ take n b"
          by (simp_all add: writer_step_def write_step_def)
        have "length (drop n b) \<le> length (filter feeds ops)" using Cons.prems(4) op IoDone n by simp
        from Cons.IH [OF inv _ st(1) this] Cons.prems(2,5) st(2) show ?thesis by simp
      next
        case IoPending
        with w b Cons.prems(3) have st: "w_state (sr_writer ?st) = WWrite b" "w_sent (sr_writer ?st) = w_sent (sr_writer st)"
          by (simp_all add: writer_step_def write_step_def)
        from Cons.IH [OF inv _ st(1)] Cons.prems(2,4,5) op IoPending st(2) show ?thesis by simp
      qed (use op Cons.prems(5) in simp)
    next
      case False
      with other_step [of op out st] open'(1) have st: "sr_writer ?st = sr_writer st" by simp
      moreover have "\<not> feeds op" using False by (cases op) auto
      ultimately show ?thesis using Cons.IH [OF inv, of b] Cons.prems by simp
    qed
  qed
qed simp

lemma log_extends: "\<exists>evs. fst (fold (log_exec out) ops (tr, st)) = tr @ evs"
proof (induction ops arbitrary: tr st)
  case (Cons op ops)
  from Cons.IH [of "tr @ events out op st" "serve_exec out op st"] show ?case by auto
qed simp

section \<open>Properties\<close>


text \<open>After the answer of the example its outbox stays open while a byte at a time is written.\<close>

definition demo_feed :: "nat \<Rightarrow> serve_op list" where
  "demo_feed n = replicate n (Output False (IoDone 1))"

lemma demo_feed_works: "list_all op_works (demo_feed n)" "length (filter feeds (demo_feed n)) = n"
  by (simp_all add: demo_feed_def list_all_iff)

lemma demo_feed_open: "\<not> oclosed (sr_out st) \<Longrightarrow> \<not> oclosed (sr_out (fold (serve_exec out) (demo_feed n) st))"
proof (induction n arbitrary: st)
  case (Suc n)
  have "\<not> oclosed (sr_out (serve_exec out (Output False (IoDone 1)) st))"
    using Suc.prems
    by (cases "writer_step False (IoDone 1) (sr_writer st) (sr_out st)"; cases "sr_phase st")
      (auto simp: output_poll_def writer_step_def take_step_def wake_step_def write_step_def flush_step_def outbox_next_def
        split: write_state.splits if_splits list.splits option.splits)
  from Suc.IH [OF this] show ?case by (simp add: demo_feed_def)
qed (simp add: demo_feed_def)


end
