(* ===== verification/GuestRuns.thy ===== *)
theory GuestRuns
  imports HelperSafety LifecycleSafe
begin

text \<open>
  Guest programs on the runtime: the helpers of \<^verbatim>\<open>src/helpers.rs\<close> run in the tasks of the
  objects of \<^verbatim>\<open>src/runtime.rs\<close>. A cell holds what the task of an object owns, that is its
  context, its memory, the future a helper posted and the host call that future holds; the
  outbox, the mailbox and the wait reason are the runtime's.

  The composed system is shown to refine the runtime with its abstract actions \<open>guest_act\<close>,
  so what holds of every run of the runtime holds with real helpers; and every host call in
  flight was granted to its object when it was loaded.
\<close>

section \<open>The system\<close>

record 'm cell =
  cl_guest :: guest
  cl_mem :: 'm
  cl_task :: "task option"
  cl_call :: "string option"

record ('p, 'm) guests =
  gr_runtime :: "'p runtime"
  gr_cells :: "string \<Rightarrow> 'm cell option"
  gr_next :: u64

definition guests_new :: "string \<Rightarrow> ('p, 'm) guests" where
  "guests_new s = \<lparr>gr_runtime = runtime_new s, gr_cells = (\<lambda>_. None), gr_next = 1\<rparr>"

text \<open>The object while its program runs.\<close>

definition running :: "string \<Rightarrow> 'p runtime \<Rightarrow> 'p object option" where
  "running i r =
     (case heap r i of
        Some ob \<Rightarrow> if ob_phase ob = Active \<and> \<not> ob_cancel ob then Some ob else None
      | None \<Rightarrow> None)"

definition helper_world :: "'m cell \<Rightarrow> 'p object \<Rightarrow> ('p, 'm) guests \<Rightarrow> 'm hworld" where
  "helper_world cl ob s =
     \<lparr>wguest = Some (cl_guest cl), next_handle = gr_next s, hout = wout (rworld (gr_runtime s)),
      hwait = ob_wait ob, mem = cl_mem cl\<rparr>"

text \<open>
  What a helper leaves goes back to the cell and the runtime; a fault ends the program, which
  makes no more calls.
\<close>

definition write_back ::
    "string \<Rightarrow> 'p object \<Rightarrow> 'm cell \<Rightarrow> task option \<Rightarrow> 'm hworld \<Rightarrow> ('p, 'm) guests \<Rightarrow> ('p, 'm) guests" where
  "write_back i ob cl t w s =
     (case wguest w of
        None \<Rightarrow> s
      | Some c \<Rightarrow>
          s\<lparr>gr_runtime := put i (ob\<lparr>ob_wait := hwait w\<rparr>)
              ((gr_runtime s)\<lparr>rworld := (rworld (gr_runtime s))\<lparr>wout := hout w\<rparr>\<rparr>),
            gr_cells := (gr_cells s)(i \<mapsto> \<lparr>cl_guest = c, cl_mem = mem w, cl_task = t, cl_call = None\<rparr>),
            gr_next := next_handle w\<rparr>)"

definition settle :: "string \<Rightarrow> 'p object \<Rightarrow> 'm cell \<Rightarrow> 'm hres \<Rightarrow> ('p, 'm) guests \<Rightarrow> ('p, 'm) guests" where
  "settle i ob cl res s =
     (case res of
        Fault \<Rightarrow> s\<lparr>gr_cells := (gr_cells s)(i := None)\<rparr>
      | Ret v w \<Rightarrow> write_back i ob cl None w s
      | Post t w \<Rightarrow> write_back i ob cl (Some t) w s)"

text \<open>The start of the task: the context takes the configuration and the capabilities.\<close>

definition enter :: "encoder \<Rightarrow> string \<Rightarrow> 'm \<Rightarrow> nat \<Rightarrow> ('p, 'm) guests \<Rightarrow> ('p, 'm) guests" where
  "enter enc i m now s =
     (case heap (gr_runtime s) i of
        None \<Rightarrow> s
      | Some ob \<Rightarrow>
          if ob_phase ob = Spawned
          then s\<lparr>gr_runtime := task_poll enc i RunMore (gr_runtime s),
                 gr_cells := (gr_cells s)(i \<mapsto>
                   \<lparr>cl_guest = guest_new (ob_id ob) (ob_config ob) (ob_caps ob) now, cl_mem = m,
                    cl_task = None, cl_call = None\<rparr>)\<rparr>
          else s)"

text \<open>A call of the \<open>k\<close>-th helper by a program that is not suspended.\<close>

definition helper_call ::
    "'m env \<Rightarrow> string \<Rightarrow> nat \<Rightarrow> u64 \<Rightarrow> u64 \<Rightarrow> u64 \<Rightarrow> u64 \<Rightarrow> u64 \<Rightarrow> ('p, 'm) guests \<Rightarrow> ('p, 'm) guests" where
  "helper_call e i k a1 a2 a3 a4 a5 s =
     (case (running i (gr_runtime s), gr_cells s i) of
        (Some ob, Some cl) \<Rightarrow>
          if cl_task cl = None \<and> k < length (HELPERS :: (string \<times> 'm helper) list)
          then settle i ob cl (snd (HELPERS ! k) e (helper_world cl ob s) a1 a2 a3 a4 a5) s
          else s
      | _ \<Rightarrow> s)"

text \<open>
  A poll of the posted future; \<open>due\<close> says that its timer has run out. \<open>resume\<close> is the closure
  a future ends with.
\<close>

definition resume :: "string \<Rightarrow> ('m hworld \<Rightarrow> 'm hres) \<Rightarrow> ('p, 'm) guests \<Rightarrow> ('p, 'm) guests" where
  "resume i f s =
     (case (running i (gr_runtime s), gr_cells s i) of
        (Some ob, Some cl) \<Rightarrow> settle i ob cl (f (helper_world cl ob s)) s
      | _ \<Rightarrow> s)"

definition with_act :: "encoder \<Rightarrow> string \<Rightarrow> guest_act \<Rightarrow> ('p, 'm) guests \<Rightarrow> ('p, 'm) guests" where
  "with_act enc i a s = s\<lparr>gr_runtime := guest_acts enc i a (gr_runtime s)\<rparr>"

definition poll_event :: "encoder \<Rightarrow> string \<Rightarrow> 'p object \<Rightarrow> bool \<Rightarrow> ('p, 'm) guests \<Rightarrow> ('p, 'm) guests" where
  "poll_event enc i ob due s =
     (case fst (mailbox_receive (ob_mailbox ob)) of
        Some v \<Rightarrow> resume i (complete_event (Some v)) (with_act enc i GReceive s)
      | None \<Rightarrow> if due then resume i (complete_event None) s else s)"

definition begin_call ::
    "encoder \<Rightarrow> string \<Rightarrow> 'm cell \<Rightarrow> string \<Rightarrow> string \<Rightarrow> json \<Rightarrow> u64 \<Rightarrow> nat \<Rightarrow> ('p, 'm) guests \<Rightarrow> ('p, 'm) guests" where
  "begin_call enc i cl obj cap args ms now s =
     (let s' = with_act enc i (GCall cap args ms now) s in
      case fst (call_begin obj cap args ms now (whost (rworld (gr_runtime s)))) of
        Inl x \<Rightarrow> resume i (complete_call (Inl x)) s'
      | Inr c \<Rightarrow> s'\<lparr>gr_cells := (gr_cells s)(i \<mapsto> cl\<lparr>cl_call := Some (cid c)\<rparr>)\<rparr>)"

definition continue_call :: "encoder \<Rightarrow> string \<Rightarrow> string \<Rightarrow> bool \<Rightarrow> ('p, 'm) guests \<Rightarrow> ('p, 'm) guests" where
  "continue_call enc i j due s =
     (let w = rworld (gr_runtime s) in
      case map_of (wcalls w) j of
        None \<Rightarrow> s
      | Some c \<Rightarrow>
          let s' = with_act enc i (GPollCall j due) s in
          (case fst (call_poll enc due c (whost w) (wout w)) of
             call_state.Running _ \<Rightarrow> s'
           | Returned r \<Rightarrow> resume i (complete_call r) s'))"

definition drive :: "encoder \<Rightarrow> string \<Rightarrow> bool \<Rightarrow> nat \<Rightarrow> ('p, 'm) guests \<Rightarrow> ('p, 'm) guests" where
  "drive enc i due now s =
     (case (running i (gr_runtime s), gr_cells s i) of
        (Some ob, Some cl) \<Rightarrow>
          (case cl_task cl of
             None \<Rightarrow> s
           | Some (SleepTask ms) \<Rightarrow> if due then resume i complete_sleep s else s
           | Some YieldTask \<Rightarrow> resume i complete_yield s
           | Some (EventTask ms) \<Rightarrow> poll_event enc i ob due s
           | Some (CallTask obj cap args ms) \<Rightarrow>
               (case cl_call cl of
                  None \<Rightarrow> begin_call enc i cl obj cap args ms now s
                | Some j \<Rightarrow> continue_call enc i j due s))
      | _ \<Rightarrow> s)"

datatype 'm gr_op =
    Outer rt_op
  | Enter string 'm nat
  | Help string nat u64 u64 u64 u64 u64 nat
  | Store string 'm
  | Drive string bool nat

fun gr_exec :: "'p engine \<Rightarrow> 'm env \<Rightarrow> 'm gr_op \<Rightarrow> ('p, 'm) guests \<Rightarrow> ('p, 'm) guests" where
  "gr_exec eng e (Outer op) s =
     (case op of
        Act _ _ \<Rightarrow> s
      | _ \<Rightarrow> s\<lparr>gr_runtime := rt_exec eng (to_vec e) op (gr_runtime s)\<rparr>)"
| "gr_exec eng e (Enter i m now) s = enter (to_vec e) i m now s"
| "gr_exec eng e (Help i k a1 a2 a3 a4 a5 now) s = helper_call (e\<lparr>now_ns := now\<rparr>) i k a1 a2 a3 a4 a5 s"
| "gr_exec eng e (Store i m) s =
     (case gr_cells s i of
        None \<Rightarrow> s
      | Some cl \<Rightarrow> s\<lparr>gr_cells := (gr_cells s)(i \<mapsto> cl\<lparr>cl_mem := m\<rparr>)\<rparr>)"
| "gr_exec eng e (Drive i due now) s = drive (to_vec e) i due now s"

section \<open>What a helper does to the runtime\<close>

text \<open>A helper leaves the outbox alone or logs with the identifier of its context.\<close>

definition says :: "encoder \<Rightarrow> 'm hworld \<Rightarrow> 'm hworld \<Rightarrow> bool" where
  "says enc w w' \<longleftrightarrow>
     hout w' = hout w \<or>
     (\<exists>c m. wguest w = Some c \<and> hout w' = snd (try_data enc (gid c) (log_frame (gid c) m) (hout w)))"

lemma says_same [simp]: "hout w' = hout w \<Longrightarrow> says enc w w'"
  by (simp add: says_def)

lemma says_insert [simp]: "res_inv (says enc w) (insert_handle v c w)"
  by (simp add: insert_handle_def)

lemma says_log: "res_inv (says (to_vec e) w) (h_log e w r1 r2 r3 r4 r5)"
  unfolding h_log_def
  by (auto simp: says_def Let_def intro!: res_inv_text res_inv_ctx split: prod.splits) (metis snd_conv)+

lemma says_helper:
  assumes "(name, f) \<in> set HELPERS"
  shows "res_inv (says (to_vec e) w) (f e w r1 r2 r3 r4 r5)"
proof -
  have "list_all (\<lambda>(n, f). res_inv (says (to_vec e) w) (f e w r1 r2 r3 r4 r5))
      (HELPERS :: (string \<times> 'a helper) list)"
    unfolding HELPERS_def list.pred_inject prod.case
    by (intro conjI list.pred_inject(1) says_log; unfold helper_defs h_set_def h_push_def)
      (auto simp: Let_def wait_for_def replace_handle_def intro!: res_inv_text res_inv_ctx
        split: option.splits sum.splits handle.splits json.splits)
  with assms show ?thesis by (auto simp: list_all_iff)
qed

lemma says_complete:
  "res_inv (says enc w) (complete_sleep w)" "res_inv (says enc w) (complete_yield w)"
  "res_inv (says enc w) (complete_event v w)" "res_inv (says enc w) (complete_call x w)"
proof -
  have wait: "says enc w = says enc (wait_over w)"
    by (simp add: fun_eq_iff says_def wait_over_def)
  show "res_inv (says enc w) (complete_sleep w)" "res_inv (says enc w) (complete_yield w)"
    by (simp_all add: complete_sleep_def complete_yield_def wait_over_def)
  show "res_inv (says enc w) (complete_event v w)" "res_inv (says enc w) (complete_call x w)"
    unfolding complete_event_def complete_call_def Let_def wait
    by (auto intro!: res_inv_ctx split: option.splits sum.splits)
qed

text \<open>The only helper that posts a host call has looked at the capabilities.\<close>

definition granted :: "guest \<Rightarrow> task option \<Rightarrow> bool" where
  "granted c t \<longleftrightarrow>
     (\<forall>obj cap args ms. t = Some (CallTask obj cap args ms) \<longrightarrow>
        obj = gid c \<and> (\<exists>g \<in> set (capabilities c). grants g cap args))"

definition posts_ok :: "guest \<Rightarrow> 'm hres \<Rightarrow> bool" where
  "posts_ok c res \<longleftrightarrow> (\<forall>t w. res = Post t w \<longrightarrow> granted c (Some t))"

lemma posts_simps [simp]:
  "posts_ok c Fault" "posts_ok c (Ret v w)" "posts_ok c (insert_handle h c' w)"
  "posts_ok c (Post (SleepTask ms) w)" "posts_ok c (Post YieldTask w)" "posts_ok c (Post (EventTask ms) w)"
  "granted c None"
  by (simp_all add: posts_ok_def granted_def insert_handle_def)

lemma posts_ctx: "(\<And>d. wguest w = Some d \<Longrightarrow> posts_ok c (f d)) \<Longrightarrow> posts_ok c (ctx w f)"
  by (simp add: ctx_def split: option.splits)

lemma posts_text: "(\<And>s. posts_ok c (f s)) \<Longrightarrow> posts_ok c (with_text e w p n f)"
  by (simp add: with_text_def split: option.splits)

lemma posts_call: "wguest w = Some c \<Longrightarrow> posts_ok c (h_call e w r1 r2 r3 r4 r5)"
  unfolding h_call_def
  by (rule posts_text, rule posts_ctx)
    (auto simp: posts_ok_def granted_def list_ex_iff split: option.splits)

lemma posts_helper:
  assumes "(name, f) \<in> set HELPERS" and c: "wguest w = Some c"
  shows "posts_ok c (f e w r1 r2 r3 r4 r5)"
proof -
  have "list_all (\<lambda>(n, f). posts_ok c (f e w r1 r2 r3 r4 r5))
      (HELPERS :: (string \<times> 'a helper) list)"
    unfolding HELPERS_def list.pred_inject prod.case
    by (intro conjI list.pred_inject(1) posts_call [OF c];
        unfold h_sleep_def h_yield_def h_mono_def h_unix_def h_config_def h_drop_def h_event_def
          h_parse_def h_get_def h_at_def h_kind_def h_i64_def h_bool_def h_string_read_def
          h_equals_def h_object_def h_array_def h_null_def h_string_def h_number_def h_boolean_def
          h_dump_def h_bytes_def h_len_def h_read_def h_memcpy_def h_memset_def h_memcmp_def
          h_set_def h_push_def h_log_def)
      (auto simp: Let_def intro!: posts_text posts_ctx
        split: option.splits sum.splits handle.splits json.splits prod.splits)
  with assms show ?thesis by (auto simp: list_all_iff)
qed

lemma posts_complete:
  "posts_ok c (complete_sleep w)" "posts_ok c (complete_yield w)"
  "posts_ok c (complete_event v w)" "posts_ok c (complete_call x w)"
  unfolding complete_sleep_def complete_yield_def complete_event_def complete_call_def
  by (auto simp: Let_def intro!: posts_ctx split: option.splits sum.splits)

section \<open>What steps of the runtime keep\<close>

text \<open>
  No object disappears from the heap or changes its capabilities, and only \<open>HBegin\<close> makes a
  call.
\<close>

definition calls_from :: "world \<Rightarrow> world \<Rightarrow> bool" where
  "calls_from w w' \<longleftrightarrow>
     (\<forall>j c'. map_of (wcalls w') j = Some c' \<longrightarrow>
        (\<exists>c. map_of (wcalls w) j = Some c \<and> cobject c' = cobject c \<and> crequest c' = crequest c))"

definition keeps_caps :: "'p runtime \<Rightarrow> 'p runtime \<Rightarrow> bool" where
  "keeps_caps r r' \<longleftrightarrow>
     (\<forall>i ob. heap r i = Some ob \<longrightarrow> (\<exists>ob'. heap r' i = Some ob' \<and> ob_caps ob' = ob_caps ob))"

lemma calls_from_refl [simp]: "wcalls w' = wcalls w \<Longrightarrow> calls_from w w'"
  by (simp add: calls_from_def)

lemma calls_from_trans: "calls_from u v \<Longrightarrow> calls_from v w \<Longrightarrow> calls_from u w"
  unfolding calls_from_def by metis

lemma keeps_caps_refl [simp]: "heap r' = heap r \<Longrightarrow> keeps_caps r r'"
  by (simp add: keeps_caps_def)

lemma keeps_caps_trans: "keeps_caps r t \<Longrightarrow> keeps_caps t u \<Longrightarrow> keeps_caps r u"
  unfolding keeps_caps_def by metis

lemma keeps_caps_put:
  "heap r i = Some ob \<Longrightarrow> ob_caps ob' = ob_caps ob \<Longrightarrow> heap r' = (heap r)(i \<mapsto> ob') \<Longrightarrow> keeps_caps r r'"
  by (auto simp: keeps_caps_def)

lemma keeps_caps_upd [simp]:
  "heap r i = Some ob \<Longrightarrow> ob_caps ob' = ob_caps ob \<Longrightarrow> keeps_caps r (put i ob' r)"
  "heap r i = Some ob \<Longrightarrow> ob_caps ob' = ob_caps ob \<Longrightarrow> keeps_caps r (r\<lparr>rworld := w, heap := (heap r)(i \<mapsto> ob')\<rparr>)"
  by (auto simp: keeps_caps_def)

lemma call_poll_same:
  "call_poll enc due c h q = (call_state.Running c', h', q') \<Longrightarrow> cobject c' = cobject c \<and> crequest c' = crequest c"
  by (auto simp: call_poll_def call_await_def call_end_def Let_def split: poll.splits sum.splits if_splits
      option.splits prod.splits)

lemma calls_host:
  assumes "\<nexists>obj cap args ms now. op = HBegin obj cap args ms now"
  shows "calls_from w (host_exec enc op w)"
proof (cases op)
  case (HPoll i due)
  show ?thesis
  proof (cases "map_of (wcalls w) i")
    case (Some c)
    obtain st h q where p: "call_poll enc due c (whost w) (wout w) = (st, h, q)"
      by (cases "call_poll enc due c (whost w) (wout w)")
    with HPoll Some show ?thesis
      by (cases st) (auto simp: calls_from_def dest: call_poll_same)
  qed (use HPoll in simp)
next
  case (HDrop i)
  then show ?thesis by (simp add: calls_from_def wcalls_drop del: host_exec.simps)
qed (use assms in \<open>auto split: prod.split\<close>)

lemma calls_end_world: "calls_from w (end_world enc i v w)"
proof -
  have "calls_from w (drop_run enc i w)"
    by (simp add: calls_from_def drop_run_def wcalls_drops)
  then show ?thesis
    unfolding end_world_def by (intro calls_from_trans [OF _ calls_host]) auto
qed

lemma ended_caps [simp]: "ob_caps (ended_object x ob) = ob_caps ob" "ob_caps (task_started ob) = ob_caps ob"
  by (simp_all add: ended_object_def task_started_def split: option.split run_result.split)

lemma keeps_task:
  "keeps_caps r (task_poll enc i res r) \<and> calls_from (rworld r) (rworld (task_poll enc i res r))"
proof (cases "heap r i")
  case (Some ob)
  have "keeps_caps r (task_end enc i x (task_started ob) r) \<and>
      calls_from (rworld r) (rworld (task_end enc i x (task_started ob) r))" for x
    using task_end_eq [of enc i x "task_started ob" r] calls_end_world Some by auto
  moreover have "keeps_caps r (put i (task_started ob) r)"
    by (rule keeps_caps_put [OF Some]) simp_all
  ultimately show ?thesis
    using Some by (auto simp: task_poll_def Let_def split: run_result.split)
qed (simp add: task_poll_def)

lemma keeps_stop_poll:
  "keeps_caps r (snd (object_stop_poll i r)) \<and> rworld (snd (object_stop_poll i r)) = rworld r"
  by (auto simp: object_stop_poll_def Let_def split: option.split)

lemma keeps_runtime_stop:
  "keeps_caps r (snd (runtime_stop_poll enc i u r)) \<and>
   calls_from (rworld r) (rworld (snd (runtime_stop_poll enc i u r)))"
proof -
  obtain d r1 where s: "object_stop_poll i r = (d, r1)" by fastforce
  have "calls_from w (host_exec enc (HOut (OpRemoveObject i)) (host_exec enc (HCancel i) w))" for w
    by (intro calls_from_trans [OF calls_host calls_host]) auto
  moreover have "keeps_caps r (r1\<lparr>rworld := w\<rparr>)" "keeps_caps r (r1\<lparr>rworld := w, registered := x\<rparr>)" for w x
    using keeps_stop_poll [of r i] s by (auto simp: keeps_caps_def)
  ultimately show ?thesis
    using s keeps_stop_poll [of r i]
    by (cases d) (simp_all add: runtime_stop_poll_def Let_def del: host_exec.simps)
qed

lemma keeps_shutdown_poll:
  "keeps_caps r (snd (shutdown_poll ids r)) \<and> rworld (snd (shutdown_poll ids r)) = rworld r"
proof (induction ids r rule: shutdown_poll.induct)
  case (2 i ids r)
  obtain d r1 where s: "object_stop_poll i r = (d, r1)" by fastforce
  with keeps_stop_poll [of r i] 2 show ?case
    by (cases d) (auto intro: keeps_caps_trans)
qed simp

lemma keeps_load:
  assumes "rt_inv enc r" "k < length (loading r)"
  shows "keeps_caps r (snd (load_finish e k r)) \<and> rworld (snd (load_finish e k r)) = rworld r"
proof -
  have "heap r (object_id (fst (loading r ! k))) = None"
    by (rule load_finish_fresh [OF assms])
  then show ?thesis
    by (auto simp: load_finish_def load_remove_def Let_def keeps_caps_def split: prod.split sum.split)
qed

lemma keeps_act:
  assumes "\<nexists>cap args ms now. a = GCall cap args ms now"
  shows "keeps_caps r (guest_acts enc i a r) \<and> calls_from (rworld r) (rworld (guest_acts enc i a r))"
proof -
  have "calls_from w (act_world enc i a w)" for w
    using assms by (cases a)
      (auto simp: act_world_def simp del: host_exec.simps intro!: calls_host split: option.split)
  moreover have "ob_caps (act_object a ob) = ob_caps ob" for ob :: "'a object"
    by (cases a) (simp_all add: act_object_def)
  ultimately show ?thesis
    by (auto simp: guest_acts_def split: option.split)
qed

lemma keeps_exec:
  assumes inv: "rt_inv enc r" and op: "\<nexists>i a. op = Act i a"
  shows "keeps_caps r (rt_exec e enc op r) \<and> calls_from (rworld r) (rworld (rt_exec e enc op r))"
proof (cases op)
  case (LoadBegin elf config caps)
  then show ?thesis by (simp add: load_begin_def split: option.split)
next
  case (LoadFinish k)
  with keeps_load [OF inv, of k e] show ?thesis by simp
next
  case (LoadAbort k)
  then show ?thesis by (simp add: load_remove_def)
next
  case (DeliverEvent i v)
  then show ?thesis
    by (auto simp: runtime_deliver_def object_deliver_def dest!: runtime_getD
        split: sum.split prod.split)
next
  case (Start i)
  then show ?thesis
    by (auto simp: runtime_start_def Let_def dest!: runtime_getD
        split: sum.split option.split)
next
  case (Poll i res)
  with keeps_task show ?thesis by simp
next
  case (Stop i u)
  with keeps_runtime_stop [of r enc i u] show ?thesis by (simp add: runtime_stop_def split: sum.split)
next
  case (StopPoll i u)
  with keeps_runtime_stop show ?thesis by simp
next
  case ShutdownBegin
  then show ?thesis by (auto simp: shutdown_begin_def keeps_caps_def)
next
  case (ShutdownPoll ids)
  with keeps_shutdown_poll [of r ids] show ?thesis by simp
next
  case (Router x)
  have "router_op x \<Longrightarrow> calls_from (rworld r) (host_exec enc x (rworld r))"
    by (rule calls_host) auto
  with Router show ?thesis by (simp del: host_exec.simps)
qed (use op in simp)

section \<open>The invariant\<close>

definition call_granted :: "'p runtime \<Rightarrow> call \<Rightarrow> bool" where
  "call_granted r c \<longleftrightarrow>
     (\<exists>ob g cap args j ms now. heap r (cobject c) = Some ob \<and> g \<in> set (ob_caps ob) \<and>
        grants g cap args \<and> crequest c = call_request j (cobject c) cap args ms now)"

definition cell_ok :: "'p runtime \<Rightarrow> u64 \<Rightarrow> string \<Rightarrow> 'm cell \<Rightarrow> bool" where
  "cell_ok r n i cl \<longleftrightarrow>
     gid (cl_guest cl) = i \<and> guest_ok (cl_guest cl) n \<and> granted (cl_guest cl) (cl_task cl) \<and>
     (\<exists>ob. heap r i = Some ob \<and> ob_caps ob = capabilities (cl_guest cl))"

definition gr_ok :: "encoder \<Rightarrow> ('p, 'm) guests \<Rightarrow> bool" where
  "gr_ok enc s \<longleftrightarrow>
     rt_inv enc (gr_runtime s) \<and> 0 < gr_next s \<and> gr_next s \<le> I64_MAX \<and>
     (\<forall>i cl. gr_cells s i = Some cl \<longrightarrow> cell_ok (gr_runtime s) (gr_next s) i cl) \<and>
     (\<forall>j c. map_of (wcalls (rworld (gr_runtime s))) j = Some c \<longrightarrow> call_granted (gr_runtime s) c)"

lemma cell_ok_keeps: "keeps_caps r r' \<Longrightarrow> cell_ok r n i cl \<Longrightarrow> cell_ok r' n i cl"
  unfolding keeps_caps_def cell_ok_def by metis

lemma call_granted_keeps:
  "keeps_caps r r' \<Longrightarrow> call_granted r c \<Longrightarrow> cobject c' = cobject c \<Longrightarrow> crequest c' = crequest c \<Longrightarrow>
   call_granted r' c'"
  unfolding keeps_caps_def call_granted_def by metis

lemma gr_ok_runtime:
  assumes ok: "gr_ok enc s" and r: "rt_inv enc r" "keeps_caps (gr_runtime s) r"
    "calls_from (rworld (gr_runtime s)) (rworld r)"
  shows "gr_ok enc (s\<lparr>gr_runtime := r\<rparr>)"
proof -
  have "call_granted r c'" if c': "map_of (wcalls (rworld r)) j = Some c'" for j c'
  proof -
    from r(3) c' obtain c where c: "map_of (wcalls (rworld (gr_runtime s))) j = Some c"
      "cobject c' = cobject c" "crequest c' = crequest c"
      unfolding calls_from_def by blast
    with ok have "call_granted (gr_runtime s) c" by (simp add: gr_ok_def)
    from call_granted_keeps [OF r(2) this c(2,3)] show ?thesis .
  qed
  moreover have "cell_ok r (gr_next s) i cl" if "gr_cells s i = Some cl" for i cl
    using that ok by (intro cell_ok_keeps [OF r(2)]) (simp add: gr_ok_def)
  ultimately show ?thesis using ok r(1) by (simp add: gr_ok_def)
qed

lemma runningD: "running i r = Some ob \<Longrightarrow> heap r i = Some ob \<and> ob_phase ob = Active \<and> \<not> ob_cancel ob"
  by (auto simp: running_def split: option.splits if_splits)

text \<open>
  A step of a guest is a sequence of operations of the runtime: polls of tasks and the actions
  of programs.
\<close>

fun task_op :: "rt_op \<Rightarrow> bool" where
  "task_op (Act i a) = True"
| "task_op (Poll i res) = True"
| "task_op op = False"

definition refines :: "'p engine \<Rightarrow> encoder \<Rightarrow> 'p runtime \<Rightarrow> 'p runtime \<Rightarrow> bool" where
  "refines eng enc r r' \<longleftrightarrow> (\<exists>ops. list_all task_op ops \<and> r' = fold (rt_exec eng enc) ops r)"

lemma refines_refl [simp]: "refines eng enc r r"
  unfolding refines_def by (rule exI [of _ "[]"]) simp

lemma refines_trans: "refines eng enc r t \<Longrightarrow> refines eng enc t u \<Longrightarrow> refines eng enc r u"
  unfolding refines_def by (metis fold_append o_apply list_all_append)

lemma refines_exec: "task_op op \<Longrightarrow> refines eng enc r (rt_exec eng enc op r)"
  unfolding refines_def by (rule exI [of _ "[op]"]) simp

lemma refines_act [simp]: "refines eng enc r (guest_acts enc i a r)"
  using refines_exec [of "Act i a" eng enc r] by simp

section \<open>Helpers keep it\<close>

lemma helper_outbox:
  assumes "running i r = Some ob" "gid (cl_guest cl) = i" "says enc (helper_world cl ob s) w" "r = gr_runtime s"
  shows "\<exists>acts. put i (ob\<lparr>ob_wait := x\<rparr>) (r\<lparr>rworld := (rworld r)\<lparr>wout := hout w\<rparr>\<rparr>) =
      fold (guest_acts enc i) acts r \<and> (\<forall>a \<in> set acts. \<nexists>cap args ms now. a = GCall cap args ms now)"
proof -
  note run = runningD [OF assms(1)]
  have wait: "guest_acts enc i (GWait x) r' = put i (ob\<lparr>ob_wait := x\<rparr>) r'" if "heap r' i = Some ob" for r'
    using run that by (simp add: guest_acts_def act_object_def act_world_def)
  from assms(3,4) consider "hout w = wout (rworld r)"
    | m where "hout w = snd (try_data enc i (log_frame i m) (wout (rworld r)))"
    using assms(2) by (auto simp: says_def helper_world_def)
  then show ?thesis
  proof cases
    case 1
    with wait [of r] run show ?thesis by (intro exI [of _ "[GWait x]"]) simp
  next
    case (2 m)
    have "request_id_of (log_frame i m) = None"
      by (simp add: request_id_of_def log_frame_def vget_jobj)
    with 2 run have "guest_acts enc i (GLog (log_frame i m)) r =
        put i ob (r\<lparr>rworld := (rworld r)\<lparr>wout := hout w\<rparr>\<rparr>)"
      by (simp add: guest_acts_def act_object_def act_world_def)
    with wait [of "put i ob (r\<lparr>rworld := (rworld r)\<lparr>wout := hout w\<rparr>\<rparr>)"] show ?thesis
      by (intro exI [of _ "[GLog (log_frame i m), GWait x]"]) simp
  qed
qed

lemma acts_ok:
  assumes "gr_ok enc s" "\<forall>a \<in> set acts. \<nexists>cap args ms now. a = GCall cap args ms now"
  shows "gr_ok enc (s\<lparr>gr_runtime := fold (guest_acts enc i) acts (gr_runtime s)\<rparr>) \<and>
    refines eng enc (gr_runtime s) (fold (guest_acts enc i) acts (gr_runtime s))"
  using assms
proof (induction acts arbitrary: s)
  case (Cons a acts)
  let ?r = "gr_runtime s"
  have "rt_inv enc ?r" using Cons.prems(1) by (simp add: gr_ok_def)
  from act_inv [OF this] keeps_act [of a ?r enc i] Cons.prems
  have "gr_ok enc (s\<lparr>gr_runtime := guest_acts enc i a ?r\<rparr>)"
    by (intro gr_ok_runtime) auto
  from Cons.IH [OF this] Cons.prems(2) show ?case
    by (auto intro: refines_trans [OF refines_act])
qed simp

lemma settle_ok:
  assumes ok: "gr_ok enc s" and run: "running i (gr_runtime s) = Some ob" and cl: "gr_cells s i = Some cl"
    and res: "res_inv (says enc (helper_world cl ob s)) res" "res_inv (grows (helper_world cl ob s)) res"
      "posts_ok (cl_guest cl) res"
  shows "gr_ok enc (settle i ob cl res s) \<and> refines eng enc (gr_runtime s) (gr_runtime (settle i ob cl res s))"
proof -
  let ?w0 = "helper_world cl ob s" and ?r = "gr_runtime s"
  have cell: "cell_ok ?r (gr_next s) i cl" using ok cl by (simp add: gr_ok_def)
  have "outbox_inv (wout (rworld ?r))" using ok by (simp add: gr_ok_def rt_inv_def host_inv_def)
  with ok cell have g0: "guest_inv ?w0"
    by (simp add: guest_inv_def helper_world_def gr_ok_def cell_ok_def)
  have wb: "gr_ok enc (write_back i ob cl t w s) \<and>
      refines eng enc ?r (gr_runtime (write_back i ob cl t w s))"
    if w: "says enc ?w0 w" "grows ?w0 w" and t: "granted (cl_guest cl) t" for t w
  proof -
    from w(2) g0 obtain c where c: "wguest w = Some c" "gid c = gid (cl_guest cl)"
      "capabilities c = capabilities (cl_guest cl)" and n: "gr_next s \<le> next_handle w" "guest_inv w"
      by (auto simp: grows_def helper_world_def option_rel_Some1)
    obtain acts where ac: "put i (ob\<lparr>ob_wait := hwait w\<rparr>) (?r\<lparr>rworld := (rworld ?r)\<lparr>wout := hout w\<rparr>\<rparr>) =
        fold (guest_acts enc i) acts ?r" "\<forall>a \<in> set acts. \<nexists>cap args ms now. a = GCall cap args ms now"
      using helper_outbox [OF run _ w(1) refl, of "hwait w"] cell by (auto simp: cell_ok_def)
    let ?s = "s\<lparr>gr_runtime := fold (guest_acts enc i) acts ?r\<rparr>"
    have s: "gr_ok enc ?s" "refines eng enc ?r (gr_runtime ?s)"
      using acts_ok [OF ok ac(2), of i eng] by simp_all
    have guest: "guest_ok c (next_handle w)" "0 < next_handle w" "next_handle w \<le> I64_MAX"
      using n(2) c(1) by (simp_all add: guest_inv_def)
    have new: "cell_ok (gr_runtime ?s) (next_handle w) i
        \<lparr>cl_guest = c, cl_mem = mem w, cl_task = t, cl_call = None\<rparr>"
      using s(1) cl c guest(1) t by (auto simp: gr_ok_def cell_ok_def granted_def)
    have old: "cell_ok (gr_runtime ?s) (next_handle w) j cl'" if "gr_cells s j = Some cl'" for j cl'
      using s(1) that n(1) by (auto simp: gr_ok_def cell_ok_def intro: guest_ok_mono)
    have "write_back i ob cl t w s = ?s\<lparr>gr_cells := (gr_cells s)(i \<mapsto>
        \<lparr>cl_guest = c, cl_mem = mem w, cl_task = t, cl_call = None\<rparr>), gr_next := next_handle w\<rparr>"
      by (simp add: write_back_def c(1) ac(1) [symmetric])
    with s new old guest show ?thesis by (auto simp: gr_ok_def)
  qed
  show ?thesis
  proof (cases res)
    case Fault
    with ok show ?thesis by (auto simp: settle_def gr_ok_def)
  next
    case (Ret v w)
    with res wb [of w None] show ?thesis by (simp add: settle_def)
  next
    case (Post t w)
    with res wb [of w "Some t"] show ?thesis by (simp add: settle_def posts_ok_def)
  qed
qed

section \<open>Every step keeps it\<close>

abbreviation step_ok :: "'p engine \<Rightarrow> encoder \<Rightarrow> ('p, 'm) guests \<Rightarrow> ('p, 'm) guests \<Rightarrow> bool" where
  "step_ok eng enc s s' \<equiv> gr_ok enc s' \<and> refines eng enc (gr_runtime s) (gr_runtime s')"

lemma step_ok_trans: "step_ok eng enc s t \<Longrightarrow> step_ok eng enc t u \<Longrightarrow> step_ok eng enc s u"
  by (blast intro: refines_trans)

lemma resume_ok:
  assumes "gr_ok enc s" "\<And>w. res_inv (says enc w) (f w)" "\<And>w. res_inv (grows w) (f w)"
    "\<And>c w. posts_ok c (f w)"
  shows "step_ok eng enc s (resume i f s)"
proof (cases "running i (gr_runtime s)")
  case (Some ob)
  show ?thesis
  proof (cases "gr_cells s i")
    case cl: (Some cl)
    from settle_ok [OF assms(1) Some cl assms(2,3,4)] Some cl show ?thesis by (simp add: resume_def)
  qed (use Some assms(1) in \<open>simp add: resume_def\<close>)
qed (use assms(1) in \<open>simp add: resume_def\<close>)

lemma completions:
  assumes "gr_ok enc s"
  shows "step_ok eng enc s (resume i complete_sleep s)" "step_ok eng enc s (resume i complete_yield s)"
    "step_ok eng enc s (resume i (complete_event v) s)" "step_ok eng enc s (resume i (complete_call x) s)"
  by (intro resume_ok assms says_complete grows_complete posts_complete)+

lemma with_act_ok:
  assumes "gr_ok enc s" "\<nexists>cap args ms now. a = GCall cap args ms now"
  shows "step_ok eng enc s (with_act enc i a s)"
  using acts_ok [OF assms(1), of "[a]" i eng] assms(2) by (simp add: with_act_def)

lemma helper_call_ok:
  fixes e :: "'m env" and s :: "('p, 'm) guests"
  assumes ok: "gr_ok (to_vec e) s"
  shows "step_ok eng (to_vec e) s (helper_call e i k a1 a2 a3 a4 a5 s)"
proof (cases "running i (gr_runtime s)")
  case (Some ob)
  show ?thesis
  proof (cases "gr_cells s i")
    case cl: (Some cl)
    show ?thesis
    proof (cases "cl_task cl = None \<and> k < length (HELPERS :: (string \<times> 'm helper) list)")
      case True
      obtain n h where h: "(HELPERS ! k :: string \<times> 'm helper) = (n, h)" by fastforce
      with True nth_mem [of k "HELPERS :: (string \<times> 'm helper) list"]
      have f: "(n, h) \<in> set (HELPERS :: (string \<times> 'm helper) list)" by simp
      have "wguest (helper_world cl ob s) = Some (cl_guest cl)" by (simp add: helper_world_def)
      from settle_ok [OF ok Some cl says_helper [OF f] grows_helper [OF f] posts_helper [OF f this]]
      show ?thesis using Some cl True h by (simp add: helper_call_def)
    qed (use Some cl ok in \<open>auto simp: helper_call_def\<close>)
  qed (use Some ok in \<open>simp add: helper_call_def\<close>)
qed (use ok in \<open>simp add: helper_call_def\<close>)

text \<open>The call a granted future makes.\<close>

lemma begin_granted:
  assumes ok: "gr_ok enc s" and cl: "gr_cells s i = Some cl" "cl_task cl = Some (CallTask obj cap args ms)"
  shows "step_ok eng enc s (with_act enc i (GCall cap args ms now) s)" and "obj = i"
proof -
  let ?r = "gr_runtime s"
  let ?r' = "guest_acts enc i (GCall cap args ms now) ?r"
  have cell: "cell_ok ?r (gr_next s) i cl" using ok cl(1) by (simp add: gr_ok_def)
  then obtain ob g where ob: "heap ?r i = Some ob" "g \<in> set (ob_caps ob)" "grants g cap args"
    using cl(2) by (auto simp: cell_ok_def granted_def)
  show "obj = i" using cell cl(2) by (simp add: cell_ok_def granted_def)
  have heap: "heap ?r' = heap ?r"
    using ob(1) by (auto simp: guest_acts_def act_object_def)
  have "call_granted ?r' c" if c: "map_of (wcalls (rworld ?r')) j = Some c" for j c
  proof -
    have "map_of (wcalls (rworld ?r)) j = Some c \<or>
        cobject c = i \<and> (\<exists>n. crequest c = call_request n i cap args ms now)"
      using c ob(1)
      by (auto simp: guest_acts_def act_world_def call_begin_def Let_def
          split: if_splits sum.splits prod.splits option.splits)
    then show ?thesis
    proof
      assume "map_of (wcalls (rworld ?r)) j = Some c"
      with ok have "call_granted ?r c" by (simp add: gr_ok_def)
      with heap show ?thesis by (simp add: call_granted_def)
    next
      assume "cobject c = i \<and> (\<exists>n. crequest c = call_request n i cap args ms now)"
      with heap ob show ?thesis unfolding call_granted_def by metis
    qed
  qed
  moreover have "rt_inv enc ?r'" using ok by (intro act_inv) (simp add: gr_ok_def)
  ultimately show "step_ok eng enc s (with_act enc i (GCall cap args ms now) s)"
    using ok heap by (simp add: with_act_def gr_ok_def cell_ok_def)
qed

lemma gr_ok_calling:
  assumes "gr_ok enc s" "gr_cells s i = Some cl"
  shows "gr_ok enc (s\<lparr>gr_cells := (gr_cells s)(i \<mapsto> cl\<lparr>cl_call := x\<rparr>)\<rparr>)"
    and "gr_ok enc (s\<lparr>gr_cells := (gr_cells s)(i \<mapsto> cl\<lparr>cl_mem := m\<rparr>)\<rparr>)"
  using assms by (auto simp: gr_ok_def cell_ok_def)

lemma drive_ok:
  assumes ok: "gr_ok enc s"
  shows "step_ok eng enc s (drive enc i due now s)"
proof (cases "running i (gr_runtime s)")
  case (Some ob)
  show ?thesis
  proof (cases "gr_cells s i")
    case cl: (Some cl)
    show ?thesis
    proof (cases "cl_task cl")
      case None
      with Some cl ok show ?thesis by (simp add: drive_def)
    next
      case (Some t)
      note run = \<open>running i (gr_runtime s) = Some ob\<close>
      show ?thesis
      proof (cases t)
        case (SleepTask ms)
        with run cl Some ok completions(1) [OF ok] show ?thesis by (simp add: drive_def)
      next
        case YieldTask
        with run cl Some completions(2) [OF ok] show ?thesis by (simp add: drive_def)
      next
        case (EventTask ms)
        have "step_ok eng enc s (with_act enc i GReceive s)" by (rule with_act_ok [OF ok]) simp
        from step_ok_trans [OF this completions(3)] this
        have "step_ok eng enc s (resume i (complete_event v) (with_act enc i GReceive s))" for v by blast
        with run cl Some EventTask ok completions(3) [OF ok] show ?thesis
          by (simp add: drive_def poll_event_def split: option.split)
      next
        case (CallTask obj cap args ms)
        show ?thesis
        proof (cases "cl_call cl")
          case None
          note granted = begin_granted [OF ok cl Some [unfolded CallTask]]
          let ?s = "with_act enc i (GCall cap args ms now) s"
          have s: "step_ok eng enc s ?s" by (rule granted)
          from step_ok_trans [OF this completions(4)] this
          have "step_ok eng enc s (resume i (complete_call x) ?s)" for x by blast
          moreover have "gr_ok enc (?s\<lparr>gr_cells := (gr_cells s)(i \<mapsto> cl\<lparr>cl_call := x\<rparr>)\<rparr>)" for x
            using gr_ok_calling(1) [of enc ?s i cl x] s cl by (simp add: with_act_def)
          ultimately show ?thesis
            using run cl Some CallTask None s
            by (simp add: drive_def begin_call_def Let_def split: sum.split)
        next
          case (Some j)
          let ?s = "with_act enc i (GPollCall j due) s"
          have s: "step_ok eng enc s ?s" by (rule with_act_ok [OF ok]) simp
          from step_ok_trans [OF this completions(4)] this
          have "step_ok eng enc s (resume i (complete_call x) ?s)" for x by blast
          with run cl \<open>cl_task cl = Some t\<close> CallTask Some s ok show ?thesis
            by (simp add: drive_def continue_call_def Let_def split: option.split call_state.split)
        qed
      qed
    qed
  qed (use Some ok in \<open>simp add: drive_def\<close>)
qed (use ok in \<open>simp add: drive_def\<close>)

lemma enter_ok:
  assumes ok: "gr_ok enc s"
  shows "step_ok eng enc s (enter enc i m now s)"
proof (cases "\<exists>ob. heap (gr_runtime s) i = Some ob \<and> ob_phase ob = Spawned")
  case True
  then obtain ob where ob: "heap (gr_runtime s) i = Some ob" "ob_phase ob = Spawned" by blast
  let ?r = "task_poll enc i RunMore (gr_runtime s)"
  have inv: "rt_inv enc (gr_runtime s)" using ok by (simp add: gr_ok_def)
  have keeps: "keeps_caps (gr_runtime s) ?r" "calls_from (rworld (gr_runtime s)) (rworld ?r)"
    using keeps_task [of "gr_runtime s" enc i RunMore] by simp_all
  from gr_ok_runtime [OF ok task_poll_inv [OF inv] keeps]
  have s: "gr_ok enc (s\<lparr>gr_runtime := ?r\<rparr>)" .
  have "ob_id ob = i" using rt_inv_objectD [OF inv ob(1)] by (simp add: object_ok_def)
  moreover obtain ob' where "heap ?r i = Some ob'" "ob_caps ob' = ob_caps ob"
    using keeps(1) ob(1) unfolding keeps_caps_def by blast
  ultimately have "cell_ok ?r (gr_next s) i
      \<lparr>cl_guest = guest_new (ob_id ob) (ob_config ob) (ob_caps ob) now, cl_mem = m, cl_task = None,
       cl_call = None\<rparr>"
    by (simp add: cell_ok_def guest_new_def guest_ok_def)
  with s ob refines_exec [of "Poll i RunMore" eng enc "gr_runtime s"] show ?thesis
    by (auto simp: enter_def gr_ok_def)
qed (use ok in \<open>auto simp: enter_def split: option.split\<close>)

fun guest_op :: "'m gr_op \<Rightarrow> bool" where
  "guest_op (Outer op) = False"
| "guest_op op = True"

lemma guest_step:
  assumes ok: "gr_ok (to_vec e) s" and op: "guest_op op"
  shows "step_ok eng (to_vec e) s (gr_exec eng e op s)"
proof (cases op)
  case (Enter i m now)
  with enter_ok [OF ok] show ?thesis by simp
next
  case (Help i k a1 a2 a3 a4 a5 now)
  with helper_call_ok [where e = "e\<lparr>now_ns := now\<rparr>" and s = s and eng = eng] ok show ?thesis by simp
next
  case (Store i m)
  with ok gr_ok_calling(2) [OF ok] show ?thesis by (auto split: option.split)
next
  case (Drive i due now)
  with drive_ok [OF ok] show ?thesis by simp
qed (use op in simp)

lemma gr_ok_exec:
  assumes ok: "gr_ok (to_vec e) s"
  shows "gr_ok (to_vec e) (gr_exec eng e op s)"
proof (cases "guest_op op")
  case True
  from guest_step [OF ok this] show ?thesis by blast
next
  case False
  then obtain x where x: "op = Outer x" by (cases op) simp_all
  have inv: "rt_inv (to_vec e) (gr_runtime s)" using ok by (simp add: gr_ok_def)
  show ?thesis
  proof (cases "\<exists>i a. x = Act i a")
    case False
    from gr_ok_runtime [OF ok rt_inv_exec [OF inv]] keeps_exec [OF inv False]
    have "gr_ok (to_vec e) (s\<lparr>gr_runtime := rt_exec eng (to_vec e) x (gr_runtime s)\<rparr>)" by blast
    with False x show ?thesis by (cases x) (simp_all del: rt_exec.simps)
  qed (use x ok in auto)
qed

lemma gr_view_exec:
  assumes ok: "gr_ok (to_vec e) s"
  shows "\<exists>ops. gr_runtime (gr_exec eng e op s) = fold (rt_exec eng (to_vec e)) ops (gr_runtime s)"
proof (cases "guest_op op")
  case True
  from guest_step [OF ok this] show ?thesis unfolding refines_def by blast
next
  case False
  then obtain x where x: "op = Outer x" by (cases op) simp_all
  show ?thesis
  proof (cases "\<exists>i a. x = Act i a")
    case True
    with x show ?thesis by (intro exI [of _ "[]"]) auto
  next
    case False
    with x show ?thesis by (intro exI [of _ "[x]"]) (cases x; simp del: rt_exec.simps)
  qed
qed

lemma gr_ok_new: "gr_ok enc (guests_new s)"
  by (simp add: gr_ok_def guests_new_def rt_inv_new I64_MAX_def) (simp add: runtime_new_def world_new_def)

interpretation gr: machine "\<lambda>s. s = guests_new p" "gr_exec eng e" "gr_ok (to_vec e)" for p eng e
  by unfold_locales (simp_all only: gr_ok_new gr_ok_exec)

interpretation grr: refining "\<lambda>s. s = guests_new p" "gr_exec eng e" "gr_ok (to_vec e)"
  "\<lambda>r. r = runtime_new p" "rt_exec eng (to_vec e)" "rt_inv (to_vec e)" gr_runtime for p eng e
  by unfold_locales (use gr_view_exec in \<open>auto simp: guests_new_def rt_inv_new intro: rt_inv_exec\<close>)

abbreviation grun :: "'p engine \<Rightarrow> 'm env \<Rightarrow> string \<Rightarrow> 'm gr_op list \<Rightarrow> ('p, 'm) guests" where
  "grun eng e p ops \<equiv> fold (gr_exec eng e) ops (guests_new p)"

section \<open>Properties\<close>

text \<open>
  the runtime with the real helpers refines the runtime with its abstract guest actions.
  In every run in which guests call helpers, and their posted futures are polled, the runtime
  goes only through states it reaches by its own operations; so what holds in all of these
  holds with guests.
\<close>

lemma guests_refine_runtime:
  "\<exists>rops. gr_runtime (grun eng e p ops) = fold (rt_exec eng (to_vec e)) rops (runtime_new p)"
  using grr.view_reach [OF refl, of eng e ops p] by (simp add: guests_new_def)

text \<open>
  every host call is within the capabilities of its object. In every run of guests on the
  runtime, a host call in flight belongs to an object that has a capability of the name the
  request asks for, all of whose pinned arguments the request's arguments have; the request
  carries that object's identifier. An object's context holds exactly the capabilities the
  object was loaded with, and its handles are bounded.
\<close>

lemma host_calls_within_capabilities:
  assumes st: "st = grun eng e p ops"
    and c: "map_of (wcalls (rworld (gr_runtime st))) j = Some c"
  shows "\<exists>ob g args n ms now. heap (gr_runtime st) (cobject c) = Some ob \<and> g \<in> set (ob_caps ob) \<and>
    (\<forall>(k, v) \<in> set (cap_arguments g). \<exists>x. vget args k = Some x \<and> value_eq x v) \<and>
    crequest c = call_request n (cobject c) (cap_name g) args ms now \<and>
    (\<forall>cl. gr_cells st (cobject c) = Some cl \<longrightarrow>
       capabilities (cl_guest cl) = ob_caps ob \<and> length (handles (cl_guest cl)) \<le> 128)"
proof -
  have ok: "gr_ok (to_vec e) st" unfolding st by (rule gr.reach_inv) (rule refl)
  then have "call_granted (gr_runtime st) c" using c by (simp add: gr_ok_def)
  then obtain ob g cap args n ms now where g: "heap (gr_runtime st) (cobject c) = Some ob"
    "g \<in> set (ob_caps ob)" "grants g cap args" "crequest c = call_request n (cobject c) cap args ms now"
    unfolding call_granted_def by blast
  have "cap_name g = cap" "\<forall>(k, v) \<in> set (cap_arguments g). \<exists>x. vget args k = Some x \<and> value_eq x v"
    using g(3) by (auto simp: grants_def list_all_iff split: option.splits)
  moreover have "capabilities (cl_guest cl) = ob_caps ob \<and> length (handles (cl_guest cl)) \<le> 128"
    if "gr_cells st (cobject c) = Some cl" for cl
  proof -
    have "cell_ok (gr_runtime st) (gr_next st) (cobject c) cl" using ok that by (simp add: gr_ok_def)
    with g(1) show ?thesis by (simp add: cell_ok_def guest_ok_def MAX_HANDLES_def)
  qed
  ultimately show ?thesis using g by blast
qed

section \<open>A run for examples\<close>

text \<open>An object with one capability is loaded and started, takes its configuration as the arguments and calls.\<close>

definition calling_config :: json where
  "calling_config = Object [(''k'', Null)]"

definition calling_caps :: "capability list" where
  "calling_caps = [\<lparr>cap_name = ''kv'', cap_arguments = [(''k'', Null)]\<rparr>]"

definition calling_run :: "bytes gr_op list" where
  "calling_run = map Outer [LoadBegin ''elf'' calling_config calling_caps, LoadFinish 0, Start ''o1''] @
     [Enter ''o1'' ''kv'' 0, Help ''o1'' 4 0 0 0 0 0 0, Help ''o1'' 7 0 2 1 5 0 0, Drive ''o1'' False 0]"

abbreviation calling_object :: "unit object" where
  "calling_object \<equiv> (object_new ''o1'' ''00'' () calling_config calling_caps)
     \<lparr>ob_state := Running, ob_phase := Active, ob_task := True, ob_config := Null\<rparr>"

definition calling_state :: "outbox \<Rightarrow> string \<Rightarrow> (u64 \<times> handle) list \<Rightarrow> u64 \<Rightarrow> task option \<Rightarrow> (unit, bytes) guests" where
  "calling_state q wt hs n t =
     \<lparr>gr_runtime = (runtime_new ''s'')\<lparr>heap := [''o1'' \<mapsto> calling_object\<lparr>ob_wait := wt\<rparr>], registered := [''o1''], rnext := 1,
        rworld := (world_new ''s'')\<lparr>wout := q\<rparr>\<rparr>,
      gr_cells = [''o1'' \<mapsto> \<lparr>cl_guest = (guest_new ''o1'' calling_config calling_caps 0)\<lparr>handles := hs\<rparr>,
        cl_mem = ''kv'', cl_task = t, cl_call = None\<rparr>],
      gr_next = n\<rparr>"

lemma calling_valid: "valid_value tiny_enc calling_config" "\<not> list_ex (bad_capability tiny_enc) calling_caps"
  by (simp_all add: valid_value_iff tiny_enc_def MAX_VALUE_BYTES_def calling_config_def calling_caps_def
      bad_capability_def)

lemma calling_loaded:
  "fold (gr_exec demo_engine (flat_env 0)) (map Outer [LoadBegin ''elf'' calling_config calling_caps, LoadFinish 0])
     (guests_new ''s'') =
   \<lparr>gr_runtime = (runtime_new ''s'')\<lparr>heap := [''o1'' \<mapsto> object_new ''o1'' ''00'' () calling_config calling_caps],
      registered := [''o1''], rnext := 1\<rparr>, gr_cells = (\<lambda>_. None), gr_next = 1\<rparr>"
  by (simp add: guests_new_def flat_env_def load_begin_def calling_valid checked_inc_def runtime_new_def
      load_finish_def load_remove_def demo_engine_def demo_object_id Let_def)

lemma calling_started:
  "fold (gr_exec demo_engine (flat_env 0)) [Outer (Start ''o1''), Enter ''o1'' ''kv'' 0]
     \<lparr>gr_runtime = (runtime_new ''s'')\<lparr>heap := [''o1'' \<mapsto> object_new ''o1'' ''00'' () calling_config calling_caps],
      registered := [''o1''], rnext := 1\<rparr>, gr_cells = (\<lambda>_. None), gr_next = 1\<rparr> = calling_state outbox_new ''none'' [] 1 None"
  by (simp add: runtime_start_def runtime_get_def enter_def task_poll_def task_started_def object_new_def
      calling_state_def guest_new_def runtime_new_def world_new_def Let_def)

lemma helper_nth: "HELPERS ! 4 = (''sf_config'', h_config)" "HELPERS ! 7 = (''sf_host_call_raw'', h_call)"
  "length HELPERS = 32"
  by (simp_all add: HELPERS_def)

lemma calling_fields:
  "running ''o1'' (gr_runtime (calling_state q wt hs n t)) = Some (calling_object\<lparr>ob_wait := wt\<rparr>)"
  "gr_cells (calling_state q wt hs n t) ''o1'' = Some \<lparr>cl_guest = (guest_new ''o1'' calling_config calling_caps 0)\<lparr>handles := hs\<rparr>,
     cl_mem = ''kv'', cl_task = t, cl_call = None\<rparr>"
  by (simp_all add: running_def calling_state_def object_new_def)

definition calling_world :: "outbox \<Rightarrow> string \<Rightarrow> (u64 \<times> handle) list \<Rightarrow> u64 \<Rightarrow> bytes hworld" where
  "calling_world q wt hs n =
     \<lparr>wguest = Some ((guest_new ''o1'' calling_config calling_caps 0)\<lparr>handles := hs\<rparr>), next_handle = n,
      hout = q, hwait = wt, mem = ''kv''\<rparr>"

lemma calling_helper_world:
  "helper_world \<lparr>cl_guest = (guest_new ''o1'' calling_config calling_caps 0)\<lparr>handles := hs\<rparr>,
     cl_mem = ''kv'', cl_task = t, cl_call = x\<rparr> (calling_object\<lparr>ob_wait := wt\<rparr>) (calling_state q wt hs n t') =
   calling_world q wt hs n"
  by (simp add: helper_world_def calling_state_def calling_world_def runtime_new_def world_new_def)

lemma calling_back:
  "write_back ''o1'' (calling_object\<lparr>ob_wait := wt\<rparr>) cl t' (calling_world q wt' hs' n') (calling_state q wt hs n t) =
   calling_state q wt' hs' n' t'"
  by (simp add: write_back_def calling_state_def calling_world_def runtime_new_def world_new_def)

lemma calling_helpers:
  "gr_exec demo_engine (flat_env 0) (Help ''o1'' 4 0 0 0 0 0 0) (calling_state q ''none'' [] 1 None) =
     calling_state q ''none'' [(1, Json calling_config)] 2 None"
  "gr_exec demo_engine (flat_env 0) (Help ''o1'' 7 0 2 1 5 0 0)
     (calling_state q ''none'' [(1, Json calling_config)] 2 None) =
     calling_state q ''host_rpc'' [(1, Json calling_config)] 2 (Some (CallTask ''o1'' ''kv'' calling_config 5))"
proof -
  have "h_config ((flat_env 0)\<lparr>now_ns := 0\<rparr>) (calling_world q ''none'' [] 1) 0 0 0 0 0 =
      Ret 1 (calling_world q ''none'' [(1, Json calling_config)] 2)"
    by (simp add: h_config_def ctx_def calling_world_def insert_handle_def guest_new_def MAX_HANDLES_def I64_MAX_def)
  then show "gr_exec demo_engine (flat_env 0) (Help ''o1'' 4 0 0 0 0 0 0) (calling_state q ''none'' [] 1 None) =
     calling_state q ''none'' [(1, Json calling_config)] 2 None"
    by (simp add: helper_call_def calling_fields helper_nth calling_helper_world settle_def calling_back)
  have "h_call ((flat_env 0)\<lparr>now_ns := 0\<rparr>) (calling_world q ''none'' [(1, Json calling_config)] 2) 0 2 1 5 0 =
      Post (CallTask ''o1'' ''kv'' calling_config 5) (calling_world q ''host_rpc'' [(1, Json calling_config)] 2)"
    by (simp add: h_call_def with_text_def guest_text_def flat_env_def ctx_def calling_world_def json_of_def
        guest_new_def grants_def calling_caps_def calling_config_def timeout_ms_def wait_for_def utf8_ascii
        MAX_VALUE_BYTES_def)
  then show "gr_exec demo_engine (flat_env 0) (Help ''o1'' 7 0 2 1 5 0 0)
     (calling_state q ''none'' [(1, Json calling_config)] 2 None) =
     calling_state q ''host_rpc'' [(1, Json calling_config)] 2 (Some (CallTask ''o1'' ''kv'' calling_config 5))"
    by (simp add: helper_call_def calling_fields helper_nth calling_helper_world settle_def calling_back)
qed

lemma calling_call:
  "\<exists>c. map_of (wcalls (rworld (gr_runtime (gr_exec demo_engine (flat_env 0) (Drive ''o1'' False 0)
      (calling_state q ''host_rpc'' [(1, Json calling_config)] 2 (Some (CallTask ''o1'' ''kv'' calling_config 5)))))))
      (call_id ''s'' 1) = Some c \<and> cobject c = ''o1''"
proof -
  let ?s = "calling_state q ''host_rpc'' [(1, Json calling_config)] 2 (Some (CallTask ''o1'' ''kv'' calling_config 5))"
  have world: "rworld (gr_runtime ?s) = (world_new ''s'')\<lparr>wout := q\<rparr>"
    by (simp add: calling_state_def runtime_new_def)
  have obj: "heap (gr_runtime ?s) ''o1'' = Some (calling_object\<lparr>ob_wait := ''host_rpc''\<rparr>)"
    "\<not> ob_cancel calling_object"
    by (simp_all add: calling_state_def object_new_def)
  have h: "call_begin ''o1'' ''kv'' calling_config 5 0 (whost (world_new ''s'')) =
      (Inr \<lparr>cid = call_id ''s'' 1, cobject = ''o1'', csent = False,
          crequest = call_request (call_id ''s'' 1) ''o1'' ''kv'' calling_config 5 0\<rparr>,
        (whost (world_new ''s''))\<lparr>hnext := 1, pending := [(call_id ''s'' 1, ''o1'')],
          slots := (\<lambda>_. None)(call_id ''s'' 1 \<mapsto> None)\<rparr>)"
    by (simp add: call_begin_def world_new_def host_new_def checked_inc_def Let_def)
  have "drive tiny_enc ''o1'' False 0 ?s = begin_call tiny_enc ''o1''
      \<lparr>cl_guest = (guest_new ''o1'' calling_config calling_caps 0)\<lparr>handles := [(1, Json calling_config)]\<rparr>,
       cl_mem = ''kv'', cl_task = Some (CallTask ''o1'' ''kv'' calling_config 5), cl_call = None\<rparr>
      ''o1'' ''kv'' calling_config 5 0 ?s"
    by (simp add: drive_def calling_fields)
  then have "gr_runtime (drive tiny_enc ''o1'' False 0 ?s) =
      guest_acts tiny_enc ''o1'' (GCall ''kv'' calling_config 5 0) (gr_runtime ?s)"
    by (simp add: begin_call_def world h with_act_def Let_def)
  then have "map_of (wcalls (rworld (gr_runtime (drive tiny_enc ''o1'' False 0 ?s)))) (call_id ''s'' 1) =
      Some \<lparr>cid = call_id ''s'' 1, cobject = ''o1'', csent = False,
          crequest = call_request (call_id ''s'' 1) ''o1'' ''kv'' calling_config 5 0\<rparr>"
    using obj by (simp add: guest_acts_def act_world_def act_object_def world h)
  then show ?thesis by (simp add: flat_env_def)
qed

lemma calling_ends:
  "grun demo_engine (flat_env 0) ''s'' calling_run =
   gr_exec demo_engine (flat_env 0) (Drive ''o1'' False 0)
     (calling_state outbox_new ''host_rpc'' [(1, Json calling_config)] 2 (Some (CallTask ''o1'' ''kv'' calling_config 5)))"
proof -
  have run: "calling_run = map Outer [LoadBegin ''elf'' calling_config calling_caps, LoadFinish 0] @
      [Outer (Start ''o1''), Enter ''o1'' ''kv'' 0] @ [Help ''o1'' 4 0 0 0 0 0 0] @ [Help ''o1'' 7 0 2 1 5 0 0] @
      [Drive ''o1'' False 0]"
    by (simp add: calling_run_def)
  have one: "fold f [x] s = f x s" for f :: "'a \<Rightarrow> 'b \<Rightarrow> 'b" and x s by simp
  show ?thesis
    unfolding run fold_append o_apply calling_loaded calling_started one calling_helpers by (rule refl)
qed

lemma host_calls_within_capabilities_witness:
  "\<exists>c args n ms now. map_of (wcalls (rworld (gr_runtime (grun demo_engine (flat_env 0) ''s'' calling_run))))
      (call_id ''s'' 1) = Some c \<and> cobject c = ''o1'' \<and>
      (\<exists>ob g. heap (gr_runtime (grun demo_engine (flat_env 0) ''s'' calling_run)) ''o1'' = Some ob \<and>
         g \<in> set (ob_caps ob) \<and> crequest c = call_request n ''o1'' (cap_name g) args ms now)"
proof -
  from calling_call obtain c where c: "map_of (wcalls (rworld (gr_runtime
      (grun demo_engine (flat_env 0) ''s'' calling_run)))) (call_id ''s'' 1) = Some c" "cobject c = ''o1''"
    unfolding calling_ends by blast
  from host_calls_within_capabilities [OF refl c(1)] c show ?thesis by (auto simp del: fold_simps) blast
qed

end
