(* ===== verification/Origins.thy ===== *)
theory Origins
  imports SessionLog GuestRuns
begin

text \<open>
  Where the capabilities of objects and the host calls in flight come from. A step of the
  session leaves the capabilities of every object alone, gives new objects those of a load in
  flight, starts loads only for requests the client made, and makes no host call: only a
  guest does.
\<close>

section \<open>Where capabilities and calls come from\<close>

text \<open>
  \<open>stems C\<close>: no object changes its capabilities, and new objects and new loads have
  capabilities that were being loaded or are allowed by \<open>C\<close>.
\<close>

abbreviation load_caps :: "u64 \<times> bytes \<times> json \<times> capability list \<Rightarrow> capability list" where
  "load_caps p \<equiv> snd (snd (snd p))"

definition stems :: "(capability list \<Rightarrow> bool) \<Rightarrow> 'p runtime \<Rightarrow> 'p runtime \<Rightarrow> bool" where
  "stems C r r' \<longleftrightarrow> keeps_caps r r' \<and>
     (\<forall>i ob'. heap r' i = Some ob' \<longrightarrow>
        (\<exists>ob. heap r i = Some ob \<and> ob_caps ob' = ob_caps ob) \<or>
        (\<exists>p \<in> set (loading r). ob_caps ob' = load_caps p) \<or> C (ob_caps ob')) \<and>
     (\<forall>p \<in> set (loading r'). p \<in> set (loading r) \<or> C (load_caps p))"

lemma stems_quiet:
  assumes k: "keeps_caps r r'" and d: "dom (heap r') = dom (heap r)" and l: "set (loading r') \<subseteq> set (loading r)"
  shows "stems C r r'"
proof -
  have "\<exists>ob. heap r i = Some ob \<and> ob_caps ob' = ob_caps ob" if "heap r' i = Some ob'" for i ob'
  proof -
    from d that obtain ob where "heap r i = Some ob" by blast
    with k that show ?thesis unfolding keeps_caps_def by fastforce
  qed
  with k l show ?thesis unfolding stems_def by blast
qed

lemma stems_trans: "stems C r s \<Longrightarrow> stems C s t \<Longrightarrow> stems C r t"
  unfolding stems_def
  by (intro conjI) (blast intro: keeps_caps_trans, metis, metis)

lemma stems_world [simp]: "stems C r (r\<lparr>rworld := w\<rparr>)" "stems C r r"
  by (auto intro!: stems_quiet)

abbreviation from_step :: "(capability list \<Rightarrow> bool) \<Rightarrow> 'p runtime \<Rightarrow> 'p runtime \<Rightarrow> bool" where
  "from_step C r r' \<equiv> stems C r r' \<and> calls_from (rworld r) (rworld r')"

lemma from_trans: "from_step C r s \<Longrightarrow> from_step C s t \<Longrightarrow> from_step C r t"
  by (blast intro: stems_trans calls_from_trans)

lemma from_same [simp]: "from_step C r r"
  by simp

lemma from_task: "from_step C r (task_poll enc i res r)"
  using keeps_task [of r enc i res] same_dom_task [of r enc i res] task_world_only(1) [of enc i res r]
  by (auto simp: same_dom_def intro: stems_quiet)

lemma stems_act: "stems C r (guest_acts enc i a r)"
proof (rule stems_quiet)
  have "ob_caps (act_object a ob) = ob_caps ob" for ob :: "'a object"
    by (cases a) (simp_all add: act_object_def)
  then show "keeps_caps r (guest_acts enc i a r)"
    by (auto simp: guest_acts_def split: option.split)
  show "dom (heap (guest_acts enc i a r)) = dom (heap r)"
    using same_dom_act [of r enc i a] by (simp add: same_dom_def)
  show "set (loading (guest_acts enc i a r)) \<subseteq> set (loading r)" by (simp add: task_world_only)
qed

lemma from_object_stop: "from_step C r (snd (object_stop_poll i r))"
proof -
  obtain d r1 where s: "object_stop_poll i r = (d, r1)" by fastforce
  have "loading r1 = loading r"
    using s by (auto simp: object_stop_poll_def Let_def split: option.splits if_splits)
  with s keeps_stop_poll [of r i] same_dom_ops(4) [OF s] show ?thesis
    by (auto simp: same_dom_def intro: stems_quiet)
qed

lemma from_stop: "from_step C r (snd (runtime_stop_poll enc i u r))"
proof -
  obtain d r1 where s: "object_stop_poll i r = (d, r1)" by fastforce
  have c: "calls_from w (host_exec enc (HOut (OpRemoveObject i)) (host_exec enc (HCancel i) w))" for w
    by (intro calls_from_trans [OF calls_host calls_host]) auto
  have "stems C r1 (r1\<lparr>rworld := w, registered := x\<rparr>)" for w x by (auto intro!: stems_quiet)
  with s from_object_stop [of C r i] c show ?thesis
    by (cases d) (auto simp: runtime_stop_poll_def Let_def simp del: host_exec.simps
        intro: stems_trans calls_from_trans)
qed

lemma from_shutdown: "from_step C r (snd (shutdown_poll ids r))"
proof (induction ids r rule: shutdown_poll.induct)
  case (1 r)
  show ?case by (auto intro!: stems_quiet)
next
  case (2 i ids r)
  obtain d r1 where s: "object_stop_poll i r = (d, r1)" by fastforce
  with from_object_stop [of C r i] "2.IH" [OF s [symmetric]] show ?case
    by (cases d) (auto intro: stems_trans calls_from_trans)
qed

lemma from_load_begin:
  assumes "load_begin enc elf config caps r = (x, r')" "C caps"
  shows "from_step C r r'"
  using assms by (auto simp: load_begin_def stems_def split: if_splits option.splits)

lemma from_load_finish:
  assumes inv: "rt_inv enc r" and k: "k < length (loading r)"
  shows "from_step C r (snd (load_finish e k r))"
proof -
  obtain serial elf config caps where p: "loading r ! k = (serial, elf, config, caps)"
    by (cases "loading r ! k")
  then have "(serial, elf, config, caps) \<in> set (loading r)" using k nth_mem by metis
  then have caps: "\<exists>p \<in> set (loading r). caps = load_caps p" by (intro bexI) auto
  have sub: "set (loading (load_remove k r)) \<subseteq> set (loading r)"
    using set_take_subset set_drop_subset unfolding load_remove_def by fastforce
  note keeps = keeps_load [OF inv k, of e]
  have "stems C r (snd (load_finish e k r))"
    unfolding stems_def
  proof (intro conjI)
    show "keeps_caps r (snd (load_finish e k r))" using keeps ..
    show "\<forall>i ob'. heap (snd (load_finish e k r)) i = Some ob' \<longrightarrow>
        (\<exists>ob. heap r i = Some ob \<and> ob_caps ob' = ob_caps ob) \<or>
        (\<exists>p \<in> set (loading r). ob_caps ob' = load_caps p) \<or> C (ob_caps ob')"
      using caps by (auto simp: load_finish_def p Let_def load_remove_def object_new_def split: sum.split)
    show "\<forall>p \<in> set (loading (snd (load_finish e k r))). p \<in> set (loading r) \<or> C (load_caps p)"
      using sub by (auto simp: load_finish_def p Let_def split: sum.split)
  qed
  with keeps show ?thesis by simp
qed

lemma from_methods:
  assumes C: "\<And>elf config caps. meth = ''sf.object.load'' \<Longrightarrow> d_load d params = Inr (elf, config, caps) \<Longrightarrow> C caps"
  shows "from_step C r (snd (dispatch d env enc meth params r))"
proof -
  have start: "from_step C r r'" if "runtime_start i r = (x, r')" for i x r'
  proof -
    have "keeps_caps r r'"
      using that by (auto simp: runtime_start_def Let_def dest!: runtime_getD split: sum.splits option.splits if_splits)
    moreover have "loading r' = loading r"
      using that by (auto simp: runtime_start_def Let_def split: sum.splits option.splits if_splits)
    ultimately show ?thesis
      using same_dom_ops(3) [OF that] same_world(4) [OF that] by (auto simp: same_dom_def intro!: stems_quiet)
  qed
  have deliver: "from_step C r r'" if "runtime_deliver enc i v r = (x, r')" for i v x r'
  proof -
    have "keeps_caps r r'"
      using that by (auto simp: runtime_deliver_def object_deliver_def dest!: runtime_getD
          split: sum.splits prod.splits if_splits)
    moreover have "loading r' = loading r"
      using that by (auto simp: runtime_deliver_def split: sum.splits prod.splits)
    ultimately show ?thesis
      using same_dom_ops(2) [OF that] same_world(3) [OF that] by (auto simp: same_dom_def intro!: stems_quiet)
  qed
  have stop: "from_step C r r'" if "runtime_stop enc i u r = (x, r')" for i u x r'
    using that from_stop [of C r enc i u] by (auto simp: runtime_stop_def split: sum.splits)
  have "from_step C r (snd (method_load d enc params r))" if "meth = ''sf.object.load''"
    using C [OF that]
    by (auto simp: method_load_def decode_def dest: from_load_begin [where C = C] split: sum.split prod.split)
  moreover have "from_step C r (snd (method_start d params r))"
    using start by (auto simp: method_start_def split: sum.split prod.split option.split)
  moreover have "from_step C r (snd (method_stop d enc u params r))" for u
    using stop by (auto simp: method_stop_def split: sum.split prod.split poll.split)
  moreover have "from_step C r (snd (method_deliver d enc params r))"
    using deliver by (auto simp: method_deliver_def split: sum.split prod.split)
  moreover have "snd (method_get d params r) = r" "snd (method_list d params r) = r"
    by (auto simp: method_get_def method_list_def split: sum.split)
  ultimately show ?thesis by (simp add: dispatch_def split: sum.split)
qed

section \<open>Where they come from in a session\<close>

text \<open>Capabilities that a request to load asked for, in one of the frames routed.\<close>

definition asked :: "'p outside \<Rightarrow> event list \<Rightarrow> capability list \<Rightarrow> bool" where
  "asked out tr caps \<longleftrightarrow>
     (\<exists>q \<in> set (requests_in (o_parse out) (over_log routed_by tr)). \<exists>elf config.
        rq_method q = ''sf.object.load'' \<and> d_load (o_decoders out) (rq_params q) = Inr (elf, config, caps))"

lemma asked_append: "asked out tr caps \<Longrightarrow> asked out (tr @ evs) caps"
  by (auto simp: asked_def requests_in_def map_filter_def)

abbreviation sr_runtime :: "'p server \<Rightarrow> 'p runtime" where
  "sr_runtime st \<equiv> sv_runtime (sr_service st)"

lemma from_world:
  "calls_from (rworld r) w \<Longrightarrow> from_step C r (r\<lparr>rworld := w\<rparr>)"
  by simp

lemma from_refuse: "from_step C (sv_runtime sv) (sv_runtime (snd (refuse enc i e sv)))"
  by (cases "try_control enc (response i (Inl e)) (sv_out sv)") (simp add: refuse_def)

lemma from_route: "from_step C (sv_runtime sv) (sv_runtime (snd (route enc parse b sv)))"
proof (cases rule: route_cases [of enc parse b sv])
  case (refused i e)
  with from_refuse show ?thesis by metis
next
  case (answered v)
  have "calls_from (sv_world sv) (host_exec enc (HResponse v) (sv_world sv))" by (rule calls_host) simp
  with answered show ?thesis by (simp del: host_exec.simps)
qed (simp_all add: accepted_def)

lemma from_finish: "from_step C (sv_runtime sv) (sv_runtime (snd (request_finish enc q res sv)))"
  by (simp add: request_finish_def request_drop_def Let_def split: prod.split poll.split)

lemma from_start:
  assumes "start_request d env be enc q st = (x, sv)"
    and "\<And>elf config caps. rq_method q = ''sf.object.load'' \<Longrightarrow> d_load d (rq_params q) = Inr (elf, config, caps) \<Longrightarrow> C caps"
  shows "from_step C (sr_runtime st) (sv_runtime sv)"
proof -
  have "from_step C (sr_runtime st) (sv_runtime (snd (service_handle d env enc (rq_method q) (rq_params q) (sr_service st))))"
    using from_methods [of "rq_method q" d "rq_params q" C "sr_runtime st" env enc] assms(2)
    by (cases "dispatch d env enc (rq_method q) (rq_params q) (sr_runtime st)")
      (auto simp: service_handle_def split: sum.split)
  with assms(1) show ?thesis
    by (auto simp: start_request_def split: prod.splits method_step.splits)
qed

lemma from_advance:
  assumes inv: "rt_inv enc (sr_runtime st)" and a: "advance_request e be enc wk sg st = (sg', sv)"
  shows "from_step C (sr_runtime st) (sv_runtime sv)"
proof (cases sg)
  case (Loading n)
  show ?thesis
  proof (cases "wk = LoaderReady \<and> load_index n (sr_runtime st) < length (loading (sr_runtime st))")
    case True
    with a Loading from_load_finish [OF inv, of "load_index n (sr_runtime st)" C e] show ?thesis
      by (auto simp: advance_request_def Let_def split: prod.splits)
  qed (use a Loading in \<open>auto simp: advance_request_def Let_def split: wake.splits if_splits\<close>)
next
  case (StoppingObject i u)
  with a from_stop [of C "sr_runtime st" enc i u] show ?thesis
    by (auto simp: advance_request_def Let_def split: prod.splits poll.splits)
qed (use a in \<open>auto simp: advance_request_def Let_def split: wake.splits\<close>)

lemma from_request:
  fixes out :: "'p outside"
  assumes inv: "sr_inv (o_enc out) st"
    and C: "\<And>elf config caps. rq_method q = ''sf.object.load'' \<Longrightarrow>
      d_load (o_decoders out) (rq_params q) = Inr (elf, config, caps) \<Longrightarrow> C caps"
  shows "from_step C (sr_runtime st) (sr_runtime
    (request_poll (o_engine out) (o_decoders out) (o_env out) (o_build out) (o_enc out) wk q st))"
proof -
  obtain x sv where s: "request_segment out wk q st = (x, sv)" by fastforce
  have rt: "rt_inv (o_enc out) (sr_runtime st)" using inv serv_ok_rt by (auto simp: sr_inv_def)
  have seg: "from_step C (sr_runtime st) (sv_runtime sv)"
  proof (cases "sr_stage st (rq_id q) = NotPolled")
    case True
    with s have "start_request (o_decoders out) (o_env out) (o_build out) (o_enc out) q st = (x, sv)"
      by (simp add: request_segment_def)
    from from_start [OF this C] show ?thesis .
  next
    case False
    with s obtain sg where "advance_request (o_engine out) (o_build out) (o_enc out) wk (sr_stage st (rq_id q)) st = (sg, sv)"
      by (cases "sr_stage st (rq_id q)") (auto simp: request_segment_def split: prod.splits)
    from from_advance [OF rt this] show ?thesis .
  qed
  have "from_step C (sr_runtime st) (sr_runtime (answer_request (o_enc out) q res sv st))" for res
    using from_trans [OF seg from_finish [of C sv "o_enc out" q res]]
    by (cases "request_finish (o_enc out) q res sv") (simp add: answer_request_def task_over_def split: bool.split)
  with seg show ?thesis
    unfolding request_poll_segment s by (simp add: task_over_def split: option.split stage.split)
qed

lemma from_objects: "from_step C (sr_runtime st) (sr_runtime (objects_poll enc ids st))"
proof -
  obtain ids' r where p: "shutdown_poll ids (sr_runtime st) = (ids', r)" by fastforce
  have "calls_from w (host_exec enc (HOut OpClose) w)" for w by (rule calls_host) simp
  with p from_shutdown [of C "sr_runtime st" ids] show ?thesis
    by (auto simp: objects_poll_def close_output_def Let_def simp del: host_exec.simps
        intro: stems_trans calls_from_trans)
qed

lemma from_main: "from_step C (sr_runtime st) (sr_runtime (main_poll enc parse t i l st))"
proof (cases "sr_phase st")
  case Serving
  show ?thesis
  proof (cases rule: select_cases [of enc parse t i st])
    case (routed b f r go sv st')
    from from_route [of C "sr_service st" enc parse b] routed Serving show ?thesis
      by (simp add: main_poll_def leave_def)
  qed (use Serving in \<open>simp_all add: main_poll_def leave_def\<close>)
next
  case Leaving
  have drops: "sv_runtime (fold request_drop qs sv) = sv_runtime sv" for qs and sv :: "'a service"
    by (induction qs arbitrary: sv) simp_all
  have "stems C r (r\<lparr>loading := []\<rparr>)" for r :: "'a runtime" by (auto intro!: stems_quiet)
  with Leaving show ?thesis by (simp add: main_poll_def abort_tasks_def drops Let_def)
next
  case Joined
  obtain ids r where b: "shutdown_begin (sr_runtime st) = (ids, r)" by fastforce
  have "stems C (sr_runtime st) r"
    using b by (intro stems_quiet) (auto simp: shutdown_begin_def keeps_caps_def split: if_splits)
  moreover have "rworld r = rworld (sr_runtime st)" using b by (auto simp: shutdown_begin_def)
  ultimately have "from_step C (sr_runtime st) r" by simp
  with from_objects [of C "st\<lparr>sr_service := (sr_service st)\<lparr>sv_runtime := r\<rparr>\<rparr>" enc ids] Joined b show ?thesis
    by (auto simp: main_poll_def intro: stems_trans calls_from_trans)
next
  case (StopObjects ids)
  with from_objects show ?thesis by (simp add: main_poll_def)
next
  case Flushing
  then show ?thesis by (simp add: main_poll_def flush_poll_def split: write_state.split option.split)
next
  case (Over x)
  then show ?thesis by (simp add: main_poll_def)
qed

lemma from_exec:
  assumes inv: "sr_inv (o_enc out) st"
    and C: "\<And>q elf config caps. q \<in> set (sv_tasks (sr_service st)) \<Longrightarrow> rq_method q = ''sf.object.load'' \<Longrightarrow>
      d_load (o_decoders out) (rq_params q) = Inr (elf, config, caps) \<Longrightarrow> C caps"
  shows "stems C (sr_runtime st) (sr_runtime (serve_exec out op st)) \<and>
    ((\<forall>i a. op \<noteq> GuestAct i a) \<longrightarrow> calls_from (rworld (sr_runtime st)) (rworld (sr_runtime (serve_exec out op st))))"
proof (cases op)
  case (MainPoll t i l)
  with from_main show ?thesis by simp
next
  case (ReqPoll j wk)
  show ?thesis
  proof (cases "sr_phase st = Serving \<and> task_of j (sr_service st) \<noteq> None")
    case True
    then obtain q where q: "task_of j (sr_service st) = Some q" by blast
    from from_request [OF inv, of q C wk] C task_ofD [OF q] True q ReqPoll show ?thesis by auto
  qed (use ReqPoll in auto)
next
  case (ObjPoll i res)
  with from_task show ?thesis by simp
next
  case (GuestAct i a)
  with stems_act show ?thesis by simp
next
  case (Output pick x)
  then show ?thesis by (simp add: output_poll_def split: serve_phase.split prod.split)
qed simp

end
