(* ===== verification/Whole.thy ===== *)
theory Whole
  imports Delivery Origins
begin

text \<open>
  The whole program with its guests: the session of \<open>Serving\<close>, in whose objects' tasks programs
  call the real helpers of \<open>Helpers\<close>, as in \<open>GuestRuns\<close>. It is shown to refine the session with
  abstract guest actions, log included, so that what holds of every session holds with real
  guests; and the authority of every host call is traced back to a request of the client.
\<close>

section \<open>The program with its guests\<close>

record ('p, 'm) whole =
  wh_server :: "'p server"
  wh_cells :: "string \<Rightarrow> 'm cell option"
  wh_next :: u64

definition whole_new :: "string \<Rightarrow> builds \<Rightarrow> ('p, 'm) whole" where
  "whole_new s b = \<lparr>wh_server = server_new s b, wh_cells = (\<lambda>_. None), wh_next = 1\<rparr>"

definition guests_of :: "('p, 'm) whole \<Rightarrow> ('p, 'm) guests" where
  "guests_of w = \<lparr>gr_runtime = sr_runtime (wh_server w), gr_cells = wh_cells w, gr_next = wh_next w\<rparr>"

definition with_guests :: "('p, 'm) guests \<Rightarrow> ('p, 'm) whole \<Rightarrow> ('p, 'm) whole" where
  "with_guests g w = \<lparr>wh_server = on_runtime (\<lambda>_. gr_runtime g) (wh_server w), wh_cells = gr_cells g, wh_next = gr_next g\<rparr>"

lemma guests_of_with [simp]: "guests_of (with_guests g w) = g"
  "wh_server (with_guests g w) = on_runtime (\<lambda>_. gr_runtime g) (wh_server w)"
  by (cases g; simp add: guests_of_def with_guests_def)+

text \<open>The session's steps, but for the abstract actions, and the steps of the guests.\<close>

datatype 'm whole_op =
    Session serve_op
  | Guest "'m gr_op"

fun acts :: "serve_op \<Rightarrow> bool" where
  "acts (GuestAct i a) = True"
| "acts op = False"

fun whole_exec :: "'p outside \<Rightarrow> 'm env \<Rightarrow> 'm whole_op \<Rightarrow> ('p, 'm) whole \<Rightarrow> ('p, 'm) whole" where
  "whole_exec out e (Session op) w =
     (if acts op then w else w\<lparr>wh_server := serve_exec out op (wh_server w)\<rparr>)"
| "whole_exec out e (Guest op) w =
     (if guest_op op
      then with_guests (gr_exec (o_engine out) (e\<lparr>to_vec := o_enc out\<rparr>) op (guests_of w)) w else w)"

fun whole_events :: "'p outside \<Rightarrow> 'm env \<Rightarrow> 'm whole_op \<Rightarrow> ('p, 'm) whole \<Rightarrow> event list" where
  "whole_events out e (Session op) w = (if acts op then [] else events out op (wh_server w))"
| "whole_events out e (Guest op) w =
     map Queued (new_control (sr_out (wh_server w)) (sr_out (wh_server (whole_exec out e (Guest op) w))))"

fun whole_log ::
    "'p outside \<Rightarrow> 'm env \<Rightarrow> 'm whole_op \<Rightarrow> event list \<times> ('p, 'm) whole \<Rightarrow> event list \<times> ('p, 'm) whole" where
  "whole_log out e op (tr, w) = (tr @ whole_events out e op w, whole_exec out e op w)"

abbreviation wlog ::
    "'p outside \<Rightarrow> 'm env \<Rightarrow> string \<Rightarrow> builds \<Rightarrow> 'm whole_op list \<Rightarrow> event list \<times> ('p, 'm) whole" where
  "wlog out e s b ops \<equiv> fold (whole_log out e) ops ([], whole_new s b)"

abbreviation seen :: "event list \<times> ('p, 'm) whole \<Rightarrow> event list \<times> 'p server" where
  "seen x \<equiv> (fst x, wh_server (snd x))"

section \<open>Refinement\<close>

lemma new_control_trans:
  assumes "out_rel enc q q'" "out_rel enc q' q''"
  shows "new_control q q'' = new_control q q' @ new_control q' q''"
  using assms by (auto simp: out_rel_def new_control_def)

text \<open>What tasks do to the runtime is done by steps of the session.\<close>

lemma task_ops_logged:
  assumes "list_all task_op ops"
  shows "\<exists>sops. fold (log_exec out) sops (tr, st) =
    (tr @ map Queued (new_control (sr_out st) (rt_out (fold (rt_exec eng (o_enc out)) ops (sr_runtime st)))),
     on_runtime (fold (rt_exec eng (o_enc out)) ops) st) \<and>
    out_rel (o_enc out) (sr_out st) (rt_out (fold (rt_exec eng (o_enc out)) ops (sr_runtime st)))"
  using assms
proof (induction ops arbitrary: tr st)
  case Nil
  show ?case by (intro exI [of _ "[]"]) simp
next
  case (Cons op ops)
  from Cons.prems obtain sop where sop: "serve_exec out sop st = on_runtime (rt_exec eng (o_enc out) op) st"
    "events out sop st = map Queued (new_control (sr_out st) (rt_out (rt_exec eng (o_enc out) op (sr_runtime st))))"
    "out_rel (o_enc out) (sr_out st) (rt_out (rt_exec eng (o_enc out) op (sr_runtime st)))"
  proof (cases op)
    case (Act i a)
    with that [of "GuestAct i a"] out_rel_act [of "o_enc out" "sr_runtime st" i a] show thesis by simp
  next
    case (Poll i res)
    with that [of "ObjPoll i res"] out_rel_task [of "o_enc out" "sr_runtime st" i res] show thesis by simp
  qed simp_all
  let ?st = "serve_exec out sop st"
  let ?r = "fold (rt_exec eng (o_enc out)) ops (sr_runtime ?st)"
  from Cons.IH [of "tr @ events out sop st" ?st] Cons.prems obtain sops where
    sops: "fold (log_exec out) sops (tr @ events out sop st, ?st) =
      (tr @ events out sop st @ map Queued (new_control (sr_out ?st) (rt_out ?r)),
       on_runtime (fold (rt_exec eng (o_enc out)) ops) ?st)"
    and out: "out_rel (o_enc out) (sr_out ?st) (rt_out ?r)" by auto
  have st: "sr_runtime ?st = rt_exec eng (o_enc out) op (sr_runtime st)" by (simp add: sop(1))
  have rel: "out_rel (o_enc out) (sr_out st) (sr_out ?st)" using sop(3) by (simp add: st)
  have evs: "events out sop st = map Queued (new_control (sr_out st) (sr_out ?st))" using sop(2) by (simp add: st)
  have "fold (log_exec out) (sop # sops) (tr, st) =
      (tr @ map Queued (new_control (sr_out st) (rt_out ?r)), on_runtime (fold (rt_exec eng (o_enc out)) ops) ?st)"
    using sops new_control_trans [OF rel out] by (simp add: evs)
  moreover have "on_runtime (fold (rt_exec eng (o_enc out)) ops) ?st = on_runtime (fold (rt_exec eng (o_enc out)) (op # ops)) st"
    by (simp add: sop(1))
  moreover have "?r = fold (rt_exec eng (o_enc out)) (op # ops) (sr_runtime st)" by (simp add: st)
  ultimately show ?case using out_rel_trans [OF rel out] by metis
qed

definition origins_ok :: "'p outside \<Rightarrow> event list \<Rightarrow> 'p server \<Rightarrow> bool" where
  "origins_ok out tr st \<longleftrightarrow>
     (\<forall>i ob. heap (sr_runtime st) i = Some ob \<longrightarrow> asked out tr (ob_caps ob)) \<and>
     (\<forall>p \<in> set (loading (sr_runtime st)). asked out tr (load_caps p))"

definition whole_ok :: "'p outside \<Rightarrow> event list \<times> ('p, 'm) whole \<Rightarrow> bool" where
  "whole_ok out x \<longleftrightarrow>
     log_ok out (seen x) \<and> gr_ok (o_enc out) (guests_of (snd x)) \<and> origins_ok out (fst x) (wh_server (snd x))"

lemma origins_stem:
  assumes "origins_ok out tr st" "stems C (sr_runtime st) (sr_runtime st')" "\<And>caps. C caps \<Longrightarrow> asked out tr caps"
  shows "origins_ok out (tr @ evs) st'"
proof -
  have "asked out tr (ob_caps ob)" if "heap (sr_runtime st') i = Some ob" for i ob
    using assms that unfolding stems_def origins_ok_def by metis
  moreover have "asked out tr (load_caps p)" if "p \<in> set (loading (sr_runtime st'))" for p
    using assms that unfolding stems_def origins_ok_def by metis
  ultimately show ?thesis using asked_append unfolding origins_ok_def by metis
qed

lemma task_asked:
  assumes "requests_ok (o_parse out) tr st" "q \<in> set (sv_tasks (sr_service st))" "rq_method q = ''sf.object.load''"
    "d_load (o_decoders out) (rq_params q) = Inr (elf, config, caps)"
  shows "asked out tr caps"
proof -
  have "q \<in> set (over_log accepted_by tr)"
    using assms(1,2) unfolding requests_ok_def by (metis Un_iff set_mset_mset set_mset_union)
  then have "q \<in> set (requests_in (o_parse out) (over_log routed_by tr))"
    using assms(1) list_emb_set [of "(=)"] unfolding requests_ok_def by metis
  with assms(3,4) show ?thesis unfolding asked_def by blast
qed

lemma whole_session:
  assumes ok: "whole_ok out (tr, w)" and op: "\<not> acts op"
  shows "whole_ok out (tr @ events out op (wh_server w), w\<lparr>wh_server := serve_exec out op (wh_server w)\<rparr>)"
proof -
  let ?st = "wh_server w"
  let ?st' = "serve_exec out op ?st" and ?C = "asked out tr"
  have log: "log_ok out (tr, ?st)" and gr: "gr_ok (o_enc out) (guests_of w)" using ok by (simp_all add: whole_ok_def)
  then have inv: "sr_inv (o_enc out) ?st" "requests_ok (o_parse out) tr ?st" by (simp_all add: log_ok_def)
  have "log_ok out (tr @ events out op ?st, ?st')" using log_ok_exec [OF log, of op] by simp
  moreover have from': "stems ?C (sr_runtime ?st) (sr_runtime ?st')"
    "calls_from (rworld (sr_runtime ?st)) (rworld (sr_runtime ?st'))"
    using from_exec [OF inv(1), of ?C op] task_asked [OF inv(2)] op by (cases op; auto)+
  then have "origins_ok out (tr @ events out op ?st) ?st'"
    using ok origins_stem [of out tr ?st ?C ?st'] by (simp add: whole_ok_def)
  moreover have "sr_inv (o_enc out) ?st'" using inv(1) by (rule sr.exec_inv)
  then have "rt_inv (o_enc out) (sr_runtime ?st')" using serv_ok_rt by (auto simp: sr_inv_def)
  with gr_ok_runtime [OF gr] from' have "gr_ok (o_enc out) ((guests_of w)\<lparr>gr_runtime := sr_runtime ?st'\<rparr>)"
    by (simp add: stems_def guests_of_def)
  ultimately show ?thesis by (simp add: whole_ok_def guests_of_def)
qed

lemma whole_guest:
  fixes e :: "'m env" and w :: "('p, 'm) whole"
  assumes ok: "whole_ok out (tr, w)" and op: "guest_op op"
  shows "whole_ok out (whole_log out e (Guest op) (tr, w)) \<and>
    (\<exists>sops. seen (whole_log out e (Guest op) (tr, w)) = fold (log_exec out) sops (tr, wh_server w))"
proof -
  let ?e = "e\<lparr>to_vec := o_enc out\<rparr>"
  let ?g = "gr_exec (o_engine out) ?e op (guests_of w)"
  let ?x = "whole_log out e (Guest op) (tr, w)" and ?evs = "whole_events out e (Guest op) w"
  have log: "log_ok out (tr, wh_server w)" using ok by (simp add: whole_ok_def)
  have "gr_ok (to_vec ?e) (guests_of w)" using ok by (simp add: whole_ok_def)
  from guest_step [OF this op, of "o_engine out"] have gr: "gr_ok (o_enc out) ?g"
    and "refines (o_engine out) (o_enc out) (sr_runtime (wh_server w)) (gr_runtime ?g)"
    by (simp_all add: guests_of_def)
  then obtain rops where rops: "list_all task_op rops"
    "gr_runtime ?g = fold (rt_exec (o_engine out) (o_enc out)) rops (sr_runtime (wh_server w))"
    unfolding refines_def by blast
  from task_ops_logged [OF rops(1), of out tr "wh_server w" "o_engine out"] obtain sops where
    sops: "fold (log_exec out) sops (tr, wh_server w) =
      (tr @ map Queued (new_control (sr_out (wh_server w)) (rt_out (gr_runtime ?g))),
       on_runtime (\<lambda>_. gr_runtime ?g) (wh_server w))"
    unfolding rops(2) by auto
  then have seen: "seen ?x = fold (log_exec out) sops (tr, wh_server w)"
    using op by simp
  have "log_ok out (fold (log_exec out) sops (tr, wh_server w))" by (rule lg.run_inv [OF log])
  then have "log_ok out (seen ?x)" unfolding seen .
  moreover have "stems (asked out tr) (sr_runtime (wh_server w)) (gr_runtime ?g)"
  proof -
    have "stems C r (fold (rt_exec eng enc) ops r)" if "list_all task_op ops" for C eng enc ops and r :: "'p runtime"
      using that
    proof (induction ops arbitrary: r)
      case (Cons x ops)
      have "stems C r (rt_exec eng enc x r)"
        using Cons.prems from_task [of C r enc] stems_act [of C r enc] by (cases x) simp_all
      with Cons show ?case by (auto intro: stems_trans)
    qed simp
    from this [OF rops(1)] show ?thesis unfolding rops(2) .
  qed
  then have "origins_ok out (tr @ ?evs) (on_runtime (\<lambda>_. gr_runtime ?g) (wh_server w))"
    using ok origins_stem [of out tr "wh_server w" "asked out tr" "on_runtime (\<lambda>_. gr_runtime ?g) (wh_server w)"]
    by (simp add: whole_ok_def)
  ultimately show ?thesis
    using seen gr op by (auto simp: whole_ok_def)
qed

lemma whole_step:
  "whole_ok out x \<Longrightarrow> whole_ok out (whole_log out e op x) \<and>
    (\<exists>sops. seen (whole_log out e op x) = fold (log_exec out) sops (seen x))"
proof -
  assume ok: "whole_ok out x"
  obtain tr w where x: "x = (tr, w)" by fastforce
  show ?thesis
  proof (cases op)
    case (Session sop)
    show ?thesis
    proof (cases "acts sop")
      case True
      with ok x Session show ?thesis by (auto intro: exI [of _ "[]"])
    next
      case False
      with ok x Session whole_session [of out tr w sop] show ?thesis
        by (auto intro: exI [of _ "[sop]"])
    qed
  next
    case (Guest gop)
    show ?thesis
    proof (cases "guest_op gop")
      case True
      with whole_guest [of out tr w gop e] ok x Guest show ?thesis by simp
    next
      case False
      with ok x Guest show ?thesis by (auto intro: exI [of _ "[]"])
    qed
  qed
qed

lemma whole_ok_new: "whole_ok out ([], whole_new s b)"
proof -
  have "gr_ok (o_enc out) (guests_new s)" by (rule gr_ok_new)
  then show ?thesis
    using log_ok_new [of out s b]
    by (simp add: whole_ok_def whole_new_def guests_of_def guests_new_def server_new_def service_new_def
        origins_ok_def runtime_new_def)
qed

interpretation wh: refining "\<lambda>x. x = ([], whole_new s b)" "whole_log out e" "whole_ok out"
  "\<lambda>x. x = ([], server_new s b)" "log_exec out" "log_ok out" seen for s b out e
proof unfold_locales
  show "whole_ok out x" if "x = ([], whole_new s b)" for x :: "event list \<times> ('a, 'b) whole"
    using that whole_ok_new by blast
  show "whole_ok out (whole_log out e op x)" if "whole_ok out x" for op x
    using whole_step [OF that] by blast
  show "seen x = ([], server_new s b)" if "x = ([], whole_new s b)" for x :: "event list \<times> ('a, 'b) whole"
    using that by (simp add: whole_new_def)
  show "\<exists>sops. seen (whole_log out e op x) = fold (log_exec out) sops (seen x)" if "whole_ok out x" for op x
    using whole_step [OF that] by blast
qed

section \<open>Properties\<close>

text \<open>
  C21: the program with real guests refines the session with abstract guest actions, log and
  all: whatever its guests call and its futures do, the program shows a log and is in a state
  of its session that a session without guests' programs shows as well. So the properties of
  every session hold with guests.
\<close>

theorem whole_refines_session:
  "\<exists>sops. seen (wlog out e s b ops) = slog out s b sops"
  using wh.view_reach [where ops = ops and out = out and e = e, OF refl]
  unfolding fst_conv snd_conv whole_new_def whole.simps .

text \<open>
  C7: a host call has the authority its client gave. In every run of the program with guests, a
  host call in flight belongs to an object with a capability of the name the request asks
  for, all of whose pinned arguments the request's arguments have, and the request names that
  object; the object's capabilities are those some load request in the input asked for, and
  the guest's context holds exactly them, and at most 128 handles.
\<close>

theorem host_calls_authorised_by_client:
  assumes run: "wlog out e s b ops = (tr, w)"
    and c: "map_of (wcalls (sv_world (sr_service (wh_server w)))) j = Some c"
  shows "\<exists>ob g args n ms now q elf config.
    heap (sr_runtime (wh_server w)) (cobject c) = Some ob \<and> g \<in> set (ob_caps ob) \<and>
    (\<forall>(k, v) \<in> set (cap_arguments g). \<exists>x. vget args k = Some x \<and> value_eq x v) \<and>
    crequest c = call_request n (cobject c) (cap_name g) args ms now \<and>
    q \<in> set (requests_in (o_parse out) (over_log routed_by tr)) \<and> rq_method q = ''sf.object.load'' \<and>
    d_load (o_decoders out) (rq_params q) = Inr (elf, config, ob_caps ob) \<and>
    (\<forall>cl. wh_cells w (cobject c) = Some cl \<longrightarrow>
       capabilities (cl_guest cl) = ob_caps ob \<and> length (handles (cl_guest cl)) \<le> 128)"
proof -
  have ok: "whole_ok out (tr, w)" using wh.conc.reach_inv [OF refl, of out e ops s b] run by simp
  then have gr: "gr_ok (o_enc out) (guests_of w)" by (simp add: whole_ok_def)
  with c have "call_granted (sr_runtime (wh_server w)) c" by (simp add: gr_ok_def guests_of_def)
  then obtain ob g cap args n ms now where g: "heap (sr_runtime (wh_server w)) (cobject c) = Some ob"
    "g \<in> set (ob_caps ob)" "grants g cap args" "crequest c = call_request n (cobject c) cap args ms now"
    unfolding call_granted_def by blast
  have "asked out tr (ob_caps ob)" using ok g(1) unfolding whole_ok_def origins_ok_def by simp
  moreover have "cap_name g = cap" "\<forall>(k, v) \<in> set (cap_arguments g). \<exists>x. vget args k = Some x \<and> value_eq x v"
    using g(3) by (auto simp: grants_def list_all_iff split: option.splits)
  moreover have "capabilities (cl_guest cl) = ob_caps ob \<and> length (handles (cl_guest cl)) \<le> 128"
    if "wh_cells w (cobject c) = Some cl" for cl
  proof -
    have "cell_ok (sr_runtime (wh_server w)) (wh_next w) (cobject c) cl"
      using gr that by (simp add: gr_ok_def guests_of_def)
    with g(1) show ?thesis by (simp add: cell_ok_def guest_ok_def MAX_HANDLES_def)
  qed
  moreover obtain q elf config where "q \<in> set (requests_in (o_parse out) (over_log routed_by tr))"
    "rq_method q = ''sf.object.load''" "d_load (o_decoders out) (rq_params q) = Inr (elf, config, ob_caps ob)"
    using calculation(1) unfolding asked_def by blast
  ultimately show ?thesis using g by blast
qed

section \<open>A run with a guest\<close>

text \<open>
  The client initializes the session, loads an object with one capability and starts it; its
  program takes its configuration and makes a host call with it.
\<close>

definition guest_parse :: parser where
  "guest_parse b =
     (if b = [CHR ''L'', newline] then Inr (jobj [(''id'', String ''a''), (''jsonrpc'', String ''2.0''), (''method'', String ''sf.object.load'')])
      else if b = [CHR ''S'', newline] then Inr (jobj [(''id'', String ''a''), (''jsonrpc'', String ''2.0''), (''method'', String ''sf.object.start'')])
      else demo_parse b)"

definition guest_outside :: "unit outside" where
  "guest_outside = demo_outside\<lparr>o_parse := guest_parse,
     o_decoders := demo_decoders\<lparr>d_load := (\<lambda>_. Inr (''elf'', calling_config, calling_caps)), d_base64 := Inr, d_id := (\<lambda>_. Inr ''o1'')\<rparr>\<rparr>"

definition guest_request :: "string \<Rightarrow> request" where
  "guest_request m = \<lparr>rq_id = ''a'', rq_method = m, rq_params = Object [], rq_permit = True\<rparr>"

definition guest_service ::
    "outbox \<Rightarrow> (string \<Rightarrow> unit object option) \<Rightarrow> string list \<Rightarrow> u64 \<Rightarrow> (u64 \<times> bytes \<times> json \<times> capability list) list \<Rightarrow> unit service" where
  "guest_service q hp reg nx ld = (service_new ''s'')\<lparr>sv_initialized := True,
     sv_runtime := (runtime_new ''s'')\<lparr>heap := hp, registered := reg, rnext := nx, loading := ld,
       rworld := (world_new ''s'')\<lparr>wout := q\<rparr>\<rparr>\<rparr>"

lemma guest_service_fields [simp]:
  "sv_ids (guest_service q hp reg nx ld) = []" "sv_slots (guest_service q hp reg nx ld) = 48"
  "sv_tasks (guest_service q hp reg nx ld) = []" "sv_shutdown (guest_service q hp reg nx ld) = False"
  "sv_initialized (guest_service q hp reg nx ld) = True" "sv_out (guest_service q hp reg nx ld) = q"
  by (simp_all add: guest_service_def service_new_def REQUEST_SLOTS_def)

definition guest_server :: "stage \<Rightarrow> unit service \<Rightarrow> unit server" where
  "guest_server sg sv = (server_new ''s'' some_builds)\<lparr>sr_service := sv, sr_stage := (\<lambda>_. NotPolled)(''a'' := sg)\<rparr>"

abbreviation reply_queued :: "outbox \<Rightarrow> outbox" where
  "reply_queued \<equiv> push_control (''{}'' @ [newline])"

lemma guest_finish:
  assumes "m \<noteq> ''sf.shutdown''" "\<not> oclosed q" "length (control q) < 64"
  shows "request_finish tiny_enc (guest_request m) res (accepted (guest_request m) (guest_service q hp reg nx ld)) =
    (True, guest_service (reply_queued q) hp reg nx ld)"
  using assms
  by (simp add: request_finish_def request_drop_def accepted_def guest_request_def outbox_control_def control_bytes_def
      encode_def tiny_enc_def outbox_limits Let_def guest_service_def service_new_def REQUEST_SLOTS_def)

lemma guest_asks:
  assumes "route tiny_enc guest_parse [c, newline] sv = (True, accepted rq sv)" "\<not> sv_shutdown sv" "\<not> oclosed (sv_out sv)"
    and "c \<noteq> newline"
  shows "fold (serve_exec guest_outside) [Input (Inr [c, newline]), main_runs] (guest_server NotPolled sv) =
    guest_server NotPolled (accepted rq sv)"
proof -
  have "frame_poll [] [Inr [c, newline]] = (Some (FrameBytes [c, newline]), [c, newline], [])"
    using assms(4) by (simp add: MAX_FRAME_def)
  with assms(1-3) show ?thesis
    by (simp add: guest_outside_def demo_outside_def guest_server_def server_new_def main_poll_def select_poll_def Let_def)
qed

lemma guest_routes:
  "route enc guest_parse [CHR ''L'', newline] (guest_service q hp reg nx ld) =
     (True, accepted (guest_request ''sf.object.load'') (guest_service q hp reg nx ld))"
  "route enc guest_parse [CHR ''S'', newline] (guest_service q hp reg nx ld) =
     (True, accepted (guest_request ''sf.object.start'') (guest_service q hp reg nx ld))"
  by (simp_all add: route_def guest_parse_def accept_request_def accepted_def guest_request_def vget_jobj newline_def jobj_def)

lemma guest_poll:
  assumes "task_of ''a'' sv = Some rq"
  shows "serve_exec guest_outside (ReqPoll ''a'' wk) (guest_server sg sv) =
    request_poll (o_engine guest_outside) (o_decoders guest_outside) (o_env guest_outside) (o_build guest_outside)
      (o_enc guest_outside) wk rq (guest_server sg sv)"
  using assms by (simp add: guest_server_def server_new_def)

lemma guest_waits:
  assumes "rq_id rq = ''a''" "task_of ''a'' sv = Some rq"
    and "request_segment guest_outside wk rq (guest_server sg sv) = (Some sg', sv')" "\<forall>res. sg' \<noteq> Answering res"
  shows "serve_exec guest_outside (ReqPoll ''a'' wk) (guest_server sg sv) = guest_server sg' sv'"
  unfolding guest_poll [OF assms(2)] request_poll_segment assms(3)
  using assms by (cases sg') (simp_all add: guest_server_def)

lemma guest_answers:
  assumes "rq_id rq = ''a''" "task_of ''a'' sv = Some rq"
    and "request_segment guest_outside wk rq (guest_server sg sv) = (Some (Answering res), sv1)"
    and "request_finish tiny_enc rq res sv1 = (True, sv2)" "\<not> sv_shutdown sv2" "\<not> oclosed (sv_out sv2)"
  shows "fold (serve_exec guest_outside) [ReqPoll ''a'' wk, main_runs] (guest_server sg sv) = guest_server NotPolled sv2"
proof -
  have enc: "o_enc guest_outside = tiny_enc" by (simp add: guest_outside_def demo_outside_def)
  have "serve_exec guest_outside (ReqPoll ''a'' wk) (guest_server sg sv) = task_over rq None sv2 (guest_server sg sv)"
    unfolding guest_poll [OF assms(2)] request_poll_segment assms(3)
    by (simp add: answer_request_def enc assms(4))
  moreover have "serve_exec guest_outside main_runs (task_over rq None sv2 (guest_server sg sv)) = guest_server NotPolled sv2"
    using assms by (simp add: task_over_def guest_server_def server_new_def main_poll_def select_poll_def fun_upd_idem_iff)
  ultimately show ?thesis by simp
qed

lemma guest_task: "task_of ''a'' (accepted (guest_request m) (guest_service q hp reg nx ld)) = Some (guest_request m)"
  by (simp add: task_of_def accepted_def guest_request_def)

lemma guest_fields [simp]:
  "rq_id (guest_request m) = ''a''" "rq_method (guest_request m) = m" "rq_params (guest_request m) = Object []"
  by (simp_all add: guest_request_def)

abbreviation guest_object :: "unit object" where
  "guest_object \<equiv> object_new ''o1'' ''00'' () calling_config calling_caps"

abbreviation guest_started :: "unit object" where
  "guest_started \<equiv> guest_object\<lparr>ob_state := Starting, ob_phase := Spawned, ob_task := True\<rparr>"

abbreviation guest_accepts where
  "guest_accepts m q hp reg nx ld \<equiv> accepted (guest_request m) (guest_service q hp reg nx ld)"

abbreviation guest_load :: "u64 \<times> bytes \<times> json \<times> capability list" where
  "guest_load \<equiv> (1, ''elf'', calling_config, calling_caps)"

lemma guest_segments:
  "request_segment guest_outside NotReady (guest_request ''sf.object.load'')
     (guest_server NotPolled (guest_accepts ''sf.object.load'' q (\<lambda>_. None) [] 0 [])) =
   (Some (Loading 1), guest_accepts ''sf.object.load'' q (\<lambda>_. None) [] 1 [guest_load])"
  "\<exists>res. request_segment guest_outside LoaderReady (guest_request ''sf.object.load'')
     (guest_server (Loading 1) (guest_accepts ''sf.object.load'' q (\<lambda>_. None) [] 1 [guest_load])) =
   (Some (Answering res), guest_accepts ''sf.object.load'' q [''o1'' \<mapsto> guest_object] [''o1''] 1 [])"
  "\<exists>res. request_segment guest_outside NotReady (guest_request ''sf.object.start'')
     (guest_server NotPolled (guest_accepts ''sf.object.start'' q [''o1'' \<mapsto> guest_object] [''o1''] 1 [])) =
   (Some (Answering res), guest_accepts ''sf.object.start'' q [''o1'' \<mapsto> guest_started] [''o1''] 1 [])"
  by (simp_all add: request_segment_def guest_server_def start_request_def service_handle_def dispatch_def
      guest_outside_def demo_outside_def demo_decoders_def accepted_def guest_service_def service_new_def
      method_load_def method_start_def decode_def load_begin_def calling_valid checked_inc_def
      advance_request_def load_index_def load_finish_def load_remove_def demo_engine_def demo_object_id
      runtime_start_def runtime_get_def object_new_def Let_def)

text \<open>The session up to the start of the object, and what its program does then.\<close>

definition guest_session :: "serve_op list" where
  "guest_session =
     [Input (Inr [CHR ''4'', newline]), main_runs] @ [ReqPoll ''a'' NotReady, main_runs] @
     [Input (Inr [CHR ''L'', newline]), main_runs] @ [ReqPoll ''a'' NotReady] @ [ReqPoll ''a'' LoaderReady, main_runs] @
     [Input (Inr [CHR ''S'', newline]), main_runs] @ [ReqPoll ''a'' NotReady, main_runs]"

definition guest_ops :: "bytes whole_op list" where
  "guest_ops = map Session guest_session @ map Guest
     [Enter ''o1'' ''kv'' 0, Help ''o1'' 4 0 0 0 0 0 0, Help ''o1'' 7 0 2 1 5 0 0, Drive ''o1'' False 0]"

definition guest_outbox :: outbox where
  "guest_outbox = reply_queued (reply_queued (reply_queued outbox_new))"

lemma guest_outbox_simps [simp]:
  "oclosed (push_control x q) = oclosed q" "length (control (push_control x q)) = Suc (length (control q))"
  "\<not> oclosed outbox_new" "control outbox_new = []"
  by (simp_all add: push_control_def outbox_new_def)

lemma guest_init_asked:
  "fold (serve_exec guest_outside) [Input (Inr [CHR ''4'', newline]), main_runs] (server_new ''s'' some_builds) =
   guest_server NotPolled (accepted init_request (service_new ''s''))"
proof -
  have server: "server_new ''s'' some_builds = guest_server NotPolled (service_new ''s'')"
    by (simp add: guest_server_def server_new_def fun_upd_def)
  have route: "route tiny_enc guest_parse [CHR ''4'', newline] (service_new ''s'') = (True, accepted init_request (service_new ''s'' :: unit service))"
    using demo_control_routes(1) [of "service_new ''s'' :: unit service" tiny_enc]
    by (simp add: route_def guest_parse_def service_new_def REQUEST_SLOTS_def)
  show ?thesis
    unfolding server by (rule guest_asks [OF route]) (simp_all add: service_new_def runtime_new_def world_new_def outbox_new_def newline_def)
qed

lemma guest_initialized:
  "fold (serve_exec guest_outside) ([Input (Inr [CHR ''4'', newline]), main_runs] @ [ReqPoll ''a'' NotReady, main_runs])
     (server_new ''s'' some_builds) = guest_server NotPolled (guest_service (reply_queued outbox_new) (\<lambda>_. None) [] 0 [])"
proof -
  have ready: "demo_ready ''s'' = guest_service (reply_queued outbox_new) (\<lambda>_. None) [] 0 []"
    by (simp add: demo_ready_def demo_done_def guest_service_def service_new_def runtime_new_def world_new_def)
  have task: "task_of ''a'' (accepted init_request (service_new ''s'' :: unit service)) = Some init_request"
    "rq_id init_request = ''a''"
    by (simp_all add: task_of_def accepted_def init_request_def)
  obtain res where seg: "request_segment guest_outside NotReady init_request (guest_server NotPolled (accepted init_request (service_new ''s''))) =
    (Some (Answering res), (accepted init_request (service_new ''s''))\<lparr>sv_initialized := True\<rparr>)"
    by (simp add: request_segment_def guest_server_def start_request_def service_handle_def guest_outside_def
        demo_outside_def demo_decoders_def accepted_def init_request_def service_new_def decode_def)
  show ?thesis
    unfolding fold_append o_apply guest_init_asked ready [symmetric]
    by (rule guest_answers [OF task(2,1) seg demo_init_finish]) simp_all
qed

lemma guest_load_asked:
  "fold (serve_exec guest_outside) [Input (Inr [CHR ''L'', newline]), main_runs]
     (guest_server NotPolled (guest_service (reply_queued outbox_new) (\<lambda>_. None) [] 0 [])) =
   guest_server NotPolled (guest_accepts ''sf.object.load'' (reply_queued outbox_new) (\<lambda>_. None) [] 0 [])"
  by (rule guest_asks [OF guest_routes(1)]) (simp_all add: newline_def)

lemma guest_load_begun:
  "fold (serve_exec guest_outside) [ReqPoll ''a'' NotReady]
     (guest_server NotPolled (guest_accepts ''sf.object.load'' q (\<lambda>_. None) [] 0 [])) =
   guest_server (Loading 1) (guest_accepts ''sf.object.load'' q (\<lambda>_. None) [] 1 [guest_load])"
  using guest_waits [OF guest_fields(1) guest_task guest_segments(1)] by simp

lemma guest_ready:
  "fold (serve_exec guest_outside) guest_session (server_new ''s'' some_builds) =
   guest_server NotPolled (guest_service guest_outbox [''o1'' \<mapsto> guest_started] [''o1''] 1 [])"
proof -
  let ?q1 = "reply_queued outbox_new"
  let ?q2 = "reply_queued ?q1"
  have 4: "fold (serve_exec guest_outside) [ReqPoll ''a'' LoaderReady, main_runs]
      (guest_server (Loading 1) (guest_accepts ''sf.object.load'' ?q1 (\<lambda>_. None) [] 1 [guest_load])) =
      guest_server NotPolled (guest_service ?q2 [''o1'' \<mapsto> guest_object] [''o1''] 1 [])"
    using guest_segments(2) [of ?q1]
    by (elim exE, intro guest_answers [OF guest_fields(1) guest_task _ guest_finish]) simp_all
  have 5: "fold (serve_exec guest_outside) [Input (Inr [CHR ''S'', newline]), main_runs]
      (guest_server NotPolled (guest_service ?q2 [''o1'' \<mapsto> guest_object] [''o1''] 1 [])) =
      guest_server NotPolled (guest_accepts ''sf.object.start'' ?q2 [''o1'' \<mapsto> guest_object] [''o1''] 1 [])"
    by (rule guest_asks [OF guest_routes(2)]) (simp_all add: newline_def)
  have 6: "fold (serve_exec guest_outside) [ReqPoll ''a'' NotReady, main_runs]
      (guest_server NotPolled (guest_accepts ''sf.object.start'' ?q2 [''o1'' \<mapsto> guest_object] [''o1''] 1 [])) =
      guest_server NotPolled (guest_service (reply_queued ?q2) [''o1'' \<mapsto> guest_started] [''o1''] 1 [])"
    using guest_segments(3) [of ?q2]
    by (elim exE, intro guest_answers [OF guest_fields(1) guest_task _ guest_finish]) simp_all
  show ?thesis
    unfolding guest_session_def guest_outbox_def fold_append o_apply
      guest_initialized [unfolded fold_append o_apply] guest_load_asked guest_load_begun 4 5 6 by (rule refl)
qed

lemma whole_log_fst_snd: "snd (fold (whole_log out e) ops (tr, w)) = fold (whole_exec out e) ops w"
  by (induction ops arbitrary: tr w) simp_all

lemma whole_exec_session:
  "list_all (\<lambda>op. \<not> acts op) ops \<Longrightarrow>
   fold (whole_exec out e) (map Session ops) w = w\<lparr>wh_server := fold (serve_exec out) ops (wh_server w)\<rparr>"
  by (induction ops arbitrary: w) simp_all

lemma whole_exec_guests:
  "list_all guest_op ops \<Longrightarrow> guests_of (fold (whole_exec out e) (map Guest ops) w) =
     fold (gr_exec (o_engine out) (e\<lparr>to_vec := o_enc out\<rparr>)) ops (guests_of w)"
  by (induction ops arbitrary: w) simp_all

lemma guest_call:
  "\<exists>c. map_of (wcalls (sv_world (sr_service (wh_server (snd
      (wlog guest_outside (flat_env 0) ''s'' some_builds guest_ops)))))) (call_id ''s'' 1) = Some c \<and> cobject c = ''o1''"
proof -
  let ?E = "whole_exec guest_outside (flat_env 0)" and ?G = "gr_exec demo_engine (flat_env 0)"
  let ?w = "\<lparr>wh_server = guest_server NotPolled (guest_service guest_outbox [''o1'' \<mapsto> guest_started] [''o1''] 1 []),
      wh_cells = (\<lambda>_. None), wh_next = 1\<rparr>"
  let ?gops = "[Enter ''o1'' ''kv'' 0, Help ''o1'' 4 0 0 0 0 0 0, Help ''o1'' 7 0 2 1 5 0 0, Drive ''o1'' False 0]"
  have out: "o_engine guest_outside = demo_engine" "(flat_env 0)\<lparr>to_vec := o_enc guest_outside\<rparr> = flat_env 0"
    by (simp_all add: guest_outside_def demo_outside_def flat_env_def)
  have "?G (Enter ''o1'' ''kv'' 0) (guests_of ?w) = calling_state guest_outbox ''none'' [] 1 None"
    by (simp add: guests_of_def guest_server_def server_new_def enter_def task_poll_def task_started_def object_new_def
      guest_service_def service_new_def calling_state_def guest_new_def runtime_new_def Let_def flat_env_def)
  then have gops: "fold ?G ?gops (guests_of ?w) = ?G (Drive ''o1'' False 0)
      (calling_state guest_outbox ''host_rpc'' [(1, Json calling_config)] 2 (Some (CallTask ''o1'' ''kv'' calling_config 5)))"
    by (simp only: fold_simps id_apply o_apply calling_helpers)
  have "fold ?E guest_ops (whole_new ''s'' some_builds) = fold ?E (map Guest ?gops) ?w"
    unfolding guest_ops_def fold_append o_apply
    by (subst whole_exec_session) (simp_all only: whole_new_def whole.simps guest_ready, simp_all add: guest_session_def)
  then have "guests_of (fold ?E guest_ops (whole_new ''s'' some_builds)) = fold ?G ?gops (guests_of ?w)"
    using whole_exec_guests [of ?gops guest_outside "flat_env 0" ?w] unfolding out by simp
  then have "sr_runtime (wh_server (fold ?E guest_ops (whole_new ''s'' some_builds))) = gr_runtime (?G (Drive ''o1'' False 0)
      (calling_state guest_outbox ''host_rpc'' [(1, Json calling_config)] 2 (Some (CallTask ''o1'' ''kv'' calling_config 5))))"
    unfolding gops by (metis guests.select_convs(1) guests_of_def)
  with calling_call [of guest_outbox] show ?thesis unfolding whole_log_fst_snd by simp
qed

theorem host_calls_authorised_by_client_witness:
  "\<exists>c q elf config caps. let (tr, w) = wlog guest_outside (flat_env 0) ''s'' some_builds guest_ops in
     map_of (wcalls (sv_world (sr_service (wh_server w)))) (call_id ''s'' 1) = Some c \<and> cobject c = ''o1'' \<and>
     q \<in> set (requests_in guest_parse (over_log routed_by tr)) \<and> rq_method q = ''sf.object.load'' \<and>
     d_load (o_decoders guest_outside) (rq_params q) = Inr (elf, config, caps)"
proof -
  obtain tr w where run: "wlog guest_outside (flat_env 0) ''s'' some_builds guest_ops = (tr, w)" by fastforce
  with guest_call obtain c where c: "map_of (wcalls (sv_world (sr_service (wh_server w)))) (call_id ''s'' 1) = Some c"
    "cobject c = ''o1''" by auto
  have "o_parse guest_outside = guest_parse" by (simp add: guest_outside_def)
  with host_calls_authorised_by_client [OF run c(1)] c show ?thesis unfolding run by fastforce
qed

end
