(* ===== verification/Workers.thy ===== *)
theory Workers
  imports Prelude
begin

text \<open>
  The threads on which programs are loaded: \<^verbatim>\<open>TokioTimeslicer\<close> of \<^verbatim>\<open>src/runtime.rs\<close> and
  \<^verbatim>\<open>CompilerTimeslicer\<close> of \<^verbatim>\<open>src/build/compiler.rs\<close>.

  \<^verbatim>\<open>run_blocking\<close> takes a permit of the semaphore \<^verbatim>\<open>workers\<close> and moves it into the closure it
  spawns, so the permit is given back when the closure ends on its thread, not when the future
  that awaits it is dropped. When the semaphore gives a free permit, and to which of the
  futures that wait, is the outside's choice, a flag of the step; it never gives more than it
  has. A closure counts as working from its spawning on; \<^verbatim>\<open>main\<close> lets Tokio run two of them at
  a time, and those that wait for one of these two threads are among them. A closure that
  panics is not modelled: the loader's result is a value.
\<close>

section \<open>Blocking work\<close>

text \<open>Who waits: a load, async-ebpf while it runs a program, or a build.\<close>

datatype job =
    ForLoad u64
  | ForProgram nat
  | ForBuild nat

text \<open>Where the future of \<^verbatim>\<open>run_blocking\<close> is suspended.\<close>

datatype waiting = Acquiring | Joining

record pool =
  pl_free :: nat
  pl_working :: "job list"
  pl_compiling :: "job list"
  pl_futures :: "job \<Rightarrow> waiting option"

definition workers :: nat where
  "workers = 2"

definition pool_new :: pool where
  "pool_new = \<lparr>pl_free = workers, pl_working = [], pl_compiling = [], pl_futures = (\<lambda>_. None)\<rparr>"

definition acquire :: "bool \<Rightarrow> job \<Rightarrow> pool \<Rightarrow> pool" where
  "acquire given j p =
     (if given \<and> 0 < pl_free p
      then p\<lparr>pl_free := pl_free p - 1, pl_working := pl_working p @ [j],
             pl_futures := (pl_futures p)(j \<mapsto> Joining)\<rparr>
      else p\<lparr>pl_futures := (pl_futures p)(j \<mapsto> Acquiring)\<rparr>)"

text \<open>A poll of \<^verbatim>\<open>run_blocking\<close>, and whether it is ready. The first one is that with no future yet.\<close>

definition run_blocking_poll :: "bool \<Rightarrow> job \<Rightarrow> pool \<Rightarrow> bool \<times> pool" where
  "run_blocking_poll given j p =
     (case pl_futures p j of
        Some Joining \<Rightarrow>
          if j \<in> set (pl_working p) then (False, p)
          else (True, p\<lparr>pl_futures := (pl_futures p)(j := None)\<rparr>)
      | _ \<Rightarrow> (False, acquire given j p))"

text \<open>The compiler's, which takes no permit.\<close>

definition compiler_blocking_poll :: "job \<Rightarrow> pool \<Rightarrow> bool \<times> pool" where
  "compiler_blocking_poll j p =
     (case pl_futures p j of
        None \<Rightarrow> (False, p\<lparr>pl_compiling := pl_compiling p @ [j], pl_futures := (pl_futures p)(j \<mapsto> Joining)\<rparr>)
      | Some _ \<Rightarrow>
          if j \<in> set (pl_compiling p) then (False, p)
          else (True, p\<lparr>pl_futures := (pl_futures p)(j := None)\<rparr>))"

text \<open>The closure ends; its permit is dropped with it.\<close>

definition work_ends :: "job \<Rightarrow> pool \<Rightarrow> pool" where
  "work_ends j p =
     (if j \<in> set (pl_working p)
      then p\<lparr>pl_working := remove1 j (pl_working p), pl_free := Suc (pl_free p)\<rparr>
      else p\<lparr>pl_compiling := remove1 j (pl_compiling p)\<rparr>)"

text \<open>The future is dropped: it no longer waits, but a closure on its thread goes on.\<close>

definition future_drop :: "job \<Rightarrow> pool \<Rightarrow> pool" where
  "future_drop j p = p\<lparr>pl_futures := (pl_futures p)(j := None)\<rparr>"

section \<open>The permits\<close>

definition pool_ok :: "pool \<Rightarrow> bool" where
  "pool_ok p \<longleftrightarrow> pl_free p + length (pl_working p) = workers"

lemma pool_ok_ops [simp]:
  "pool_ok pool_new" "pool_ok p \<Longrightarrow> pool_ok (acquire g j p)" "pool_ok p \<Longrightarrow> pool_ok (snd (run_blocking_poll g j p))"
  "pool_ok p \<Longrightarrow> pool_ok (snd (compiler_blocking_poll j p))" "pool_ok p \<Longrightarrow> pool_ok (work_ends j p)"
  "pool_ok p \<Longrightarrow> pool_ok (future_drop j p)"
proof -
  have remove: "Suc (length (remove1 j xs)) = length xs" if "j \<in> set xs" for xs :: "job list"
    using that length_pos_if_in_set [OF that] by (simp add: length_remove1)
  show "pool_ok p \<Longrightarrow> pool_ok (work_ends j p)"
    using remove [of "pl_working p"] by (auto simp: pool_ok_def work_ends_def)
qed (auto simp: pool_ok_def pool_new_def acquire_def run_blocking_poll_def compiler_blocking_poll_def future_drop_def
    split: option.split waiting.split)

lemma futures_ops [simp]:
  "pl_futures (acquire g j p) = (pl_futures p)(j \<mapsto> if g \<and> 0 < pl_free p then Joining else Acquiring)"
  "pl_futures (work_ends j p) = pl_futures p"
  "pl_futures (future_drop j p) = (pl_futures p)(j := None)"
  by (auto simp: acquire_def work_ends_def future_drop_def)

lemma futures_poll:
  "run_blocking_poll g j p = (d, p') \<Longrightarrow> k \<noteq> j \<Longrightarrow> pl_futures p' k = pl_futures p k"
  "run_blocking_poll g j p = (d, p') \<Longrightarrow> pl_futures p' j = None \<longleftrightarrow> d"
  "pl_futures p j = None \<Longrightarrow> run_blocking_poll g j p = (False, acquire g j p)"
  by (auto simp: run_blocking_poll_def split: option.splits waiting.splits if_splits)

end
