(* ===== verification/Loader.thy ===== *)
theory Loader
  imports Whole Workers
begin

text \<open>
  The session whose loads wait for the threads of \<open>Workers\<close>: every load in flight is
  suspended in a future of the pool and belongs to one request, whatever else happens, and
  none waits for ever.
\<close>

section \<open>The session and its loads\<close>

text \<open>
  \<^verbatim>\<open>load\<close> awaits \<^verbatim>\<open>run_blocking\<close>: a request in the stage \<open>Loading n\<close> is suspended in the future of
  \<open>ForLoad n\<close>, so whether its load is ready is told by the pool. Loads that have begun in a
  step poll their future for the first time in the same step, and those that were dropped drop
  it.
\<close>

record 'p pooled =
  ps_server :: "'p server"
  ps_pool :: pool

definition serials :: "'p server \<Rightarrow> u64 list" where
  "serials st = map fst (loading (sv_runtime (sr_service st)))"

definition pool_follow :: "bool \<Rightarrow> u64 list \<Rightarrow> u64 list \<Rightarrow> pool \<Rightarrow> pool" where
  "pool_follow given old new p =
     fold (\<lambda>n p. snd (run_blocking_poll given (ForLoad n) p)) (filter (\<lambda>n. n \<notin> set old) new)
       (fold (\<lambda>n. future_drop (ForLoad n)) (filter (\<lambda>n. n \<notin> set new) old) p)"

definition awaits_load :: "serve_op \<Rightarrow> 'p server \<Rightarrow> u64 option" where
  "awaits_load op st =
     (case op of
        ReqPoll i wk \<Rightarrow>
          if sr_phase st = Serving \<and> task_of i (sr_service st) \<noteq> None
          then (case sr_stage st i of Loading n \<Rightarrow> Some n | _ \<Rightarrow> None) else None
      | _ \<Rightarrow> None)"

definition with_ready :: "bool \<Rightarrow> serve_op \<Rightarrow> serve_op" where
  "with_ready d op = (case op of ReqPoll i wk \<Rightarrow> ReqPoll i (if d then LoaderReady else NotReady) | _ \<Rightarrow> op)"

definition serve_pooled :: "'p outside \<Rightarrow> bool \<Rightarrow> serve_op \<Rightarrow> 'p pooled \<Rightarrow> 'p pooled" where
  "serve_pooled out given op x =
     (let st = ps_server x;
          (op, p) = (case awaits_load op st of
             None \<Rightarrow> (op, ps_pool x)
           | Some n \<Rightarrow> (case run_blocking_poll given (ForLoad n) (ps_pool x) of (d, p) \<Rightarrow> (with_ready d op, p)));
          st' = serve_exec out op st
      in \<lparr>ps_server = st', ps_pool = pool_follow given (serials st) (serials st') p\<rparr>)"

text \<open>async-ebpf and the builds wait for threads as well; a program's \<open>k\<close> is a new number.\<close>

datatype pooled_op =
    Serve serve_op bool
  | WorkEnds job
  | ProgramPoll nat bool
  | BuildPoll nat
  | Dropped job

fun pooled_exec :: "'p outside \<Rightarrow> pooled_op \<Rightarrow> 'p pooled \<Rightarrow> 'p pooled" where
  "pooled_exec out (Serve op given) x = serve_pooled out given op x"
| "pooled_exec out (WorkEnds j) x = x\<lparr>ps_pool := work_ends j (ps_pool x)\<rparr>"
| "pooled_exec out (ProgramPoll k given) x = x\<lparr>ps_pool := snd (run_blocking_poll given (ForProgram k) (ps_pool x))\<rparr>"
| "pooled_exec out (BuildPoll k) x = x\<lparr>ps_pool := snd (compiler_blocking_poll (ForBuild k) (ps_pool x))\<rparr>"
| "pooled_exec out (Dropped j) x =
     (case j of ForLoad n \<Rightarrow> x | _ \<Rightarrow> x\<lparr>ps_pool := future_drop j (ps_pool x)\<rparr>)"

definition pooled_new :: "string \<Rightarrow> builds \<Rightarrow> 'p pooled" where
  "pooled_new s b = \<lparr>ps_server = server_new s b, ps_pool = pool_new\<rparr>"

section \<open>Loads and the requests that wait for them\<close>

text \<open>Every load in flight has one request that waits for it, and every request that waits has its load.\<close>

definition loads_ok :: "'p server \<Rightarrow> bool" where
  "loads_ok st \<longleftrightarrow>
     (\<forall>i n. sr_stage st i = Loading n \<longrightarrow> n \<in> set (serials st)) \<and>
     (\<forall>i j n. sr_stage st i = Loading n \<longrightarrow> sr_stage st j = Loading n \<longrightarrow> i = j)"

lemma loads_quiet:
  "loads_ok st \<Longrightarrow> sr_stage st' = sr_stage st \<Longrightarrow> serials st' = serials st \<Longrightarrow> loads_ok st'"
  by (simp add: loads_ok_def)

abbreviation sv_serials :: "'p service \<Rightarrow> u64 list" where
  "sv_serials sv \<equiv> map fst (loading (sv_runtime sv))"

lemma loading_stop: "loading (snd (runtime_stop_poll enc i u r)) = loading r"
  by (auto simp: runtime_stop_poll_def object_stop_poll_def Let_def split: option.split)

lemma loading_stop_eq: "runtime_stop_poll enc i u r = (d, r') \<Longrightarrow> loading r' = loading r"
  using loading_stop [of enc i u r] by simp

lemma loading_dispatch:
  assumes "rt_inv enc r" "dispatch d env enc m params r = (x, r')"
  shows "case x of WaitLoad n \<Rightarrow> map fst (loading r') = map fst (loading r) @ [n] \<and> n \<notin> fst ` set (loading r)
    | _ \<Rightarrow> loading r' = loading r"
proof -
  have begun: "n \<notin> fst ` set (loading r) \<and> map fst (loading r') = map fst (loading r) @ [n]"
    if "load_begin enc elf config caps r = (Inr n, r')" for n elf config caps r'
    using that assms(1) unfolding rt_inv_def ids_ok_def
    by (fastforce simp: load_begin_def dest!: unat_checked_inc split: if_splits option.splits)
  have refuse: "load_begin enc elf config caps r = (Inl e, r') \<Longrightarrow> loading r' = loading r" for e elf config caps r'
    by (auto simp: load_begin_def split: if_splits option.splits)
  have stop: "runtime_stop enc i u r = (y, r') \<Longrightarrow> loading r' = loading r" for i u y r'
    using loading_stop [of enc i u r] by (auto simp: runtime_stop_def split: sum.splits)
  have start: "runtime_start i r = (y, r') \<Longrightarrow> loading r' = loading r" for i y r'
    by (auto simp: runtime_start_def Let_def split: sum.splits option.splits if_splits)
  have deliver: "runtime_deliver enc i v r = (y, r') \<Longrightarrow> loading r' = loading r" for i v y r'
    by (auto simp: runtime_deliver_def split: sum.splits prod.splits)
  show ?thesis
    using assms(2)
    by (auto simp: dispatch_def method_load_def method_start_def method_stop_def method_deliver_def method_get_def
        method_list_def decode_def dest: begun refuse stop start deliver
        split: if_splits sum.splits prod.splits option.splits poll.splits)
qed

lemma loading_finish: "loading (snd (load_finish e k r)) = take k (loading r) @ drop (Suc k) (loading r)"
  by (auto simp: load_finish_def load_remove_def Let_def split: prod.split sum.split)

lemma load_indexed: "n \<in> fst ` set (loading r) \<Longrightarrow> load_index n r < length (loading r)"
proof (rule ccontr)
  assume "n \<in> fst ` set (loading r)" "\<not> load_index n r < length (loading r)"
  moreover from this(2) have "takeWhile (\<lambda>x. fst x \<noteq> n) (loading r) = loading r"
    by (metis load_index_def not_less take_all takeWhile_eq_take)
  ultimately show False unfolding takeWhile_eq_all_conv by auto
qed

lemma loading_segment:
  assumes inv: "sr_inv (o_enc out) st" and s: "request_segment out wk q st = (x, sv)"
  shows "case sr_stage st (rq_id q) of
      NotPolled \<Rightarrow> (\<forall>n. x = Some (Loading n) \<longrightarrow> sv_serials sv = serials st @ [n] \<and> n \<notin> set (serials st)) \<and>
        ((\<forall>n. x \<noteq> Some (Loading n)) \<longrightarrow> sv_serials sv = serials st)
    | Loading n \<Rightarrow> (wk = LoaderReady \<longrightarrow> n \<notin> set (serials st)) \<and> x = Some (Loading n) \<and> sv_serials sv = serials st \<or>
        wk = LoaderReady \<and> (\<exists>res. x = Some (Answering res)) \<and> n \<notin> set (sv_serials sv) \<and> set (serials st) \<subseteq> insert n (set (sv_serials sv))
    | _ \<Rightarrow> (\<forall>n. x \<noteq> Some (Loading n)) \<and> sv_serials sv = serials st"
proof (cases "sr_stage st (rq_id q)")
  case NotPolled
  with s have start: "start_request (o_decoders out) (o_env out) (o_build out) (o_enc out) q st = (x, sv)"
    by (simp add: request_segment_def)
  have inv': "rt_inv (o_enc out) (sv_runtime (sr_service st))" using inv serv_ok_rt by (auto simp: sr_inv_def)
  obtain ms r where d: "dispatch (o_decoders out) (o_env out) (o_enc out) (rq_method q) (rq_params q) (sv_runtime (sr_service st)) = (ms, r)"
    by fastforce
  note d' = loading_dispatch [OF inv' d]
  show ?thesis
  proof (cases "service_handle (o_decoders out) (o_env out) (o_enc out) (rq_method q) (rq_params q) (sr_service st)")
    case (Pair ms' sv')
    have "ms' = ms \<and> sv_runtime sv' = r \<or> (\<exists>res. ms' = Answer res) \<and> sv_runtime sv' = sv_runtime (sr_service st)"
      using Pair d by (auto simp: service_handle_def split: if_splits sum.splits)
    with start Pair d' NotPolled show ?thesis
      by (auto simp: start_request_def serials_def split: method_step.splits sum.splits)
  qed
next
  case (Loading n)
  let ?r = "sv_runtime (sr_service st)"
  let ?k = "load_index n ?r"
  have inv': "rt_inv (o_enc out) ?r" using inv serv_ok_rt by (auto simp: sr_inv_def)
  show ?thesis
  proof (cases "wk = LoaderReady \<and> ?k < length (loading ?r)")
    case True
    obtain res r' where f: "load_finish (o_engine out) ?k ?r = (res, r')" by fastforce
    have "x = Some (Answering res)" "sv_serials sv = map fst (loading r')"
      using s Loading True f by (auto simp: request_segment_def advance_request_def Let_def)
    moreover have n: "fst (loading ?r ! ?k) = n"
      using True nth_length_takeWhile [of "\<lambda>x. fst x \<noteq> n" "loading ?r"] by (simp add: load_index_def)
    moreover have "loading r' = take ?k (loading ?r) @ drop (Suc ?k) (loading ?r)"
      using loading_finish [of "o_engine out" ?k ?r] f by simp
    moreover have "set (loading ?r) \<subseteq> insert (loading ?r ! ?k) (set (take ?k (loading ?r) @ drop (Suc ?k) (loading ?r)))"
      using True id_take_nth_drop [of ?k "loading ?r"] by (metis Un_insert_right list.simps(15) order_refl set_append)
    moreover have "n \<notin> fst ` set (take ?k (loading ?r) @ drop (Suc ?k) (loading ?r))"
      using load_finish_fresh(2) [OF inv', of ?k] True n by auto
    ultimately show ?thesis using Loading True by (auto simp: serials_def)
  next
    case False
    then have "wk = LoaderReady \<longrightarrow> n \<notin> fst ` set (loading ?r)"
      using load_indexed [of n ?r] by blast
    with False s Loading show ?thesis
      by (auto simp: request_segment_def advance_request_def Let_def serials_def split: wake.splits)
  qed
qed (use s in \<open>auto simp: request_segment_def advance_request_def serials_def Let_def split: prod.splits poll.splits wake.splits dest: loading_stop_eq\<close>)

lemma loads_change:
  assumes "loads_ok st" "\<forall>i. i \<noteq> k \<longrightarrow> sr_stage st' i = sr_stage st i"
    and "\<forall>n \<in> set (serials st). sr_stage st k \<noteq> Loading n \<longrightarrow> n \<in> set (serials st')"
    and "\<forall>n. sr_stage st' k = Loading n \<longrightarrow> n \<in> set (serials st') \<and> (sr_stage st k = Loading n \<or> n \<notin> set (serials st))"
  shows "loads_ok st'"
  using assms unfolding loads_ok_def by metis

lemma request_serials:
  fixes out :: "'p outside"
  assumes s: "request_segment out wk q st = (x, sv)"
  defines "st' \<equiv> request_poll (o_engine out) (o_decoders out) (o_env out) (o_build out) (o_enc out) wk q st"
  shows "serials st' = sv_serials sv" "i \<noteq> rq_id q \<Longrightarrow> sr_stage st' i = sr_stage st i"
    "sr_stage st' (rq_id q) = Loading n \<Longrightarrow> x = Some (Loading n)"
proof -
  have finish: "loading (sv_runtime (snd (request_finish enc q res sv))) = loading (sv_runtime sv)"
    for enc res and sv :: "'p service"
    by (simp add: request_finish_def request_drop_def Let_def split: prod.split poll.split)
  have "serials (answer_request enc q res sv st) = sv_serials sv \<and>
      (\<forall>i. i \<noteq> rq_id q \<longrightarrow> sr_stage (answer_request enc q res sv st) i = sr_stage st i) \<and>
      (\<forall>n. sr_stage (answer_request enc q res sv st) (rq_id q) \<noteq> Loading n)" for enc res
    using finish [of enc res sv] by (auto simp: answer_request_def task_over_def serials_def split: prod.split bool.split)
  then have "serials st' = sv_serials sv \<and> (\<forall>i. i \<noteq> rq_id q \<longrightarrow> sr_stage st' i = sr_stage st i) \<and>
    (\<forall>n. sr_stage st' (rq_id q) = Loading n \<longrightarrow> x = Some (Loading n))"
    unfolding st'_def request_poll_segment s
    by (cases "\<exists>res. x = Some (Answering res)")
      (auto simp: task_over_def serials_def request_drop_def split: option.split stage.split)
  then show "serials st' = sv_serials sv" "i \<noteq> rq_id q \<Longrightarrow> sr_stage st' i = sr_stage st i"
    "sr_stage st' (rq_id q) = Loading n \<Longrightarrow> x = Some (Loading n)" by auto
qed

lemma loads_request:
  fixes out :: "'p outside"
  assumes inv: "sr_inv (o_enc out) st" and ok: "loads_ok st"
  shows "loads_ok (request_poll (o_engine out) (o_decoders out) (o_env out) (o_build out) (o_enc out) wk q st)"
    (is "loads_ok ?st'")
proof -
  obtain x sv where s: "request_segment out wk q st = (x, sv)" by fastforce
  obtain ns where ns: "sv_serials sv = ns" by blast
  note seg = loading_segment [OF inv s, unfolded ns]
  have "\<forall>n \<in> set (serials st). sr_stage st (rq_id q) \<noteq> Loading n \<longrightarrow> n \<in> set ns"
    "\<forall>n. x = Some (Loading n) \<longrightarrow> n \<in> set ns \<and> (sr_stage st (rq_id q) = Loading n \<or> n \<notin> set (serials st))"
  proof -
    show "\<forall>n \<in> set (serials st). sr_stage st (rq_id q) \<noteq> Loading n \<longrightarrow> n \<in> set ns"
    proof (cases "sr_stage st (rq_id q)")
      case NotPolled
      with seg have "ns = serials st \<or> (\<exists>n. ns = serials st @ [n])" by fastforce
      then show ?thesis by (metis Un_iff set_append)
    qed (use seg in auto)
    show "\<forall>n. x = Some (Loading n) \<longrightarrow> n \<in> set ns \<and> (sr_stage st (rq_id q) = Loading n \<or> n \<notin> set (serials st))"
    proof (cases "sr_stage st (rq_id q)")
      case (Loading n)
      with seg ok show ?thesis unfolding loads_ok_def by auto
    qed (use seg in auto)
  qed
  moreover have "serials ?st' = ns" "\<forall>i. i \<noteq> rq_id q \<longrightarrow> sr_stage ?st' i = sr_stage st i"
    "\<forall>n. sr_stage ?st' (rq_id q) = Loading n \<longrightarrow> x = Some (Loading n)"
    using request_serials [OF s] unfolding ns by blast+
  ultimately show ?thesis by (intro loads_change [OF ok, of "rq_id q"]) simp_all
qed

lemma loading_route: "loading (sv_runtime (snd (route enc parse b sv))) = loading (sv_runtime sv)"
proof (cases rule: route_cases [of enc parse b sv])
  case (refused i e)
  then show ?thesis
    by (cases "try_control enc (response i (Inl e)) (sv_out sv)") (auto simp: refuse_def)
qed (simp_all add: accepted_def)

lemma loading_shutdown: "loading (snd (shutdown_poll ids r)) = loading r"
proof (induction ids r rule: shutdown_poll.induct)
  case (2 i ids r)
  obtain d r1 where o: "object_stop_poll i r = (d, r1)" by fastforce
  moreover from o have "loading r1 = loading r"
    by (auto simp: object_stop_poll_def Let_def split: option.splits if_splits)
  ultimately show ?case using "2.IH" by (cases d) auto
qed simp

lemma loads_main:
  assumes ok: "loads_ok st"
  shows "loads_ok (main_poll enc parse t i l st)"
proof -
  have objects: "sr_stage (objects_poll enc ids st') = sr_stage st'"
    "serials (objects_poll enc ids st') = serials st'" for ids and st' :: "'a server"
    using loading_shutdown [of ids "sv_runtime (sr_service st')"]
    by (auto simp: objects_poll_def close_output_def serials_def Let_def split: prod.split)
  show ?thesis
  proof (cases "sr_phase st")
    case Serving
    show ?thesis
    proof (cases rule: select_cases [of enc parse t i st])
      case (routed b f r go sv st')
      with Serving loading_route [of enc parse b "sr_service st"] show ?thesis
        by (intro loads_quiet [OF ok]) (simp_all add: main_poll_def leave_def serials_def)
    qed (use Serving ok in \<open>auto intro!: loads_quiet [OF ok] simp: main_poll_def leave_def serials_def\<close>)
  next
    case Leaving
    then show ?thesis by (simp add: main_poll_def loads_ok_def)
  next
    case Joined
    then show ?thesis
      by (intro loads_quiet [OF ok])
        (auto simp: main_poll_def objects [unfolded serials_def] serials_def shutdown_begin_def split: prod.split)
  qed (use ok in \<open>auto intro!: loads_quiet [OF ok] simp: main_poll_def objects [unfolded serials_def] flush_poll_def serials_def
      split: write_state.split option.split\<close>)
qed

lemma loads_exec:
  assumes inv: "sr_inv (o_enc out) st" and ok: "loads_ok st"
  shows "loads_ok (serve_exec out op st)"
proof (cases op)
  case (ReqPoll i wk)
  with loads_request [OF inv ok] ok show ?thesis by (auto split: option.split)
next
  case (Output pick x)
  then show ?thesis
    by (intro loads_quiet [OF ok]) (auto simp: output_poll_def serials_def split: serve_phase.split prod.split)
next
  case (MainPoll t i l)
  with loads_main [OF ok] show ?thesis by simp
qed (use ok in \<open>auto intro!: loads_quiet [OF ok] simp: serials_def task_world_only\<close>)

section \<open>The invariant\<close>

definition pooled_ok :: "'p outside \<Rightarrow> 'p pooled \<Rightarrow> bool" where
  "pooled_ok out x \<longleftrightarrow> sr_inv (o_enc out) (ps_server x) \<and> loads_ok (ps_server x) \<and> pool_ok (ps_pool x) \<and>
     (\<forall>n. pl_futures (ps_pool x) (ForLoad n) \<noteq> None \<longleftrightarrow> n \<in> set (serials (ps_server x)))"

lemma dropped_futures:
  "pl_futures (fold (\<lambda>n. future_drop (ForLoad n)) ns p) (ForLoad n) =
     (if n \<in> set ns then None else pl_futures p (ForLoad n))"
  by (induction ns arbitrary: p) auto

lemma begun_futures:
  assumes "distinct ns" "\<forall>n \<in> set ns. pl_futures p (ForLoad n) = None"
  shows "pl_futures (fold (\<lambda>n p. snd (run_blocking_poll g (ForLoad n) p)) ns p) (ForLoad n) \<noteq> None \<longleftrightarrow>
    n \<in> set ns \<or> pl_futures p (ForLoad n) \<noteq> None"
  using assms
proof (induction ns arbitrary: p)
  case (Cons m ns)
  let ?p = "acquire g (ForLoad m) p"
  have "snd (run_blocking_poll g (ForLoad m) p) = ?p" using Cons.prems by (simp add: futures_poll(3))
  moreover have "\<forall>n \<in> set ns. pl_futures ?p (ForLoad n) = None" using Cons.prems by auto
  ultimately show ?case using Cons.IH [of ?p] Cons.prems(1) by auto
qed simp

lemma follow_ok:
  assumes "pool_ok p"
  shows "pool_ok (pool_follow g old new p)"
proof -
  have "pool_ok (fold (\<lambda>n. future_drop (ForLoad n)) ns q)" if "pool_ok q" for ns q
    using that by (induction ns arbitrary: q) simp_all
  moreover have "pool_ok (fold (\<lambda>n q. snd (run_blocking_poll g (ForLoad n) q)) ns q)" if "pool_ok q" for ns q
    using that by (induction ns arbitrary: q) simp_all
  ultimately show ?thesis using assms by (simp add: pool_follow_def)
qed

lemma follow_futures:
  assumes "distinct new" "\<forall>n. n \<in> set new \<longrightarrow> n \<in> set old \<longrightarrow> pl_futures p (ForLoad n) \<noteq> None"
    and "\<forall>n. n \<notin> set old \<longrightarrow> pl_futures p (ForLoad n) = None"
  shows "pl_futures (pool_follow g old new p) (ForLoad n) \<noteq> None \<longleftrightarrow> n \<in> set new"
  unfolding pool_follow_def
  by (subst begun_futures) (use assms in \<open>auto simp: dropped_futures simp del: not_None_eq\<close>)

lemma pooled_session:
  assumes ok: "pooled_ok out x"
  shows "pooled_ok out (serve_pooled out g op x) \<and>
    (\<exists>op'. ps_server (serve_pooled out g op x) = serve_exec out op' (ps_server x))"
proof -
  let ?st = "ps_server x"
  obtain op' p where op': "(case awaits_load op ?st of None \<Rightarrow> (op, ps_pool x)
      | Some n \<Rightarrow> (case run_blocking_poll g (ForLoad n) (ps_pool x) of (d, p) \<Rightarrow> (with_ready d op, p))) = (op', p)"
    by fastforce
  let ?st' = "serve_exec out op' ?st"
  have st: "sr_inv (o_enc out) ?st" "loads_ok ?st" "pool_ok (ps_pool x)"
    and futures: "\<And>n. pl_futures (ps_pool x) (ForLoad n) \<noteq> None \<longleftrightarrow> n \<in> set (serials ?st)"
    using ok by (simp_all add: pooled_ok_def)
  have st': "sr_inv (o_enc out) ?st'" "loads_ok ?st'" using sr.exec_inv [OF st(1)] loads_exec [OF st(1,2)] by auto
  then have "rt_inv (o_enc out) (sv_runtime (sr_service ?st'))" using serv_ok_rt by (auto simp: sr_inv_def)
  then have "distinct (serials ?st')" by (simp add: serials_def rt_inv_def ids_ok_def)
  moreover have "pool_ok p \<and> (\<forall>n. n \<in> set (serials ?st') \<longrightarrow> n \<in> set (serials ?st) \<longrightarrow> pl_futures p (ForLoad n) \<noteq> None) \<and>
    (\<forall>n. n \<notin> set (serials ?st) \<longrightarrow> pl_futures p (ForLoad n) = None)"
  proof (cases "awaits_load op ?st")
    case None
    with op' have "p = ps_pool x" by simp
    with st futures show ?thesis by blast
  next
    case (Some n)
    obtain d where d: "run_blocking_poll g (ForLoad n) (ps_pool x) = (d, p)" "op' = with_ready d op"
      using op' Some by (auto split: prod.splits)
    from Some obtain i wk q where o: "op = ReqPoll i wk" "task_of i (sr_service ?st) = Some q" "sr_phase ?st = Serving" "sr_stage ?st i = Loading n"
      by (auto simp: awaits_load_def split: serve_op.splits if_splits stage.splits)
    have n: "n \<in> set (serials ?st)" using st(2) o(4) by (simp add: loads_ok_def)
    have id: "rq_id q = i" using task_ofD [OF o(2)] by simp
    let ?wk = "if d then LoaderReady else NotReady"
    obtain y sv where s: "request_segment out ?wk q ?st = (y, sv)" by fastforce
    have "serials ?st' = sv_serials sv"
      using request_serials(1) [OF s] o d(2) by (simp add: with_ready_def)
    moreover have "if d then n \<notin> set (sv_serials sv) else sv_serials sv = serials ?st"
      using loading_segment [OF st(1) s] n o(4) id by auto
    moreover have "pool_ok p" using pool_ok_ops(3) [OF st(3), of g "ForLoad n"] d(1) by simp
    moreover have "pl_futures p (ForLoad n) = None \<longleftrightarrow> d" "m \<noteq> n \<Longrightarrow> pl_futures p (ForLoad m) = pl_futures (ps_pool x) (ForLoad m)" for m
      using futures_poll(1,2) [OF d(1)] by auto
    ultimately show ?thesis using futures n by (metis (full_types))
  qed
  ultimately have "pool_ok (pool_follow g (serials ?st) (serials ?st') p) \<and>
    (\<forall>n. pl_futures (pool_follow g (serials ?st) (serials ?st') p) (ForLoad n) \<noteq> None \<longleftrightarrow> n \<in> set (serials ?st'))"
    using follow_ok follow_futures by blast
  moreover have "serve_pooled out g op x = \<lparr>ps_server = ?st', ps_pool = pool_follow g (serials ?st) (serials ?st') p\<rparr>"
    unfolding serve_pooled_def Let_def op' by simp
  ultimately show ?thesis using st' by (auto simp: pooled_ok_def simp del: not_None_eq)
qed

lemma pooled_exec_ok:
  assumes ok: "pooled_ok out x"
  shows "pooled_ok out (pooled_exec out op x) \<and>
    (\<exists>ops. ps_server (pooled_exec out op x) = fold (serve_exec out) ops (ps_server x))"
proof (cases op)
  case (Serve sop g)
  with pooled_session [OF ok, of g sop] show ?thesis by (auto intro: exI [of _ "[_]"])
next
  case (ProgramPoll k g)
  with ok futures_poll(1) [of g "ForProgram k" "ps_pool x"] show ?thesis
    by (cases "run_blocking_poll g (ForProgram k) (ps_pool x)")
      (auto simp: pooled_ok_def simp del: not_None_eq dest: pool_ok_ops(3) [of _ g "ForProgram k"] intro: exI [of _ "[]"])
next
  case (BuildPoll k)
  have "pl_futures (snd (compiler_blocking_poll (ForBuild k) p)) (ForLoad n) = pl_futures p (ForLoad n)" for p n
    by (auto simp: compiler_blocking_poll_def split: option.split)
  with ok BuildPoll show ?thesis by (auto simp: pooled_ok_def simp del: not_None_eq intro: exI [of _ "[]"])
next
  case (Dropped j)
  with ok show ?thesis by (cases j) (auto simp: pooled_ok_def simp del: not_None_eq intro: exI [of _ "[]"])
qed (use ok in \<open>auto simp: pooled_ok_def simp del: not_None_eq intro: exI [of _ "[]"]\<close>)

lemma pooled_ok_new: "pooled_ok out (pooled_new s b :: 'a pooled)"
proof -
  have "loads_ok (server_new s b :: 'a server)" "serials (server_new s b :: 'a server) = []"
    by (simp_all add: loads_ok_def server_new_def serials_def service_new_def runtime_new_def)
  moreover have "pl_futures pool_new = (\<lambda>_. None)" by (simp add: pool_new_def)
  ultimately show ?thesis by (simp add: pooled_ok_def pooled_new_def sr_inv_new)
qed

interpretation pd: refining "\<lambda>x. x = pooled_new s b" "pooled_exec out" "pooled_ok out"
  "\<lambda>st. st = server_new s b" "serve_exec out" "sr_inv (o_enc out)" ps_server for s b out
  by unfold_locales (use pooled_exec_ok in \<open>auto simp: pooled_ok_new, simp add: pooled_new_def\<close>)

abbreviation pooled_run :: "'p outside \<Rightarrow> string \<Rightarrow> builds \<Rightarrow> pooled_op list \<Rightarrow> 'p pooled" where
  "pooled_run out s b ops \<equiv> fold (pooled_exec out) ops (pooled_new s b)"

section \<open>Properties\<close>

text \<open>
  C13: at most two programs are on the loader's threads at a time. In every run, however
  requests are aborted and programs are stopped while a thread works for them, the permits
  that are free and those the threads hold are two; and exactly the loads in flight are
  suspended in the pool, so none is lost and none is left behind.
\<close>

theorem loads_share_two_threads:
  "let x = pooled_run out s b ops in
     pl_free (ps_pool x) + length (pl_working (ps_pool x)) = 2 \<and>
     {n. pl_futures (ps_pool x) (ForLoad n) \<noteq> None} = set (serials (ps_server x))"
proof -
  have "pooled_ok out (pooled_run out s b ops)" by (rule pd.conc.reach_inv) (rule refl)
  then show ?thesis unfolding pooled_ok_def pool_ok_def workers_def Let_def by blast
qed

lemma work_ends_all:
  "pl_working p = js \<Longrightarrow> pool_ok p \<Longrightarrow>
   pl_working (fold work_ends js p) = [] \<and> pl_free (fold work_ends js p) = workers \<and>
   pl_futures (fold work_ends js p) = pl_futures p"
proof (induction js arbitrary: p)
  case (Cons j js)
  then have "pl_working (work_ends j p) = js" by (simp add: work_ends_def)
  from Cons.IH [OF this] Cons.prems show ?case by simp
qed (simp add: pool_ok_def)

lemma pooled_ends: "fold (pooled_exec out) (map WorkEnds js) x = x\<lparr>ps_pool := fold work_ends js (ps_pool x)\<rparr>"
  by (induction js arbitrary: x) simp_all

lemma load_ready:
  assumes ok: "pooled_ok out x" and st: "sr_phase (ps_server x) = Serving" "task_of i (sr_service (ps_server x)) = Some q"
      "sr_stage (ps_server x) i = Loading n"
    and d: "run_blocking_poll g (ForLoad n) (ps_pool x) = (True, p)"
  shows "n \<notin> set (serials (ps_server (pooled_exec out (Serve (ReqPoll i wk) g) x)))"
proof -
  let ?st = "ps_server x"
  obtain y sv where s: "request_segment out LoaderReady q ?st = (y, sv)" by fastforce
  have "rq_id q = i" using task_ofD [OF st(2)] by simp
  moreover have "n \<in> set (serials ?st)" using ok st(3) by (simp add: pooled_ok_def loads_ok_def)
  ultimately have "n \<notin> set (sv_serials sv)" using loading_segment [OF _ s] ok st(3) by (auto simp: pooled_ok_def)
  moreover have "ps_server (pooled_exec out (Serve (ReqPoll i wk) g) x) = serve_exec out (ReqPoll i LoaderReady) ?st"
    using st d by (simp add: serve_pooled_def awaits_load_def with_ready_def Let_def)
  ultimately show ?thesis using request_serials(1) [OF s] st by simp
qed

lemma load_granted:
  assumes st: "sr_phase (ps_server x) = Serving" "task_of i (sr_service (ps_server x)) = Some q"
      "sr_stage (ps_server x) i = Loading n"
    and inv: "pooled_ok out x"
    and d: "run_blocking_poll g (ForLoad n) (ps_pool x) = (False, p)"
  shows "let x' = pooled_exec out (Serve (ReqPoll i wk) g) x in ps_pool x' = p \<and>
    sr_phase (ps_server x') = Serving \<and> task_of i (sr_service (ps_server x')) = Some q \<and> sr_stage (ps_server x') i = Loading n"
proof -
  let ?st = "ps_server x"
  have "rq_id q = i" using task_ofD [OF st(2)] by simp
  then have "request_segment out NotReady q ?st = (Some (Loading n), sr_service ?st)"
    using st by (simp add: request_segment_def advance_request_def Let_def)
  then have "serve_exec out (ReqPoll i NotReady) ?st = ?st"
    using st \<open>rq_id q = i\<close> request_poll_segment [of out NotReady q ?st]
    by (cases "ps_server x") (simp add: fun_upd_idem)
  moreover have "pool_follow g ns ns p = p" for ns
    unfolding pool_follow_def by (simp add: filter_empty_conv [THEN iffD2])
  ultimately show ?thesis
    using st d by (simp add: serve_pooled_def awaits_load_def with_ready_def Let_def)
qed


text \<open>So what holds of the session in every run holds when its loads wait for threads.\<close>

lemma pooled_refines_session: "\<exists>sops. ps_server (pooled_run out s b ops) = fold (serve_exec out) sops (server_new s b)"
  using pd.view_reach [where ops = ops and out = out, OF refl] by (simp add: pooled_new_def)

section \<open>A load that waits\<close>

definition waiting_load :: "serve_op list" where
  "waiting_load =
     ([Input (Inr [CHR ''4'', newline]), main_runs] @ [ReqPoll ''a'' NotReady, main_runs]) @
     [Input (Inr [CHR ''L'', newline]), main_runs] @ [ReqPoll ''a'' NotReady]"

fun none_awaits :: "'p outside \<Rightarrow> serve_op list \<Rightarrow> 'p server \<Rightarrow> bool" where
  "none_awaits out [] st = True"
| "none_awaits out (op # ops) st = (awaits_load op st = None \<and> none_awaits out ops (serve_exec out op st))"

lemma pooled_none_awaits:
  "none_awaits out ops (ps_server x) \<Longrightarrow>
   ps_server (fold (pooled_exec out) (map (\<lambda>op. Serve op g) ops) x) = fold (serve_exec out) ops (ps_server x)"
  by (induction ops arbitrary: x) (simp_all add: serve_pooled_def Let_def)

lemma none_awaits_append:
  "none_awaits out (xs @ ys) st \<longleftrightarrow> none_awaits out xs st \<and> none_awaits out ys (fold (serve_exec out) xs st)"
  by (induction xs arbitrary: st) simp_all

lemma load_waits:
  "ps_server (pooled_run guest_outside ''s'' some_builds (map (\<lambda>op. Serve op False) waiting_load)) =
   guest_server (Loading 1) (guest_accepts ''sf.object.load'' (reply_queued outbox_new) (\<lambda>_. None) [] 1 [guest_load])"
proof -
  have quiet: "awaits_load (Input x) st = None" "awaits_load main_runs st = None"
    "awaits_load (ReqPoll i wk) (guest_server NotPolled sv) = None" for x i wk sv and st :: "unit server"
    by (simp_all add: awaits_load_def guest_server_def)
  have chunks: "none_awaits guest_outside waiting_load (server_new ''s'' some_builds)"
    unfolding waiting_load_def none_awaits_append fold_append o_apply guest_init_asked
      guest_initialized [unfolded fold_append o_apply guest_init_asked] guest_load_asked
    by (simp add: quiet del: serve_exec.simps)
  have "fold (serve_exec guest_outside) waiting_load (server_new ''s'' some_builds) =
      guest_server (Loading 1) (guest_accepts ''sf.object.load'' (reply_queued outbox_new) (\<lambda>_. None) [] 1 [guest_load])"
    unfolding waiting_load_def fold_append o_apply guest_init_asked
      guest_initialized [unfolded fold_append o_apply guest_init_asked] guest_load_asked guest_load_begun
    by (rule refl)
  moreover have "ps_server (pooled_new ''s'' some_builds :: unit pooled) = server_new ''s'' some_builds" by (simp add: pooled_new_def)
  ultimately show ?thesis
    using pooled_none_awaits [of guest_outside waiting_load "pooled_new ''s'' some_builds" False] chunks
    by (simp del: fold_simps)
qed


end
