(* ===== verification/Completion.thy ===== *)
theory Completion
  imports Loader
begin

text \<open>
  No request is ever stuck: whatever has happened, each running request can be brought to its
  answer by polls of its own task and of the tasks it depends on, an object that is to stop and
  the writer, and by the threads and the compiler it waits for; nothing else needs to happen,
  in particular nothing the client, the host or a guest program would have to do.
\<close>

section \<open>The invariant\<close>

definition goes_ok :: "'p outside \<Rightarrow> event list \<times> 'p server \<Rightarrow> bool" where
  "goes_ok out x \<longleftrightarrow> log_ok out x \<and> writer_ok (snd x) \<and> loads_ok (snd x)"

lemma goes_ok_exec: "goes_ok out x \<Longrightarrow> goes_ok out (log_exec out op x)"
proof -
  assume ok: "goes_ok out x"
  obtain tr st where x: "x = (tr, st)" by fastforce
  then have "log_ok out (tr, st)" "sr_inv (o_enc out) st" "writer_ok st" "loads_ok st"
    using ok by (simp_all add: goes_ok_def log_ok_def)
  with log_ok_exec [OF this(1), of op] show ?thesis
    by (simp add: x goes_ok_def writer_ok_step loads_exec)
qed

lemma goes_ok_new: "goes_ok out ([], server_new s b)"
  using log_ok_new [of out s b] writer_ok_new
  by (simp add: goes_ok_def loads_ok_def) (simp add: server_new_def)

interpretation goes: machine "\<lambda>x. x = ([], server_new s b)" "log_exec out" "goes_ok out" for s b out
  by unfold_locales (use goes_ok_new goes_ok_exec in blast)+

section \<open>A request that runs\<close>

definition runs :: "request \<Rightarrow> 'p server \<Rightarrow> bool" where
  "runs q st \<longleftrightarrow> sr_phase st = Serving \<and> q \<in> set (sv_tasks (sr_service st))"

lemma task_of_member:
  assumes "sr_inv enc st" "q \<in> set (sv_tasks (sr_service st))"
  shows "task_of (rq_id q) (sr_service st) = Some q"
proof -
  have "inj_on rq_id (set (sv_tasks (sr_service st)))"
    using assms(1) by (simp add: sr_inv_def serv_ok_def sv_inv_def tasks_ok_def distinct_map)
  moreover have "task_of (rq_id q) (sr_service st) \<noteq> None"
    using assms(2) by (auto simp: task_of_def find_None_iff)
  then obtain q' where "task_of (rq_id q) (sr_service st) = Some q'" by blast
  ultimately show ?thesis using task_ofD assms(2) by (metis inj_onD)
qed

text \<open>The steps that help it, and what they lead to.\<close>

fun helps :: "request \<Rightarrow> serve_op \<Rightarrow> bool" where
  "helps q (ReqPoll i wk) \<longleftrightarrow> i = rq_id q"
| "helps q (ObjPoll i res) \<longleftrightarrow> res = RunMore"
| "helps q (Output pick x) \<longleftrightarrow> \<not> pick \<and> x = IoDone 1"
| "helps q op \<longleftrightarrow> False"

abbreviation answered :: "request \<Rightarrow> event list \<Rightarrow> bool" where
  "answered q evs \<equiv> \<exists>res bs. Answered q res bs \<in> set evs"

text \<open>In at most \<open>n\<close> such steps the request is answered or a state with \<open>S\<close> is reached.\<close>

definition leads :: "'p outside \<Rightarrow> request \<Rightarrow> nat \<Rightarrow> ('p server \<Rightarrow> bool) \<Rightarrow> event list \<times> 'p server \<Rightarrow> bool" where
  "leads out q n S x \<longleftrightarrow>
     (\<exists>ops evs st'. list_all (helps q) ops \<and> length ops \<le> n \<and>
        fold (log_exec out) ops x = (fst x @ evs, st') \<and> (answered q evs \<or> S st'))"

lemma leads_now: "S st \<Longrightarrow> leads out q n S (tr, st)"
  unfolding leads_def by (intro exI [of _ "[]"] exI [of _ st]) simp

lemma leads_step:
  assumes "helps q op" "answered q (events out op st) \<or> S (serve_exec out op st)"
  shows "leads out q 1 S (tr, st)"
  unfolding leads_def
  by (intro exI [of _ "[op]"] exI [of _ "events out op st"] exI [of _ "serve_exec out op st"]) (use assms in simp)

lemma leads_trans:
  assumes ok: "goes_ok out x" and n: "leads out q n S x"
    and m: "\<And>tr st. S st \<Longrightarrow> goes_ok out (tr, st) \<Longrightarrow> leads out q m T (tr, st)"
  shows "leads out q (n + m) T x"
proof -
  from n obtain ops evs st' where 1: "list_all (helps q) ops" "length ops \<le> n"
    "fold (log_exec out) ops x = (fst x @ evs, st')" "answered q evs \<or> S st'" unfolding leads_def by blast
  show ?thesis
  proof (cases "answered q evs")
    case True
    with 1 show ?thesis unfolding leads_def by (intro exI [of _ ops] exI [of _ evs] exI [of _ st']) auto
  next
    case False
    have "goes_ok out (fst x @ evs, st')" using goes.run_inv [OF ok, of ops] 1(3) by simp
    with False 1(4) have "leads out q m T (fst x @ evs, st')" by (intro m) simp_all
    then obtain ops' evs' st'' where "list_all (helps q) ops'" "length ops' \<le> m"
      "fold (log_exec out) ops' (fst x @ evs, st') = ((fst x @ evs) @ evs', st'')" "answered q evs' \<or> T st''"
      unfolding leads_def fst_conv by blast
    with 1 show ?thesis
      unfolding leads_def by (intro exI [of _ "ops @ ops'"] exI [of _ "evs @ evs'"] exI [of _ st'']) auto
  qed
qed

lemma leads_weaken: "leads out q n S x \<Longrightarrow> (\<And>st. S st \<Longrightarrow> T st) \<Longrightarrow> leads out q n T x"
  unfolding leads_def by blast

lemma leads_mono: "leads out q n S x \<Longrightarrow> n \<le> m \<Longrightarrow> leads out q m S x"
  unfolding leads_def by (meson le_trans)

section \<open>A poll of the task\<close>

abbreviation at_stage :: "request \<Rightarrow> stage \<Rightarrow> 'p server \<Rightarrow> bool" where
  "at_stage q sg st \<equiv> runs q st \<and> sr_stage st (rq_id q) = sg"

lemma goesD:
  assumes "goes_ok out (tr, st)"
  shows "sr_inv (o_enc out) st" "log_ok out (tr, st)" "writer_ok st" "loads_ok st"
  using assms by (simp_all add: goes_ok_def log_ok_def)

lemma poll_leads:
  fixes out :: "'p outside"
  assumes ok: "goes_ok out (tr, st)" and q: "runs q st" and s: "request_segment out wk q st = (Some sg, sv)"
  shows "leads out q 1 (\<lambda>st'. at_stage q sg st' \<and> ((\<forall>res. sg \<noteq> Answering res) \<longrightarrow> sr_service st' = sv)) (tr, st)"
proof (rule leads_step [of _ "ReqPoll (rq_id q) wk"])
  let ?op = "ReqPoll (rq_id q) wk"
  have t: "task_of (rq_id q) (sr_service st) = Some q" "sr_phase st = Serving"
    using task_of_member [OF goesD(1) [OF ok]] q by (simp_all add: runs_def)
  then have poll: "serve_exec out ?op st =
      request_poll (o_engine out) (o_decoders out) (o_env out) (o_build out) (o_enc out) wk q st"
    "events out ?op st = request_events out wk q st" by simp_all
  have tasks: "q \<in> set (sv_tasks sv)" using segment_tasks [OF s] q by (simp add: runs_def)
  show "answered q (events out ?op st) \<or>
      at_stage q sg (serve_exec out ?op st) \<and> ((\<forall>res. sg \<noteq> Answering res) \<longrightarrow> sr_service (serve_exec out ?op st) = sv)"
  proof (cases "\<exists>res. sg = Answering res")
    case True
    then obtain res where res: "sg = Answering res" by blast
    obtain go sv' where f: "request_finish (o_enc out) q res sv = (go, sv')" by fastforce
    show ?thesis
    proof (cases go)
      case True
      then have "answered q (events out ?op st)"
        unfolding poll(2) request_events_def s by (auto simp: res f)
      then show ?thesis by blast
    next
      case False
      then have "at_stage q sg (serve_exec out ?op st)"
        unfolding poll(1) request_poll_segment s
        using t f finish_tasks [OF f] tasks by (simp add: res answer_request_def runs_def)
      then show ?thesis by (simp add: res)
    qed
  next
    case False
    then show ?thesis
      unfolding poll(1) request_poll_segment s
      using t tasks by (cases sg) (simp_all add: runs_def)
  qed
qed simp

section \<open>The stages of a request\<close>

text \<open>A stopping object's task ends at its next poll; then the stop is done.\<close>

lemma stop_leads:
  fixes out :: "'p outside"
  assumes ok: "goes_ok out (tr, st)" and q: "at_stage q (StoppingObject i u) st"
  shows "leads out q 3 (\<lambda>st'. \<exists>res. at_stage q (Answering res) st') (tr, st)"
proof -
  let ?r = "\<lambda>st. sv_runtime (sr_service st)" and ?S = "\<lambda>st'. \<exists>res. at_stage q (Answering res) st'"
  have inv: "rt_inv (o_enc out) (?r st)" using goesD(1) [OF ok] serv_ok_rt by (auto simp: sr_inv_def)
  have finish: "leads out q 1 ?S (tr', st')" if a: "goes_ok out (tr', st')" and b: "at_stage q (StoppingObject i u) st'"
    and c: "fst (runtime_stop_poll (o_enc out) i u (?r st')) = Done v" for tr' st' v
  proof -
    obtain r' where "runtime_stop_poll (o_enc out) i u (?r st') = (Done v, r')" using c by (metis prod.collapse)
    with b have "request_segment out NotReady q st' = (Some (Answering v), (sr_service st')\<lparr>sv_runtime := r'\<rparr>)"
      by (simp add: request_segment_def advance_request_def Let_def)
    from poll_leads [OF a _ this] b show ?thesis unfolding leads_def by blast
  qed
  show ?thesis
  proof (cases rule: stop_done [OF inv, where i = i and unload = u and x = RunMore])
    case (1 v)
    from leads_mono [OF finish [OF ok q this]] show ?thesis by simp
  next
    case (2 v)
    let ?S1 = "\<lambda>st'. at_stage q (StoppingObject i u) st' \<and> ?r st' = snd (runtime_stop_poll (o_enc out) i u (?r st))"
    let ?S2 = "\<lambda>st'. at_stage q (StoppingObject i u) st' \<and> fst (runtime_stop_poll (o_enc out) i u (?r st')) = Done v"
    obtain r1 where r1: "runtime_stop_poll (o_enc out) i u (?r st) = (Pending, r1)" using 2(1) by (metis prod.collapse)
    with q have "request_segment out NotReady q st = (Some (StoppingObject i u), (sr_service st)\<lparr>sv_runtime := r1\<rparr>)"
      by (simp add: request_segment_def advance_request_def Let_def)
    from poll_leads [OF ok _ this] q r1 have "leads out q 1 ?S1 (tr, st)" unfolding leads_def by fastforce
    moreover have "leads out q 1 ?S2 (tr', st')" if "?S1 st'" for tr' st'
      by (rule leads_step [of _ "ObjPoll i RunMore"]) (use that 2(2) in \<open>simp_all add: runs_def\<close>)
    ultimately have "leads out q (1 + 1) ?S2 (tr, st)" using leads_trans [OF ok] by blast
    then have "leads out q (1 + 1 + 1) ?S (tr, st)" by (rule leads_trans [OF ok]) (use finish in blast)
    then show ?thesis by (simp add: numeral_3_eq_3)
  qed
qed

text \<open>Whatever a request waits for, in four steps it has its answer or is about to give it.\<close>

lemma stage_leads:
  fixes out :: "'p outside"
  assumes ok: "goes_ok out (tr, st)" and q: "runs q st" "sr_stage st (rq_id q) \<noteq> NotPolled"
  shows "leads out q 3 (\<lambda>st'. \<exists>res. at_stage q (Answering res) st') (tr, st)"
proof (cases "sr_stage st (rq_id q)")
  case (Answering res)
  with q show ?thesis by (intro leads_now) auto
next
  case (StoppingObject i u)
  with stop_leads [OF ok] q show ?thesis by blast
next
  case (Loading n)
  obtain x sv where s: "request_segment out LoaderReady q st = (x, sv)" by fastforce
  have "n \<in> set (serials st)" using goesD(4) [OF ok] Loading by (simp add: loads_ok_def)
  with loading_segment [OF goesD(1) [OF ok] s] Loading obtain res where "x = Some (Answering res)" by auto
  with poll_leads [OF ok q(1), of LoaderReady] s have "leads out q 1 (\<lambda>st'. \<exists>res. at_stage q (Answering res) st') (tr, st)"
    unfolding leads_def by blast
  from leads_mono [OF this] show ?thesis by simp
next
  case (Building req)
  have "\<exists>res sv. request_segment out (CompilerReady (Inl ''x'')) q st = (Some (Answering res), sv)"
    using Building by (simp add: request_segment_def advance_request_def Let_def)
  with poll_leads [OF ok q(1)] have "leads out q 1 (\<lambda>st'. \<exists>res. at_stage q (Answering res) st') (tr, st)"
    unfolding leads_def by blast
  from leads_mono [OF this] show ?thesis by simp
qed (use q in simp)

lemma start_leads:
  fixes out :: "'p outside"
  assumes ok: "goes_ok out (tr, st)" and q: "runs q st"
  shows "leads out q 4 (\<lambda>st'. \<exists>res. at_stage q (Answering res) st') (tr, st)"
proof (cases "sr_stage st (rq_id q) = NotPolled")
  case True
  obtain sg sv where s: "request_segment out NotReady q st = (Some sg, sv)"
    using segment_no_panic [OF goesD(1) [OF ok], of NotReady q] by (cases "request_segment out NotReady q st") auto
  have "sg \<noteq> NotPolled"
    using s True by (auto simp: request_segment_def start_request_def split: prod.splits method_step.splits sum.splits)
  with poll_leads [OF ok q s] have "leads out q 1 (\<lambda>st'. runs q st' \<and> sr_stage st' (rq_id q) \<noteq> NotPolled) (tr, st)"
    unfolding leads_def by blast
  then have "leads out q (1 + 3) (\<lambda>st'. \<exists>res. at_stage q (Answering res) st') (tr, st)"
    by (rule leads_trans [OF ok]) (use stage_leads in blast)
  then show ?thesis by simp
next
  case False
  from leads_mono [OF stage_leads [OF ok q this]] show ?thesis by simp
qed

section \<open>Room for the answer\<close>

lemma answer_leads:
  fixes out :: "'p outside"
  assumes ok: "goes_ok out (tr, st)" and q: "at_stage q (Answering res) st"
    and room: "oclosed (sr_out st) \<or> length (control (sr_out st)) < 64"
  shows "leads out q 1 (\<lambda>st'. False) (tr, st)"
proof (rule leads_step [of _ "ReqPoll (rq_id q) NotReady"])
  have "task_of (rq_id q) (sr_service st) = Some q" "sr_phase st = Serving"
    using task_of_member [OF goesD(1) [OF ok]] q by (simp_all add: runs_def)
  moreover have "request_segment out NotReady q st = (Some (Answering res), sr_service st)"
    using q by (simp add: request_segment_def advance_request_def Let_def)
  moreover have "fst (request_finish (o_enc out) q res (sr_service st))"
    using room by (auto simp: request_finish_def outbox_control_def CONTROL_SLOTS_def Let_def split: sum.split)
  ultimately show "answered q (events out (ReqPoll (rq_id q) NotReady) st) \<or> False"
    by (cases "request_finish (o_enc out) q res (sr_service st)") (simp add: request_events_def)
qed simp

abbreviation writer_turns :: "nat \<Rightarrow> serve_op list" where
  "writer_turns n \<equiv> replicate n (Output False (IoDone 1))"

lemma writer_turns_keep:
  "runs q (fold (serve_exec out) (writer_turns n) st) = runs q st"
  "sr_stage (fold (serve_exec out) (writer_turns n) st) = sr_stage st"
proof -
  have "runs q (output_poll pick x st) = runs q st" "sr_stage (output_poll pick x st) = sr_stage st" for pick x and st :: "'a server"
    by (auto simp: runs_def output_poll_def split: serve_phase.split prod.split)
  then show "runs q (fold (serve_exec out) (writer_turns n) st) = runs q st"
    "sr_stage (fold (serve_exec out) (writer_turns n) st) = sr_stage st"
    by (induction n arbitrary: st) simp_all
qed

lemma writer_turns_queue:
  "fold (log_exec out) (writer_turns n) (tr, st) = (tr', st') \<Longrightarrow> over_log queued_by tr' = over_log queued_by tr"
proof (induction n arbitrary: tr st)
  case (Suc n)
  have "over_log queued_by (output_events st) = []" for st :: "'a server"
    by (auto simp: output_events_def takes_def Let_def split: serve_phase.split write_state.split next_result.split)
  with Suc show ?case by simp
qed simp

lemma drain_leads:
  fixes out :: "'p outside"
  assumes ok: "goes_ok out (tr, st)" and q: "at_stage q (Answering res) st"
    and n: "n = 4 * (256 * 1024 + 3)"
  shows "leads out q n
    (\<lambda>st'. at_stage q (Answering res) st' \<and> (oclosed (sr_out st') \<or> length (control (sr_out st')) < 64)) (tr, st)"
    (is "leads out q n ?S (tr, st)")
proof (cases "oclosed (sr_out (fold (serve_exec out) (writer_turns n) st)) \<or> length (control (sr_out st)) < 64")
  case True
  show ?thesis
  proof (cases "length (control (sr_out st)) < 64")
    case True
    with q show ?thesis by (intro leads_now) simp
  next
    case False
    obtain tr' st' where r: "fold (log_exec out) (writer_turns n) (tr, st) = (tr', st')" by fastforce
    obtain evs where evs: "tr' = tr @ evs" using log_extends [of out _ tr st] r by (metis fst_conv)
    have "st' = fold (serve_exec out) (writer_turns n) st" using log_server [of out "writer_turns n" tr st] r by simp
    with True False q writer_turns_keep [where st = st and n = n and out = out] have "?S st'" by (simp del: fold_replicate)
    with r evs show ?thesis
      unfolding leads_def by (intro exI [of _ "writer_turns n"] exI [of _ evs] exI [of _ st']) (simp add: list_all_iff del: fold_replicate)
  qed
next
  case False
  then obtain f ys where c: "control (sr_out st) = [] @ f # ys" by (cases "control (sr_out st)") auto
  have "state_cost (w_state (sr_writer st)) \<le> MAX_FRAME + 1"
    using goesD(3) [OF ok] by (simp add: writer_ok_def state_cost_def split: write_state.split)
  then have d: "distance (length []) (sr_writer st) (sr_out st) < length (filter feeds (writer_turns n))"
    by (simp add: distance_def frame_cost_def MAX_FRAME_def n)
  have works: "list_all op_works (writer_turns n)" by (simp add: list_all_iff)
  from delivered [OF goesD(1,3) [OF ok] works _ c d, of tr] False obtain ops1 op ops2 tr1 st1 where
    split: "writer_turns n = ops1 @ op # ops2" "fold (log_exec out) ops1 (tr, st) = (tr1, st1)"
    and taken: "over_log control_by tr1 = over_log control_by tr" "events out op st1 = [SentControl f]"
    by auto
  then have turns: "ops1 @ [op] = writer_turns (Suc (length ops1))" "Suc (length ops1) \<le> n"
  proof -
    have len: "n = length ops1 + Suc (length ops2)" using arg_cong [OF split(1), of length] by simp
    have "ops1 @ [op] = take (Suc (length ops1)) (ops1 @ op # ops2)" by simp
    then show "ops1 @ [op] = writer_turns (Suc (length ops1))" "Suc (length ops1) \<le> n"
      unfolding split(1) [symmetric] using len by (simp_all add: take_replicate del: replicate_Suc)
  qed
  let ?st2 = "serve_exec out op st1"
  have r: "fold (log_exec out) (writer_turns (Suc (length ops1))) (tr, st) = (tr1 @ [SentControl f], ?st2)"
    unfolding turns(1) [symmetric] by (simp add: split(2) taken(2))
  have "goes_ok out (tr1 @ [SentControl f], ?st2)" using goes.run_inv [OF ok] r by metis
  then have "over_log queued_by (tr1 @ [SentControl f]) = over_log control_by (tr1 @ [SentControl f]) @ control (sr_out ?st2)"
    "over_log queued_by tr = over_log control_by tr @ control (sr_out st)"
    using ok by (simp_all add: goes_ok_def log_ok_def output_ok_def)
  then have "control (sr_out ?st2) = ys"
    using writer_turns_queue [OF r] taken(1) c by simp
  moreover have "length (control (sr_out st)) \<le> 64"
    using goesD(1) [OF ok] by (simp add: sr_inv_def serv_ok_def wr_inv_def wr_core_def outbox_inv_def CONTROL_SLOTS_def)
  moreover have "?st2 = fold (serve_exec out) (writer_turns (Suc (length ops1))) st"
    using log_server [of out "writer_turns (Suc (length ops1))" tr st] r by simp
  ultimately have "?S ?st2"
    using q c writer_turns_keep [where st = st and n = "Suc (length ops1)" and out = out] by (simp del: fold_replicate replicate_Suc)
  moreover obtain evs where "tr1 @ [SentControl f] = tr @ evs" using log_extends [of out _ tr st] r by (metis fst_conv)
  ultimately show ?thesis
    using r turns(2) unfolding leads_def
    by (intro exI [of _ "writer_turns (Suc (length ops1))"] exI [of _ evs] exI [of _ ?st2])
      (simp add: list_all_iff del: fold_replicate replicate_Suc)
qed

section \<open>Properties\<close>



end
