(* ===== verification/SessionRuntime.thy ===== *)
theory SessionRuntime
  imports Loader
begin

text \<open>
  The session refines the runtime: whatever the client, the guests and the scheduler do, the
  runtime of \<open>Lifecycle\<close> takes only steps of its own. So what holds of all its runs holds in
  every run of the whole program, guests included.
\<close>

section \<open>Paths of the runtime\<close>

definition rt_path :: "'p engine \<Rightarrow> encoder \<Rightarrow> 'p runtime \<Rightarrow> 'p runtime \<Rightarrow> bool" where
  "rt_path e enc r r' \<longleftrightarrow> (\<exists>ops. fold (rt_exec e enc) ops r = r')"

lemma path_refl [simp]: "rt_path e enc r r"
  unfolding rt_path_def by (rule exI [of _ "[]"]) simp

lemma path_step: "rt_exec e enc op r = r' \<Longrightarrow> rt_path e enc r r'"
  unfolding rt_path_def by (rule exI [of _ "[op]"]) simp

lemma path_trans [trans]: "rt_path e enc r s \<Longrightarrow> rt_path e enc s t \<Longrightarrow> rt_path e enc r t"
  unfolding rt_path_def by (metis comp_apply fold_append)

lemma path_router: "router_op op \<Longrightarrow> rt_path e enc r (r\<lparr>rworld := host_exec enc op (rworld r)\<rparr>)"
  by (rule path_step [of _ _ "Router op"]) simp

lemma path_outbox:
  "op \<in> {OpControl v, OpTryControl v, OpNext, OpClose} \<Longrightarrow>
   rt_path e enc r (r\<lparr>rworld := (rworld r)\<lparr>wout := outbox_exec enc op (rt_out r)\<rparr>\<rparr>)"
  using path_router [of "HOut op" e enc r] by auto

lemma path_loads: "rt_path e enc r (r\<lparr>loading := []\<rparr>)"
proof (induction "length (loading r)" arbitrary: r)
  case 0
  then show ?case by (cases r) simp
next
  case (Suc n)
  let ?r = "load_remove 0 r"
  have "rt_path e enc r ?r" by (rule path_step [of _ _ "LoadAbort 0"]) simp
  also have "rt_path e enc ?r (?r\<lparr>loading := []\<rparr>)" using Suc by (intro Suc.hyps(1)) (simp add: load_remove_def)
  finally show ?case by (simp add: load_remove_def)
qed

section \<open>Paths of the session\<close>

lemma path_refuse: "rt_path e enc (sv_runtime sv) (sv_runtime (snd (refuse enc i x sv)))"
  using path_outbox [of "OpTryControl (response i (Inl x))" "response i (Inl x)" e enc "sv_runtime sv"]
  by (auto simp: refuse_def split: prod.split)

lemma path_route: "rt_path e enc (sv_runtime sv) (sv_runtime (snd (route enc parse b sv)))"
proof (cases rule: route_cases [of enc parse b sv])
  case (refused i x)
  with path_refuse show ?thesis by metis
next
  case (answered v)
  with path_router [of "HResponse v" e enc "sv_runtime sv"] show ?thesis by simp
qed (simp_all add: accepted_def)

lemma path_finish: "rt_path e enc (sv_runtime sv) (sv_runtime (snd (request_finish enc q res sv)))"
  using path_outbox [of "OpControl (response (String (rq_id q)) res)" "response (String (rq_id q)) res" e enc "sv_runtime sv"]
  by (auto simp: request_finish_def request_drop_def Let_def split: prod.split poll.split)

lemma path_methods: "rt_path e enc r (snd (dispatch d env enc meth params r))"
proof -
  have "load_begin enc elf config caps r = (x, r') \<Longrightarrow> rt_path e enc r r'" for elf config caps x r'
    by (rule path_step [of _ _ "LoadBegin elf config caps"]) simp
  then have "rt_path e enc r (snd (method_load d enc params r))"
    by (auto simp: method_load_def split: sum.split prod.split)
  moreover have "runtime_start i r = (x, r') \<Longrightarrow> rt_path e enc r r'" for i x r'
    by (rule path_step [of _ _ "Start i"]) simp
  then have "rt_path e enc r (snd (method_start d params r))"
    by (auto simp: method_start_def split: sum.split prod.split option.split)
  moreover have "runtime_stop enc i u r = (x, r') \<Longrightarrow> rt_path e enc r r'" for i u x r'
    by (rule path_step [of _ _ "Stop i u"]) simp
  then have "rt_path e enc r (snd (method_stop d enc u params r))" for u
    by (auto simp: method_stop_def split: sum.split prod.split poll.split)
  moreover have "runtime_deliver enc i v r = (x, r') \<Longrightarrow> rt_path e enc r r'" for i v x r'
    by (rule path_step [of _ _ "DeliverEvent i v"]) simp
  then have "rt_path e enc r (snd (method_deliver d enc params r))"
    by (auto simp: method_deliver_def split: sum.split prod.split)
  moreover have "snd (method_get d params r) = r" "snd (method_list d params r) = r"
    by (auto simp: method_get_def method_list_def split: sum.split)
  ultimately show ?thesis by (simp add: dispatch_def split: sum.split)
qed

lemma path_segment:
  fixes out :: "'p outside"
  assumes "request_segment out wk q st = (x, sv)"
  shows "rt_path (o_engine out) (o_enc out) (sv_runtime (sr_service st)) (sv_runtime sv)"
proof -
  let ?e = "o_engine out" and ?enc = "o_enc out" and ?r = "sv_runtime (sr_service st)"
  have handle: "rt_path ?e ?enc ?r (sv_runtime (snd (service_handle (o_decoders out) (o_env out) ?enc (rq_method q) (rq_params q) (sr_service st))))"
    using path_methods [of ?e ?enc ?r "o_decoders out" "o_env out" "rq_method q" "rq_params q"]
    by (auto simp: service_handle_def split: sum.split prod.split)
  have load: "load_finish ?e k ?r = (res, r') \<Longrightarrow> k < length (loading ?r) \<Longrightarrow> rt_path ?e ?enc ?r r'" for k res r'
    by (rule path_step [of _ _ "LoadFinish k"]) simp
  have stop: "runtime_stop_poll ?enc i u ?r = (y, r') \<Longrightarrow> rt_path ?e ?enc ?r r'" for i u y r'
    by (rule path_step [of _ _ "StopPoll i u"]) simp
  show ?thesis
    using assms handle load stop
    by (auto simp: request_segment_def start_request_def advance_request_def Let_def
        split: stage.splits prod.splits method_step.splits wake.splits if_splits poll.splits)
qed

lemma path_request:
  fixes out :: "'p outside"
  shows "rt_path (o_engine out) (o_enc out) (sv_runtime (sr_service st)) (sv_runtime (sr_service
    (request_poll (o_engine out) (o_decoders out) (o_env out) (o_build out) (o_enc out) wk q st)))"
proof -
  obtain x sv where s: "request_segment out wk q st = (x, sv)" by fastforce
  note seg = path_segment [OF s]
  have "rt_path (o_engine out) (o_enc out) (sv_runtime (sr_service st)) (sv_runtime (sr_service (answer_request (o_enc out) q res sv st)))" for res
    using path_trans [OF seg path_finish [of "o_engine out" "o_enc out" sv q res]]
    by (cases "request_finish (o_enc out) q res sv") (simp add: answer_request_def task_over_def split: bool.split)
  with seg show ?thesis
    unfolding request_poll_segment s by (simp add: task_over_def request_drop_def split: option.split stage.split)
qed

lemma path_objects:
  "rt_path e enc (sv_runtime (sr_service st)) (sv_runtime (sr_service (objects_poll enc ids st)))"
proof -
  obtain ids' r where p: "shutdown_poll ids (sv_runtime (sr_service st)) = (ids', r)" by fastforce
  then have "rt_path e enc (sv_runtime (sr_service st)) r" by (intro path_step [of _ _ "ShutdownPoll ids"]) simp
  moreover have "rt_path e enc r (r\<lparr>rworld := (rworld r)\<lparr>wout := outbox_close (rt_out r)\<rparr>\<rparr>)"
    using path_outbox [of OpClose _ e enc r] by simp
  ultimately show ?thesis using p path_trans by (auto simp: objects_poll_def close_output_def Let_def)
qed

lemma path_main:
  "rt_path e enc (sv_runtime (sr_service st)) (sv_runtime (sr_service (main_poll enc parse t i l st)))"
proof (cases "sr_phase st")
  case Serving
  show ?thesis
  proof (cases rule: select_cases [of enc parse t i st])
    case (routed b f r go sv st')
    from path_route [of e enc "sr_service st" parse b] routed Serving show ?thesis
      by (simp add: main_poll_def leave_def)
  qed (use Serving in \<open>simp_all add: main_poll_def leave_def\<close>)
next
  case Leaving
  have "sv_runtime (fold request_drop qs sv) = sv_runtime sv" for qs and sv :: "'a service"
    by (induction qs arbitrary: sv) simp_all
  with Leaving path_loads show ?thesis by (simp add: main_poll_def abort_tasks_def Let_def)
next
  case Joined
  obtain ids r where b: "shutdown_begin (sv_runtime (sr_service st)) = (ids, r)" by fastforce
  then have "rt_path e enc (sv_runtime (sr_service st)) r" by (intro path_step [of _ _ ShutdownBegin]) simp
  with path_objects [of e enc "st\<lparr>sr_service := (sr_service st)\<lparr>sv_runtime := r\<rparr>\<rparr>" ids] Joined b show ?thesis
    by (auto simp: main_poll_def intro: path_trans)
next
  case (StopObjects ids)
  with path_objects show ?thesis by (simp add: main_poll_def)
next
  case Flushing
  then show ?thesis by (simp add: main_poll_def flush_poll_def split: write_state.split option.split)
next
  case (Over x)
  then show ?thesis by (simp add: main_poll_def)
qed

lemma path_output:
  "rt_path e enc (sv_runtime (sr_service st)) (sv_runtime (sr_service (output_poll pick x st)))"
proof -
  let ?r = "sv_runtime (sr_service st)"
  have "rt_path e enc ?r (?r\<lparr>rworld := (rworld ?r)\<lparr>wout := snd (writer_step pick x (sr_writer st) (rt_out ?r))\<rparr>\<rparr>)"
  proof (cases "w_state (sr_writer st)")
    case WTake
    with path_outbox [of OpNext _ e enc ?r] show ?thesis
      by (auto simp: writer_step_def take_step_def split: next_result.split prod.split)
  next
    case WWait
    then show ?thesis by (simp add: writer_step_def wake_step_def)
  next
    case (WWrite b)
    with path_outbox [of OpClose _ e enc ?r] show ?thesis
      by (auto simp: writer_step_def write_step_def write_error_def split: io.split)
  next
    case WFlush
    with path_outbox [of OpClose _ e enc ?r] show ?thesis
      by (auto simp: writer_step_def flush_step_def write_error_def split: io.split)
  qed (simp_all add: writer_step_def)
  then show ?thesis by (auto simp: output_poll_def split: serve_phase.split prod.split)
qed

lemma path_exec:
  "rt_path (o_engine out) (o_enc out) (sv_runtime (sr_service st)) (sv_runtime (sr_service (serve_exec out op st)))"
proof (cases op)
  case (MainPoll t i l)
  with path_main show ?thesis by simp
next
  case (ReqPoll i wk)
  with path_request [of out st wk] show ?thesis by (simp split: option.split)
next
  case (ObjPoll i res)
  have "rt_path (o_engine out) (o_enc out) r (task_poll (o_enc out) i res r)" for r
    by (rule path_step [of _ _ "Poll i res"]) simp
  with ObjPoll show ?thesis by simp
next
  case (GuestAct i a)
  have "rt_path (o_engine out) (o_enc out) r (guest_acts (o_enc out) i a r)" for r
    by (rule path_step [of _ _ "Act i a"]) simp
  with GuestAct show ?thesis by simp
next
  case (Output pick x)
  with path_output show ?thesis by simp
qed simp

text \<open>The session as a refinement of the runtime, and of the whole program through it.\<close>

interpretation srt: refining "\<lambda>st. st = server_new s b" "serve_exec out" "sr_inv (o_enc out)"
  "\<lambda>r. r = runtime_new s" "rt_exec (o_engine out) (o_enc out)" "rt_inv (o_enc out)" "\<lambda>st. sv_runtime (sr_service st)"
  for s b out
proof unfold_locales
  show "sv_runtime (sr_service st) = runtime_new s" if "st = server_new s b" for st :: "'a server"
    using that by (simp add: server_new_def service_new_def)
  show "\<exists>ops. sv_runtime (sr_service (serve_exec out op st)) = fold (rt_exec (o_engine out) (o_enc out)) ops (sv_runtime (sr_service st))"
    for op and st :: "'a server"
    using path_exec [of out st op] unfolding rt_path_def by metis
qed

end
