(* ===== verification/ProgramObjects.thy ===== *)
theory ProgramObjects
  imports SessionRuntime
begin

text \<open>
  The life of the objects in every run of the whole program: it goes on by the state diagram,
  whatever the client asks and the guests do, and what has ended holds nothing.
\<close>

section \<open>The order of states\<close>

text \<open>A state is below those an object in it can come to.\<close>

instantiation state :: order
begin

fun less_eq_state :: "state \<Rightarrow> state \<Rightarrow> bool" where
  "less_eq_state s t \<longleftrightarrow> t = s \<or> t \<in> (case s of
      Loaded \<Rightarrow> {Starting, Running, Stopping, Stopped, Exited, Failed}
    | Starting \<Rightarrow> {Running, Stopping, Stopped, Exited, Failed}
    | Running \<Rightarrow> {Stopping, Stopped, Exited, Failed}
    | Stopping \<Rightarrow> {Stopped}
    | _ \<Rightarrow> {})"

definition less_state :: "state \<Rightarrow> state \<Rightarrow> bool" where
  "less_state s t \<longleftrightarrow> s \<le> t \<and> \<not> t \<le> s"

instance
proof
  fix s t u :: state
  show "s < t \<longleftrightarrow> s \<le> t \<and> \<not> t \<le> s" by (rule less_state_def)
  show "s \<le> s" by simp
  show "s \<le> t \<Longrightarrow> t \<le> u \<Longrightarrow> s \<le> u" by (cases s; cases t; auto)
  show "s \<le> t \<Longrightarrow> t \<le> s \<Longrightarrow> s = t" by (cases s; cases t; auto)
qed

end

lemma moves_le: "moves s t \<Longrightarrow> s \<le> t"
  by (cases s) (auto simp: moves_table)

text \<open>It is the diagram's reachability.\<close>

lemma le_iff_moves: "s \<le> t \<longleftrightarrow> moves\<^sup>*\<^sup>* s t"
proof
  assume "moves\<^sup>*\<^sup>* s t"
  then show "s \<le> t" by (induction rule: rtranclp_induct) (auto intro: order_trans moves_le simp del: less_eq_state.simps)
next
  assume le: "s \<le> t"
  have 1: "moves\<^sup>*\<^sup>* Loaded Starting" "moves\<^sup>*\<^sup>* Starting Running" by (auto intro: moves.intros)
  show "moves\<^sup>*\<^sup>* s t"
  proof (cases "moves s t")
    case False
    with le have "s = Loaded" "t \<noteq> Starting" "moves Starting t"
      by (cases s; cases t; auto simp: moves_table)+
    then show ?thesis by (metis 1(1) rtranclp.rtrancl_into_rtrancl)
  qed simp
qed

section \<open>Runs\<close>

lemma run_advances:
  assumes "rt_inv enc r" "heap r i = Some ob"
  shows "\<exists>ob'. heap (fold (rt_exec e enc) ops r) i = Some ob' \<and> ob_state ob \<le> ob_state ob' \<and>
    (terminal (ob_state ob) \<longrightarrow> ob_state ob' = ob_state ob \<and> ob_outcome ob' = ob_outcome ob)"
  using assms
proof (induction ops arbitrary: r ob)
  case (Cons op ops)
  from exec_progresses [OF Cons.prems(1), of e op] Cons.prems(2)
  obtain ob1 where 1: "heap (rt_exec e enc op r) i = Some ob1" "progress ob ob1"
    unfolding progresses_def by blast
  from Cons.IH [OF rt_inv_exec [OF Cons.prems(1)] 1(1)] obtain ob2 where
    2: "heap (fold (rt_exec e enc) (op # ops) r) i = Some ob2" "ob_state ob1 \<le> ob_state ob2"
      "terminal (ob_state ob1) \<longrightarrow> ob_state ob2 = ob_state ob1 \<and> ob_outcome ob2 = ob_outcome ob1" by auto
  moreover have "ob_state ob \<le> ob_state ob1" using 1(2) moves_le by (simp add: progress_def)
  moreover have "terminal (ob_state ob) \<longrightarrow> ob_state ob1 = ob_state ob \<and> ob_outcome ob1 = ob_outcome ob"
    using 1(2) moves_terminal by (auto simp: progress_def)
  ultimately show ?case by (metis order_trans)
qed auto

text \<open>The program with its guests refines the session, this the logged one, and this the runtime.\<close>

interpretation whr: refining "\<lambda>x. x = ([], whole_new s b)" "whole_log out e" "whole_ok out"
  "\<lambda>r. r = runtime_new s" "rt_exec (o_engine out) (o_enc out)" "rt_inv (o_enc out)"
  "\<lambda>x. sr_runtime (wh_server (snd x))" for s b out e
proof -
  have log: "whole_ok out x \<Longrightarrow> log_ok out (seen x)" for x :: "event list \<times> ('a, 'b) whole"
    by (simp add: whole_ok_def)
  have inv: "log_ok out x \<Longrightarrow> sr_inv (o_enc out) (snd x)" for x :: "event list \<times> 'a server"
    by (cases x) (simp add: log_ok_def)
  have "refining (\<lambda>x. x = ([], whole_new s b)) (whole_log out e) (whole_ok out)
      (\<lambda>st. st = server_new s b) (serve_exec out) (sr_inv (o_enc out)) (\<lambda>x. snd (seen x))"
    by (rule refining_comp [OF wh.refining_axioms lgr.refining_axioms log])
  from refining_comp [OF this srt.refining_axioms] inv [OF log]
  show "refining (\<lambda>x. x = ([], whole_new s b)) (whole_log out e) (whole_ok out) (\<lambda>r. r = runtime_new s)
      (rt_exec (o_engine out) (o_enc out)) (rt_inv (o_enc out)) (\<lambda>x. sr_runtime (wh_server (snd x)))"
    by simp
qed

section \<open>Properties\<close>

text \<open>
  C10: the state of an object only advances. In every run of the program with guests an object
  that was made is kept, its state comes after or is the one it had, in the order of the state
  diagram, and once it stopped, exited or failed it stays so with the outcome it had.
\<close>

theorem objects_only_advance:
  assumes run: "wlog out e s b ops = (tr, w)" "wlog out e s b (ops @ later) = (tr', w')"
    and ob: "heap (sr_runtime (wh_server w)) i = Some ob"
  shows "\<exists>ob'. heap (sr_runtime (wh_server w')) i = Some ob' \<and> ob_state ob \<le> ob_state ob' \<and>
    (terminal (ob_state ob) \<longrightarrow> ob_state ob' = ob_state ob \<and> ob_outcome ob' = ob_outcome ob)"
proof -
  have ok: "whole_ok out (tr, w)" using wh.conc.reach_inv [OF refl, of out e ops s b] run by simp
  have "rt_inv (o_enc out) (sr_runtime (wh_server w))" using whr.view_inv [OF refl, of out e ops s b] run by simp
  from run_advances [OF this ob] whr.view_run [OF ok, of e later] show ?thesis using run by fastforce
qed

text \<open>
  C11: an object that has ended holds nothing. In every state of the program with guests an
  object that stopped, exited or failed has no event in its mailbox and remembers no event
  identifier, the host has no routing entry for it, no host call of it is in flight, and none
  of its output is queued.
\<close>

theorem ended_objects_are_gone:
  assumes run: "wlog out e s b ops = (tr, w)"
    and ob: "heap (sr_runtime (wh_server w)) i = Some ob" "terminal (ob_state ob)"
  shows "holds_nothing i ob (sv_world (sr_service (wh_server w)))"
proof -
  have "rt_inv (o_enc out) (sr_runtime (wh_server w))" using whr.view_inv [OF refl, of out e ops s b] run by simp
  from ended_holds_nothing [OF this ob] show ?thesis .
qed

section \<open>A run in which an object ends\<close>

text \<open>The object of the session with a guest is started, and its program exits.\<close>

definition exit_ops :: "bytes whole_op list" where
  "exit_ops = [Session (ObjPoll ''o1'' (RunCode 0))]"

lemma guest_object_exits:
  "\<exists>ob. heap (sr_runtime (wh_server (snd (wlog guest_outside (flat_env 0) ''s'' some_builds (map Session guest_session))))) ''o1'' = Some ob \<and>
     ob_state ob = Starting"
  "\<exists>ob. heap (sr_runtime (wh_server (snd (wlog guest_outside (flat_env 0) ''s'' some_builds (map Session guest_session @ exit_ops))))) ''o1'' = Some ob \<and>
     ob_state ob = Exited"
proof -
  let ?w = "snd (wlog guest_outside (flat_env 0) ''s'' some_builds (map Session guest_session))"
  let ?st = "guest_server NotPolled (guest_service guest_outbox [''o1'' \<mapsto> guest_started] [''o1''] 1 [])"
  have w: "wh_server ?w = ?st"
    unfolding whole_log_fst_snd
    by (subst whole_exec_session) (simp_all only: whole_new_def whole.simps guest_ready, simp_all add: guest_session_def)
  have heap: "heap (sr_runtime ?st) = [''o1'' \<mapsto> guest_started]"
    by (simp add: guest_server_def guest_service_def)
  then show "\<exists>ob. heap (sr_runtime (wh_server ?w)) ''o1'' = Some ob \<and> ob_state ob = Starting"
    unfolding w by simp
  have "wh_server (snd (wlog guest_outside (flat_env 0) ''s'' some_builds (map Session guest_session @ exit_ops))) =
      serve_exec guest_outside (ObjPoll ''o1'' (RunCode 0)) ?st"
    unfolding fold_append o_apply exit_ops_def using w
    by (cases "wlog guest_outside (flat_env 0) ''s'' some_builds (map Session guest_session)") simp
  moreover have "task_poll enc ''o1'' (RunCode 0) r = task_end enc ''o1'' (Some (RunCode 0)) (task_started guest_started) r"
    if "heap r ''o1'' = Some guest_started" for enc and r :: "unit runtime"
    using that by (simp add: task_poll_def task_started_def object_new_def Let_def)
  moreover have "\<exists>ob. heap (task_end enc ''o1'' (Some (RunCode 0)) (task_started guest_started) r) ''o1'' = Some ob \<and>
      ob_state ob = Exited" for enc and r :: "unit runtime"
    using task_end_eq [of enc "''o1''" "Some (RunCode 0)" "task_started guest_started" r]
    by (auto simp: ended_object_def)
  ultimately show "\<exists>ob. heap (sr_runtime (wh_server (snd (wlog guest_outside (flat_env 0) ''s'' some_builds (map Session guest_session @ exit_ops))))) ''o1'' = Some ob \<and>
     ob_state ob = Exited" using heap by simp
qed

theorem objects_only_advance_witness:
  "\<exists>ob ob'. heap (sr_runtime (wh_server (snd (wlog guest_outside (flat_env 0) ''s'' some_builds (map Session guest_session))))) ''o1'' = Some ob \<and>
     heap (sr_runtime (wh_server (snd (wlog guest_outside (flat_env 0) ''s'' some_builds (map Session guest_session @ exit_ops))))) ''o1'' = Some ob' \<and>
     ob_state ob \<le> ob_state ob' \<and> ob_state ob' = Exited"
proof -
  from guest_object_exits obtain ob ob1 where
    ob: "heap (sr_runtime (wh_server (snd (wlog guest_outside (flat_env 0) ''s'' some_builds (map Session guest_session))))) ''o1'' = Some ob"
    "heap (sr_runtime (wh_server (snd (wlog guest_outside (flat_env 0) ''s'' some_builds (map Session guest_session @ exit_ops))))) ''o1'' = Some ob1"
    "ob_state ob1 = Exited" by blast
  from objects_only_advance [OF prod.collapse [symmetric] prod.collapse [symmetric] ob(1), of exit_ops] ob
  show ?thesis by (auto simp del: less_eq_state.simps)
qed

theorem ended_objects_are_gone_witness:
  "\<exists>ob :: unit object. holds_nothing ''o1'' ob (sv_world (sr_service (wh_server (snd
     (wlog guest_outside (flat_env 0) ''s'' some_builds (map Session guest_session @ exit_ops))))))"
proof -
  from guest_object_exits(2) obtain ob where
    ob: "heap (sr_runtime (wh_server (snd (wlog guest_outside (flat_env 0) ''s'' some_builds (map Session guest_session @ exit_ops))))) ''o1'' = Some ob"
    "terminal (ob_state ob)" by (auto simp: terminal_def)
  from ended_objects_are_gone [OF prod.collapse [symmetric] ob] show ?thesis by blast
qed

end
