(* ===== verification/Spec2Isabelle.thy ===== *)
theory Spec2Isabelle
  imports Program Replies Compilation HelperJson HelperLog NoBuilds Completion ProgramObjects
begin

text \<open>
  A model of spinfoam, a runtime for guest programs (eBPF objects) that an embedder drives
  over standard input and output with a JSON-RPC profile, and what is proved of it.

  \<^bold>\<open>The program and its parts.\<close> \<^verbatim>\<open>main\<close> opens the two streams and runs \<^verbatim>\<open>serve_with_config\<close>: a loop
  reads frames, routes each to an answer, a waiting host call or a new request task, and a
  writer task takes frames from the outbox. Request tasks call \<^verbatim>\<open>Service::handle\<close>, which works
  on the objects of the runtime; each started object runs its guest program in a task of its
  own, whose helpers read events from the object's mailbox, call the host through the outbox,
  and log. Builds run the TinyCC compiler as a guest with a file system in memory. Everything
  but the loader's threads runs on one thread, so the model's steps are the segments between
  two points at which a task may be suspended.

  \<^bold>\<open>Theories and the code they model\<close> (files under \<^verbatim>\<open>src/\<close> of the repository):
  \<^item> \<open>Prelude\<close>: types, counters, maps, decimal and hexadecimal printing (\<^verbatim>\<open>sha256\<close> of \<^verbatim>\<open>lib.rs\<close>);
    \<open>Interfaces\<close>: the locales \<open>guarded\<close>, \<open>machine\<close>,
    \<open>refining\<close> and \<open>fifo\<close>; \<open>Utf8\<close> and \<open>Json\<close>: strings and
    values, the limit \<^verbatim>\<open>valid_value\<close>; \<open>Errors\<close>: \<^verbatim>\<open>error.rs\<close>.
  \<^item> \<open>Mailbox\<close>: \<^verbatim>\<open>Mailbox\<close> of \<^verbatim>\<open>runtime.rs\<close>. \<open>Outbox\<close>, \<open>OutboxOrder\<close>: \<^verbatim>\<open>outbox.rs\<close>. \<open>HostRpc\<close>,
    \<open>HostCalls\<close>: \<^verbatim>\<open>host.rs\<close> with the call guard.
  \<^item> \<open>Guest\<close>, \<open>Helpers\<close>: the handle table and the 32 helpers of \<^verbatim>\<open>helpers.rs\<close>; \<open>HelperSafety\<close>,
    \<open>HelperJson\<close>, \<open>HelperLog\<close>: what they keep and compute; \<open>GuestRuns\<close>: the helpers and the futures
    they post, run in the objects' tasks. There the runtime with real helpers is shown to refine
    the runtime with the actions \<open>guest_act\<close>, which \<open>Lifecycle\<close> and \<open>Serving\<close> use for guests.
  \<^item> \<open>Lifecycle\<close>, \<open>LifecycleSafe\<close>: objects and the runtime of \<^verbatim>\<open>runtime.rs\<close>: load, start, the
    object's task, stop, unload, shutdown.
  \<^item> \<open>Framing\<close>, \<open>Service\<close>: \<^verbatim>\<open>frame\<close>, the methods and the router of \<^verbatim>\<open>protocol.rs\<close>; \<open>Writer\<close>: the
    writer task with the waiting part of \<^verbatim>\<open>Outbox::next\<close>; \<open>Serving\<close>: the session, that is the
    \<^verbatim>\<open>select!\<close> loop, the request tasks and the shutdown sequence, as a machine \<open>serve_exec\<close> over
    polls; \<open>ServeSafe\<close>, \<open>Replies\<close>: what the session guarantees.
  \<^item> \<open>SessionLog\<close>: the session with a log of what its client can see: what was received, routed
    or lost, which requests were accepted, answered or aborted, which frames were queued and
    written. \<open>EndToEnd\<close>: what the log of every session looks like; \<open>Delivery\<close>: that queued frames
    get written.
  \<^item> \<open>Origins\<close>, \<open>Whole\<close>: the whole program with its guests, the session in whose objects' tasks
    programs call the real helpers; it refines the session, and the authority of every host
    call is traced to a request of the client.
  \<^item> \<open>Workers\<close>: \<^verbatim>\<open>run_blocking\<close> of \<^verbatim>\<open>TokioTimeslicer\<close> with its two permits, and of
    \<^verbatim>\<open>CompilerTimeslicer\<close>; \<open>Loader\<close>: the session whose loads wait for these threads.
  \<^item> \<open>SessionRuntime\<close>: the session as a refinement of the runtime, so that what holds of all runs
    of the runtime holds in every run of the program; \<open>ProgramObjects\<close>: the life of objects
    there, with the order of their states; \<open>Completion\<close>: that no request is ever stuck;
    \<open>NoBuilds\<close>: \<^verbatim>\<open>serve\<close>, a session that never builds.
  \<^item> \<open>BuildRequest\<close>, \<open>CompilerFiles\<close>, \<open>Compilation\<close>: \<^verbatim>\<open>build/mod.rs\<close> and \<^verbatim>\<open>build/compiler.rs\<close>:
    validation, paths, the compiler's helpers, one compilation from parameters to reply.
  \<^item> \<open>Stdio\<close>: \<^verbatim>\<open>stdio.rs\<close> on a model of descriptors and their flags; \<open>Program\<close>: \<^verbatim>\<open>main.rs\<close>, the
    result of a session, and the output as a client reads it.

  \<^bold>\<open>State.\<close> A Rust struct is a record with the same fields: \<open>mailbox\<close>, \<open>outbox\<close>, \<open>host\<close>, \<open>guest\<close>,
  \<open>object\<close>, \<open>runtime\<close>, \<open>service\<close>, \<open>builds\<close>, \<open>vfs\<close>, \<open>stdio\<close>. Shared \<^verbatim>\<open>Rc\<close>s are resolved into one owner:
  \<open>world\<close> holds the outbox and the host table, \<open>runtime\<close> holds the world and the heap of objects,
  \<open>service\<close> holds the runtime, \<open>server\<close> holds the service, the writer, the builds and the input.
  Hash maps and ordered maps are association lists with distinct, or sorted, keys. Errors are
  \<open>Inl\<close>, panics a result of their own that the invariants exclude.

  \<^bold>\<open>What the lemmas show.\<close> Each component has an invariant that all its operations keep, stated
  by an interpretation of \<open>machine\<close>, and queues are shown to be channels by interpretations of
  \<open>fifo\<close>. On these rest the properties, numbered C1 and so on in the theories. From end to end, of
  every session: every byte of the input is accounted for, every request is answered once
  with a well-formed reply and can always be answered in a bounded number of steps, control
  frames are written in order and within a bounded number of steps of the writer, host calls
  have the authority the client gave, and objects only advance in their state diagram. Of the parts:
  bounds of every queue and table; order and fairness of the output, that the writer is never stuck and what
  reaches the wire can be split again by the client; the life cycle of objects, that they end
  and leave nothing; host calls answered once and within the object's capabilities; isolation of guests; framing
  independent of the cut of the input, in one read or across polls; the shape of every reply;
  that shutdown completes; the result of a session; the compiler's sandbox and that a build
  reports what was compiled; that the descriptors are left as they were.

  Two properties show what the program does not guarantee, by runs: \<open>queued_reply_lost\<close> (the
  \<^verbatim>\<open>select!\<close> at the end of \<^verbatim>\<open>next\<close> may look at the closed branch first) and
  \<open>partial_frame_dropped\<close> (the frame future is dropped when a request task is joined).

  \<^bold>\<open>Bounds and fuel.\<close> No definition of the program takes fuel: loops over data are structural
  recursions, the polling loops of \<^verbatim>\<open>stdio.rs\<close>, which may go on forever, are partial functions
  over the stream of answers, with a property that says when they return. \<open>all_frames n\<close> reads
  at most \<open>n\<close> frames; the property uses as many as there are. \<^verbatim>\<open>u64\<close> counters are words with
  checked or saturating steps as in the code; a \<^verbatim>\<open>usize\<close> that measures memory is a natural
  number, which assumes 64-bit addresses where the code converts a \<^verbatim>\<open>u64\<close>.

  \<^bold>\<open>Parameters.\<close> Code outside the repository is an argument: serde's printer (\<open>encoder\<close>), parser
  and decoders, base64, SHA-256, the loader, the guest program (its helper calls and how it
  ends), the memory access of the virtual machine, clocks, and which system calls fail. Where a
  property needs a law of them, it is a hypothesis: \<open>printable\<close> and \<open>one_line\<close> for the printer,
  \<open>slice_law\<close> for the memory access.

  \<^bold>\<open>Not modelled.\<close> The virtual machine async-ebpf with its JIT, time slicing and memory
  protection; what the time slicers do for it besides \<^verbatim>\<open>run_blocking\<close>, which is to sleep and
  to yield; Tokio's scheduler and the order in which its semaphore serves those that wait, of
  which only the order of polls is left, arbitrary in every run; the argument parser and the
  log; the build script; the C header, examples, scripts, benchmarks and tests; TinyCC, which
  is vendored.
\<close>

end
